(* ===== verification/Net_Prelude.thy ===== *)
theory Net_Prelude
  imports Main "HOL-Library.Word" "HOL-Library.Monad_Syntax"
begin

text \<open>
  The vocabulary the component theories share: Rust's fixed-width integers, results and
  panics, the little- and big-endian byte conversions of the standard library, a read cursor
  over a byte vector, and the interface of a wire codec (an encoder with a decoder that takes
  back exactly what the encoder wrote).  Rust's \<open>usize\<close> is 64 bits wide here.
\<close>

unbundle bit_operations_syntax

section \<open>Types\<close>

type_synonym u8 = "8 word"
type_synonym u16 = "16 word"
type_synonym u32 = "32 word"
type_synonym u64 = "64 word"
type_synonym usize = "64 word"
type_synonym u256 = "256 word"

text \<open>
  A Rust \<open>Result\<close> is a sum, the error on the left.  A panic is an error of its own type,
  carrying the message of the \<open>expect\<close>, \<open>unwrap\<close> or \<open>panic!\<close> that raised it.
\<close>

datatype panic = Panic string

type_synonym 'a may_panic = "panic + 'a"

named_theorems rust_simps \<open>evaluation of results, options and byte conversions\<close>
named_theorems codec_simps \<open>decoders applied to encoder output\<close>

section \<open>Results and options\<close>

definition rbind :: "'e + 'a \<Rightarrow> ('a \<Rightarrow> 'e + 'b) \<Rightarrow> 'e + 'b" where
  "rbind m f = (case m of Inl e \<Rightarrow> Inl e | Inr x \<Rightarrow> f x)"

lemma rbind_simps [simp, rust_simps]:
  "rbind (Inl e) f = Inl e"
  "rbind (Inr x) f = f x"
  by (simp_all add: rbind_def)

lemma rbind_eq_Inr [rust_simps]: "rbind m f = Inr y \<longleftrightarrow> (\<exists>x. m = Inr x \<and> f x = Inr y)"
  by (cases m) auto

lemma rbind_eq_Inl [rust_simps]:
  "rbind m f = Inl e \<longleftrightarrow> m = Inl e \<or> (\<exists>x. m = Inr x \<and> f x = Inl e)"
  by (cases m) auto

text \<open>Rust's \<open>Option::expect\<close>: the value, or a panic with the message.\<close>

definition expect :: "string \<Rightarrow> 'a option \<Rightarrow> 'a may_panic" where
  "expect msg x = (case x of None \<Rightarrow> Inl (Panic msg) | Some v \<Rightarrow> Inr v)"

lemma expect_simps [simp, rust_simps]:
  "expect msg None = Inl (Panic msg)"
  "expect msg (Some v) = Inr v"
  by (simp_all add: expect_def)

lemma expect_eq_Inr [rust_simps]: "expect msg x = Inr v \<longleftrightarrow> x = Some v"
  by (cases x) auto

lemma expect_eq_Inl [rust_simps]: "expect msg x = Inl p \<longleftrightarrow> x = None \<and> p = Panic msg"
  by (cases x) auto

text \<open>Rust's \<open>Result::is_ok\<close>.\<close>

definition is_ok :: "'e + 'a \<Rightarrow> bool" where
  "is_ok r = (case r of Inl _ \<Rightarrow> False | Inr _ \<Rightarrow> True)"

lemma is_ok_simps [simp]: "is_ok (Inr x)" "\<not> is_ok (Inl e)"
  by (simp_all add: is_ok_def)

section \<open>Integers and bytes\<close>

definition u8_to_le_bytes :: "u8 \<Rightarrow> u8 list" where
  "u8_to_le_bytes w = [w]"

definition u32_to_le_bytes :: "u32 \<Rightarrow> u8 list" where
  "u32_to_le_bytes w =
     [ucast w, ucast (drop_bit 8 w), ucast (drop_bit 16 w), ucast (drop_bit 24 w)]"

definition u32_to_be_bytes :: "u32 \<Rightarrow> u8 list" where
  "u32_to_be_bytes w = rev (u32_to_le_bytes w)"

fun u32_from_le_bytes :: "u8 list \<Rightarrow> u32" where
  "u32_from_le_bytes [] = 0"
| "u32_from_le_bytes (b # bs) = ucast b OR push_bit 8 (u32_from_le_bytes bs)"

definition u32_from_be_bytes :: "u8 list \<Rightarrow> u32" where
  "u32_from_be_bytes bs = u32_from_le_bytes (rev bs)"

definition u8_from_le_bytes :: "u8 list \<Rightarrow> u8" where
  "u8_from_le_bytes bs = hd bs"

text \<open>Rust's \<open>len as u32\<close> on a \<open>usize\<close> length keeps the low 32 bits.\<close>

definition as_u32 :: "nat \<Rightarrow> u32" where
  "as_u32 n = word_of_nat n"

lemma length_u32_to_le_bytes [simp]: "length (u32_to_le_bytes w) = 4"
  by (simp add: u32_to_le_bytes_def)

lemma length_u32_to_be_bytes [simp]: "length (u32_to_be_bytes w) = 4"
  by (simp add: u32_to_be_bytes_def)

lemma u32_le_roundtrip [simp, codec_simps]: "u32_from_le_bytes (u32_to_le_bytes w) = w"
proof (rule bit_word_eqI)
  fix n
  assume "n < LENGTH(32)"
  then have n: "n < 32" by simp
  have "24 + (n - 24) = n \<or> n < 24" by linarith
  then show "bit (u32_from_le_bytes (u32_to_le_bytes w)) n = bit w n"
    using n by (auto simp: u32_to_le_bytes_def bit_simps)
qed

lemma u32_be_roundtrip [simp, codec_simps]: "u32_from_be_bytes (u32_to_be_bytes w) = w"
  by (simp add: u32_from_be_bytes_def u32_to_be_bytes_def)

lemma u8_bit_beyond: "8 \<le> n \<Longrightarrow> \<not> bit (w :: u8) n"
  using bit_imp_le_length [of w n] by auto

lemma u32_le_bytes_inverse:
  assumes "length bs = 4"
  shows "u32_to_le_bytes (u32_from_le_bytes bs) = bs"
proof -
  obtain a b c d where bs: "bs = [a, b, c, d]"
    using assms by (auto simp: numeral_eq_Suc length_Suc_conv)
  show ?thesis
    unfolding bs u32_to_le_bytes_def
    by (auto intro!: bit_word_eqI simp: bit_simps u8_bit_beyond)
qed

lemma unat_as_u32 [simp]: "n < 2 ^ 32 \<Longrightarrow> unat (as_u32 n) = n"
  by (simp add: as_u32_def unsigned_of_nat take_bit_nat_eq_self)

lemma unat_as_u32_mod: "unat (as_u32 n) = n mod 2 ^ 32"
  by (simp add: as_u32_def unsigned_of_nat take_bit_eq_mod)

lemma as_u32_unat [simp]: "as_u32 (unat w) = w"
  by (simp add: as_u32_def)

lemma unat_u32_less [simp]: "unat (w :: u32) < 4294967296"
  using unsigned_less [of w] by simp

section \<open>Cursors\<close>

text \<open>
  Rust's \<open>Cursor<Vec<u8>>\<close>: a vector and a read position.  \<open>read_exact\<close> hands out the next
  bytes and moves on, or fails when fewer are left.
\<close>

record cursor =
  inner :: "u8 list"
  position :: nat

definition cursor_new :: "u8 list \<Rightarrow> cursor" where
  "cursor_new v = \<lparr>inner = v, position = 0\<rparr>"

definition read_exact :: "nat \<Rightarrow> cursor \<Rightarrow> (u8 list \<times> cursor) option" where
  "read_exact n c =
     (let left = drop (position c) (inner c)
      in if n \<le> length left then Some (take n left, c\<lparr>position := position c + n\<rparr>) else None)"

text \<open>A cursor that stands between the bytes it has read and the bytes it has yet to read.\<close>

definition cursor_at :: "u8 list \<Rightarrow> u8 list \<Rightarrow> cursor" where
  "cursor_at done_bytes left = \<lparr>inner = done_bytes @ left, position = length done_bytes\<rparr>"

lemma cursor_new_at: "cursor_new v = cursor_at [] v"
  by (simp add: cursor_new_def cursor_at_def)

lemma cursor_at_eq_iff [simp]: "cursor_at p r = cursor_at q s \<longleftrightarrow> p = q \<and> r = s"
  by (auto simp: cursor_at_def)

lemma read_exact_at:
  "read_exact n (cursor_at p s) =
     (if n \<le> length s then Some (take n s, cursor_at (p @ take n s) (drop n s)) else None)"
  by (auto simp: read_exact_def cursor_at_def Let_def min_def)

lemma read_exact_append [simp, codec_simps]:
  "length xs = n \<Longrightarrow> read_exact n (cursor_at p (xs @ r)) = Some (xs, cursor_at (p @ xs) r)"
  by (auto simp: read_exact_at)

lemma read_exact_sound:
  assumes "read_exact n (cursor_at p s) = Some (xs, c')"
  obtains r where "s = xs @ r" "length xs = n" "c' = cursor_at (p @ xs) r"
  using assms that [of "drop n s"] by (auto simp: read_exact_at split: if_splits)

section \<open>Wire codecs\<close>

text \<open>
  The contract of every encoder and decoder pair of the wire format.  \<open>dec_enc\<close>: the decoder
  takes back what the encoder wrote, and leaves the cursor right behind it.  \<open>dec_sound\<close>: the
  decoder accepts nothing but encoder output, so each value has one encoding.
\<close>

locale wire_codec =
  fixes enc :: "'a \<Rightarrow> u8 list"
    and dec :: "cursor \<Rightarrow> ('a \<times> cursor) option"
    and ok :: "'a \<Rightarrow> bool"
  assumes dec_enc: "ok x \<Longrightarrow> dec (cursor_at p (enc x @ r)) = Some (x, cursor_at (p @ enc x) r)"
    and dec_sound: "dec (cursor_at p s) = Some (x, c') \<Longrightarrow>
      ok x \<and> (\<exists>r. s = enc x @ r \<and> c' = cursor_at (p @ enc x) r)"
begin

lemma dec_iff:
  "dec (cursor_at p s) = Some (x, c') \<longleftrightarrow>
     ok x \<and> (\<exists>r. s = enc x @ r \<and> c' = cursor_at (p @ enc x) r)"
  using dec_enc dec_sound by blast

lemma dec_new: "ok x \<Longrightarrow> dec (cursor_new (enc x @ r)) = Some (x, cursor_at (enc x) r)"
  using dec_enc [of x "[]" r] by (simp add: cursor_new_at)

lemma dec_new_exact: "ok x \<Longrightarrow> dec (cursor_new (enc x)) = Some (x, cursor_at (enc x) [])"
  using dec_new [of x "[]"] by simp

lemma enc_prefix_free:
  assumes "ok x" "ok y" "enc x @ r = enc y @ s"
  shows "x = y \<and> r = s"
proof -
  have "Some (x, cursor_at ([] @ enc x) r) = dec (cursor_at [] (enc x @ r))"
    by (rule dec_enc [OF assms(1), symmetric])
  also have "\<dots> = Some (y, cursor_at ([] @ enc y) s)"
    unfolding assms(3) by (rule dec_enc [OF assms(2)])
  finally show ?thesis by (simp only: option.inject prod.inject cursor_at_eq_iff)
qed

lemma enc_inj: "ok x \<Longrightarrow> ok y \<Longrightarrow> enc x = enc y \<Longrightarrow> x = y"
  using enc_prefix_free [of x y "[]" "[]"] by simp

lemma dec_truncated:
  assumes "ok x" "enc x = s @ t" "t \<noteq> []"
  shows "dec (cursor_at p s) = None"
proof (rule ccontr)
  assume "dec (cursor_at p s) \<noteq> None"
  then obtain y c' where "dec (cursor_at p s) = Some (y, c')" by auto
  then obtain r where y: "ok y" "s = enc y @ r" using dec_sound by blast
  then have "enc x @ [] = enc y @ (r @ t)" using assms(2) by simp
  then have "r @ t = []" using enc_prefix_free [OF assms(1) y(1)] by blast
  with assms(3) show False by simp
qed

lemma dec_new_truncated: "ok x \<Longrightarrow> enc x = s @ t \<Longrightarrow> t \<noteq> [] \<Longrightarrow> dec (cursor_new s) = None"
  by (simp add: cursor_new_at dec_truncated)

end

subsection \<open>The length-prefixed byte string\<close>

text \<open>
  Every variable-length field of the wire format is four little-endian length bytes and the
  bytes themselves.
\<close>

definition enc_blob :: "u8 list \<Rightarrow> u8 list" where
  "enc_blob xs = u32_to_le_bytes (as_u32 (length xs)) @ xs"

definition dec_blob :: "cursor \<Rightarrow> (u8 list \<times> cursor) option" where
  "dec_blob c = do {
     (len_bytes, c) \<leftarrow> read_exact 4 c;
     read_exact (unat (u32_from_le_bytes len_bytes)) c }"

definition blob_ok :: "u8 list \<Rightarrow> bool" where
  "blob_ok xs \<longleftrightarrow> length xs < 2 ^ 32"

lemma blob_ok_Nil [simp]: "blob_ok []"
  by (simp add: blob_ok_def)

interpretation blob: wire_codec enc_blob dec_blob blob_ok
proof unfold_locales
  show "dec_blob (cursor_at p (enc_blob x @ r)) = Some (x, cursor_at (p @ enc_blob x) r)"
    if "blob_ok x" for x p r
    using that by (simp add: dec_blob_def enc_blob_def blob_ok_def)
next
  fix p s x c'
  assume "dec_blob (cursor_at p s) = Some (x, c')"
  then obtain lb c1 where 1: "read_exact 4 (cursor_at p s) = Some (lb, c1)"
    and 2: "read_exact (unat (u32_from_le_bytes lb)) c1 = Some (x, c')"
    by (auto simp: dec_blob_def bind_eq_Some_conv)
  from 1 obtain r1 where r1: "s = lb @ r1" "length lb = 4" "c1 = cursor_at (p @ lb) r1"
    by (rule read_exact_sound)
  from 2 r1(3) obtain r2 where r2: "r1 = x @ r2" "length x = unat (u32_from_le_bytes lb)"
    "c' = cursor_at (p @ lb @ x) r2"
    by (auto elim: read_exact_sound)
  have "enc_blob x = lb @ x"
    by (simp add: enc_blob_def r2(2) u32_le_bytes_inverse r1(2))
  then show "blob_ok x \<and> (\<exists>r. s = enc_blob x @ r \<and> c' = cursor_at (p @ enc_blob x) r)"
    using r1 r2 by (auto simp: blob_ok_def)
qed

lemmas blob_codec [codec_simps] = blob.dec_enc blob.dec_new blob.dec_new_exact

lemma length_enc_blob [simp]: "length (enc_blob xs) = 4 + length xs"
  by (simp add: enc_blob_def)

subsection \<open>One little-endian word\<close>

definition dec_u32 :: "cursor \<Rightarrow> (u32 \<times> cursor) option" where
  "dec_u32 c = do {
     (bs, c) \<leftarrow> read_exact 4 c;
     Some (u32_from_le_bytes bs, c) }"

interpretation le32: wire_codec u32_to_le_bytes dec_u32 "\<lambda>_. True"
proof unfold_locales
  show "dec_u32 (cursor_at p (u32_to_le_bytes x @ r)) = Some (x, cursor_at (p @ u32_to_le_bytes x) r)"
    for x p r
    by (simp add: dec_u32_def)
next
  fix p s x c'
  assume "dec_u32 (cursor_at p s) = Some (x, c')"
  then show "True \<and> (\<exists>r. s = u32_to_le_bytes x @ r \<and> c' = cursor_at (p @ u32_to_le_bytes x) r)"
    by (auto simp: dec_u32_def bind_eq_Some_conv u32_le_bytes_inverse elim!: read_exact_sound)
qed

lemma dec_u32_bind: "Option.bind (read_exact 4 c) (\<lambda>(bs, c). f (u32_from_le_bytes bs) c) =
    Option.bind (dec_u32 c) (\<lambda>(w, c). f w c)"
  by (cases "read_exact 4 c") (auto simp: dec_u32_def)

lemma dec_blob_bind: "Option.bind (read_exact 4 c)
      (\<lambda>(bs, c). Option.bind (read_exact (unat (u32_from_le_bytes bs)) c) (\<lambda>(xs, c). f xs c)) =
    Option.bind (dec_blob c) (\<lambda>(xs, c). f xs c)"
  by (cases "read_exact 4 c") (auto simp: dec_blob_def)

section \<open>Coming to rest\<close>

text \<open>Steps that keep an invariant and use up work end in a state without a next step.\<close>

lemma comes_to_rest:
  assumes step: "\<And>x y. I x \<Longrightarrow> R x y \<Longrightarrow> I y \<and> (f y :: nat) < f x"
  shows "I x \<Longrightarrow> \<exists>k y. (R ^^ k) x y \<and> (\<forall>z. \<not> R y z)"
proof (induction "f x" arbitrary: x rule: less_induct)
  case less
  show ?case
  proof (cases "\<exists>y. R x y")
    case True
    then obtain y where y: "R x y" by blast
    with step less.prems have "I y" "f y < f x" by auto
    with less.hyps obtain k z where "(R ^^ k) y z" "\<forall>z'. \<not> R z z'" by blast
    with y relpowp_Suc_I2 show ?thesis by metis
  next
    case False
    then have "(R ^^ 0) x x \<and> (\<forall>z. \<not> R x z)" by simp
    then show ?thesis by blast
  qed
qed

end
