(* ===== verification/Rust_Strings.thy ===== *)
theory Rust_Strings
  imports Net_Prelude
begin

text \<open>
  Rust strings.  A Rust \<open>String\<close> is its UTF-8 bytes, so it is modelled as an Isabelle
  \<open>string\<close> whose characters are the bytes, with \<open>string_ok\<close> for the invariant that the bytes
  are valid UTF-8.  \<open>from_utf8\<close> and \<open>into_bytes\<close> are the conversions the program uses, and the
  formatting functions are the ones its \<open>format!\<close> calls use.  The UTF-8 check follows the
  standard library's validator byte by byte and is proved to accept exactly the encodings of
  sequences of Unicode scalar values.
\<close>

section \<open>Bytes and characters\<close>

definition byte_of :: "char \<Rightarrow> u8" where
  "byte_of c = word_of_nat (of_char c)"

definition char_of_byte :: "u8 \<Rightarrow> char" where
  "char_of_byte b = char_of (unat b)"

lemma unat_u8_less [simp]: "unat (b :: u8) < 256"
  using unsigned_less [of b] by simp

lemma unat_u8_div_less [simp]: "unat (b :: u8) div 16 < 16"
  using unat_u8_less [of b] by linarith

lemma char_of_byte_of [simp]: "char_of_byte (byte_of c) = c"
  by (simp add: char_of_byte_def byte_of_def unsigned_of_nat take_bit_nat_eq_self)

lemma byte_of_char_of_byte [simp]: "byte_of (char_of_byte b) = b"
proof -
  have "unat b mod 256 = unat b"
    by (rule mod_less) simp
  then show ?thesis by (simp add: char_of_byte_def byte_of_def)
qed

lemma byte_of_inj: "inj byte_of"
  by (rule inj_on_inverseI [of _ char_of_byte]) simp

lemma char_of_byte_inj: "inj char_of_byte"
  by (rule inj_on_inverseI [of _ byte_of]) simp

section \<open>UTF-8\<close>

definition is_cont :: "u8 \<Rightarrow> bool" where
  "is_cont b \<longleftrightarrow> 0x80 \<le> b \<and> b \<le> 0xBF"

definition second_of_three :: "u8 \<Rightarrow> u8 \<Rightarrow> bool" where
  "second_of_three a b \<longleftrightarrow>
     (a = 0xE0 \<and> 0xA0 \<le> b \<and> b \<le> 0xBF) \<or>
     (0xE1 \<le> a \<and> a \<le> 0xEC \<and> is_cont b) \<or>
     (a = 0xED \<and> 0x80 \<le> b \<and> b \<le> 0x9F) \<or>
     (0xEE \<le> a \<and> a \<le> 0xEF \<and> is_cont b)"

definition second_of_four :: "u8 \<Rightarrow> u8 \<Rightarrow> bool" where
  "second_of_four a b \<longleftrightarrow>
     (a = 0xF0 \<and> 0x90 \<le> b \<and> b \<le> 0xBF) \<or>
     (0xF1 \<le> a \<and> a \<le> 0xF3 \<and> is_cont b) \<or>
     (a = 0xF4 \<and> 0x80 \<le> b \<and> b \<le> 0x8F)"

fun utf8_valid :: "u8 list \<Rightarrow> bool" where
  "utf8_valid [] = True"
| "utf8_valid (a # bs) =
    (if a < 0x80 then utf8_valid bs
     else if 0xC2 \<le> a \<and> a \<le> 0xDF then
       (case bs of b # r \<Rightarrow> is_cont b \<and> utf8_valid r | _ \<Rightarrow> False)
     else if 0xE0 \<le> a \<and> a \<le> 0xEF then
       (case bs of b # c # r \<Rightarrow> second_of_three a b \<and> is_cont c \<and> utf8_valid r | _ \<Rightarrow> False)
     else if 0xF0 \<le> a \<and> a \<le> 0xF4 then
       (case bs of b # c # d # r \<Rightarrow>
          second_of_four a b \<and> is_cont c \<and> is_cont d \<and> utf8_valid r | _ \<Rightarrow> False)
     else False)"

definition string_ok :: "string \<Rightarrow> bool" where
  "string_ok s \<longleftrightarrow> utf8_valid (map byte_of s)"

text \<open>\<open>String::into_bytes\<close>, \<open>str::as_bytes\<close> and \<open>String::from_utf8\<close>.\<close>

definition into_bytes :: "string \<Rightarrow> u8 list" where
  "into_bytes s = map byte_of s"

definition from_utf8 :: "u8 list \<Rightarrow> string option" where
  "from_utf8 bs = (if utf8_valid bs then Some (map char_of_byte bs) else None)"

lemma length_into_bytes [simp]: "length (into_bytes s) = length s"
  by (simp add: into_bytes_def)

lemma into_bytes_Nil_iff [simp]: "into_bytes s = [] \<longleftrightarrow> s = []"
  by (simp add: into_bytes_def)

lemma into_bytes_inj: "into_bytes s = into_bytes t \<longleftrightarrow> s = t"
  using byte_of_inj by (simp add: into_bytes_def inj_map_eq_map)

lemma from_utf8_into_bytes [simp]: "string_ok s \<Longrightarrow> from_utf8 (into_bytes s) = Some s"
  by (simp add: from_utf8_def into_bytes_def string_ok_def comp_def)

lemma from_utf8_eq_Some:
  "from_utf8 bs = Some s \<longleftrightarrow> string_ok s \<and> bs = into_bytes s"
  by (auto simp: from_utf8_def into_bytes_def string_ok_def comp_def)

lemma from_utf8_eq_None: "from_utf8 bs = None \<longleftrightarrow> \<not> utf8_valid bs"
  by (simp add: from_utf8_def)

lemma utf8_valid_ascii: "\<forall>b \<in> set bs. b < 0x80 \<Longrightarrow> utf8_valid bs"
  by (induction bs) auto

section \<open>Formatting\<close>

definition digit_char :: "nat \<Rightarrow> char" where
  "digit_char n = char_of (48 + n)"

text \<open>The \<open>{}\<close> of an unsigned integer.\<close>

fun fmt_dec :: "nat \<Rightarrow> string" where
  "fmt_dec n = (if n < 10 then [digit_char n] else fmt_dec (n div 10) @ [digit_char (n mod 10)])"

declare fmt_dec.simps [simp del]

definition hex_digit :: "nat \<Rightarrow> char" where
  "hex_digit n = (if n < 10 then char_of (48 + n) else char_of (87 + n))"

definition hex_digit_upper :: "nat \<Rightarrow> char" where
  "hex_digit_upper n = (if n < 10 then char_of (48 + n) else char_of (55 + n))"

text \<open>The \<open>{:02x}\<close> and \<open>{:02X}\<close> of a byte.\<close>

definition fmt_02x :: "u8 \<Rightarrow> string" where
  "fmt_02x b = [hex_digit (unat b div 16), hex_digit (unat b mod 16)]"

definition fmt_02X :: "u8 \<Rightarrow> string" where
  "fmt_02X b = [hex_digit_upper (unat b div 16), hex_digit_upper (unat b mod 16)]"

lemma char_of_inj_small:
  "m < 256 \<Longrightarrow> n < 256 \<Longrightarrow> char_of (m :: nat) = char_of n \<longleftrightarrow> m = n"
  by (metis mod_less of_char_of)

lemma digit_char_inj: "m < 10 \<Longrightarrow> n < 10 \<Longrightarrow> digit_char m = digit_char n \<longleftrightarrow> m = n"
  by (simp add: digit_char_def char_of_inj_small)

lemma hex_digit_inj: "m < 16 \<Longrightarrow> n < 16 \<Longrightarrow> hex_digit m = hex_digit n \<longleftrightarrow> m = n"
  by (auto simp: hex_digit_def char_of_inj_small)

lemma hex_digit_upper_inj:
  "m < 16 \<Longrightarrow> n < 16 \<Longrightarrow> hex_digit_upper m = hex_digit_upper n \<longleftrightarrow> m = n"
  by (auto simp: hex_digit_upper_def char_of_inj_small)

lemma unat_u8_digits: "unat (a :: u8) div 16 = unat b div 16 \<Longrightarrow> unat a mod 16 = unat b mod 16
    \<Longrightarrow> a = b"
  by (metis div_mult_mod_eq unsigned_word_eqI)

lemma fmt_02x_inj: "fmt_02x a = fmt_02x b \<longleftrightarrow> a = b"
  using unat_u8_digits [of a b] by (auto simp: fmt_02x_def hex_digit_inj)

lemma fmt_02X_inj: "fmt_02X a = fmt_02X b \<longleftrightarrow> a = b"
  using unat_u8_digits [of a b] by (auto simp: fmt_02X_def hex_digit_upper_inj)

text \<open>Concatenating a fixed-width formatting keeps it injective.\<close>

lemma concat_map_inj_fixed:
  assumes inj: "\<And>a b. f a = f b \<Longrightarrow> a = b" and len: "\<And>a. length (f a) = n" and "0 < n"
  shows "concat (map f xs) = concat (map f ys) \<longleftrightarrow> xs = ys"
proof
  assume "concat (map f xs) = concat (map f ys)"
  then show "xs = ys"
  proof (induction xs arbitrary: ys)
    case Nil
    have "f y \<noteq> []" for y using len [of y] assms(3) by auto
    with Nil show ?case by (cases ys) auto
  next
    case (Cons x xs)
    have "f x \<noteq> []" using len [of x] assms(3) by auto
    with Cons.prems obtain y zs where ys: "ys = y # zs" by (cases ys) auto
    with Cons.prems have "f x @ concat (map f xs) = f y @ concat (map f zs)" by simp
    then have "f x = f y" "concat (map f xs) = concat (map f zs)"
      using len by (simp_all add: append_eq_append_conv)
    with Cons.IH inj ys show ?case by blast
  qed
qed simp

definition to_hex :: "u8 list \<Rightarrow> string" where
  "to_hex bs = concat (map fmt_02x bs)"

lemma to_hex_inj: "to_hex xs = to_hex ys \<longleftrightarrow> xs = ys"
  unfolding to_hex_def
  by (rule concat_map_inj_fixed [of _ 2]) (simp_all add: fmt_02x_inj, simp add: fmt_02x_def)

lemma length_to_hex [simp]: "length (to_hex bs) = 2 * length bs"
  by (induction bs) (simp_all add: to_hex_def fmt_02x_def)

text \<open>Neither decimal nor hexadecimal digits contain a quote.\<close>

lemma char_of_neq_quote: "n < 256 \<Longrightarrow> n \<noteq> 34 \<Longrightarrow> char_of (n :: nat) \<noteq> CHR 0x22"
proof
  assume "n < 256" "n \<noteq> 34" "char_of n = CHR 0x22"
  then have "of_char (char_of n) = (of_char (CHR 0x22) :: nat)" by simp
  with \<open>n < 256\<close> \<open>n \<noteq> 34\<close> show False by simp
qed

lemma digit_char_not_quote: "n < 10 \<Longrightarrow> digit_char n \<noteq> CHR 0x22"
  by (simp add: digit_char_def char_of_neq_quote)

lemma hex_digit_not_quote: "n < 16 \<Longrightarrow> hex_digit n \<noteq> CHR 0x22"
  by (simp add: hex_digit_def char_of_neq_quote)

lemma to_hex_no_quote: "CHR 0x22 \<notin> set (to_hex bs)"
  by (auto simp: to_hex_def fmt_02x_def hex_digit_not_quote [symmetric])

lemma fmt_dec_digits: "c \<in> set (fmt_dec n) \<Longrightarrow> \<exists>d < 10. c = digit_char d"
proof (induction n rule: fmt_dec.induct)
  case (1 n)
  show ?case
  proof (cases "n < 10")
    case True
    with "1.prems" show ?thesis by (auto simp: fmt_dec.simps [of n])
  next
    case False
    then have "n mod 10 < 10" by simp
    with False "1.prems" "1.IH" show ?thesis
      by (fastforce simp: fmt_dec.simps [of n])
  qed
qed

lemma fmt_dec_nonempty [simp]: "fmt_dec n \<noteq> []"
  "[] \<noteq> fmt_dec n"
  by (simp_all add: fmt_dec.simps [of n])

lemma fmt_dec_inj: "fmt_dec m = fmt_dec n \<longleftrightarrow> m = n"
proof
  assume "fmt_dec m = fmt_dec n"
  then show "m = n"
  proof (induction m arbitrary: n rule: fmt_dec.induct)
    case (1 m)
    consider "m < 10" "n < 10" | "m < 10" "10 \<le> n" | "10 \<le> m" "n < 10" | "10 \<le> m" "10 \<le> n"
      by linarith
    then show ?case
    proof cases
      case 4
      have "m div 10 = n div 10" "m mod 10 = n mod 10"
        using "1.IH" "1.prems" 4
        by (simp_all add: fmt_dec.simps [of m] fmt_dec.simps [of n] digit_char_inj)
      then show ?thesis by (metis div_mult_mod_eq)
    qed (use "1.prems" in \<open>simp_all add: fmt_dec.simps [of m] fmt_dec.simps [of n] digit_char_inj\<close>)
  qed
qed simp

section \<open>Splitting formatted text at a delimiter\<close>

lemma append_delim_eq:
  "q \<notin> set xs \<Longrightarrow> q \<notin> set ys \<Longrightarrow> xs @ q # r = ys @ q # s \<longleftrightarrow> xs = ys \<and> r = s"
proof (induction xs arbitrary: ys)
  case Nil
  then show ?case by (cases ys) auto
next
  case (Cons x xs)
  then show ?case by (cases ys) auto
qed


section \<open>UTF-8 is the encoding of scalar values\<close>

text \<open>
  The reference: a Unicode scalar value is a code point outside the surrogates, and UTF-8
  encodes it in one to four bytes.
\<close>

definition is_scalar :: "nat \<Rightarrow> bool" where
  "is_scalar c \<longleftrightarrow> c < 0x110000 \<and> \<not> (0xD800 \<le> c \<and> c \<le> 0xDFFF)"

definition encode_scalar :: "nat \<Rightarrow> u8 list" where
  "encode_scalar c = map word_of_nat
     (if c < 0x80 then [c]
      else if c < 0x800 then [0xC0 + c div 64, 0x80 + c mod 64]
      else if c < 0x10000 then [0xE0 + c div 4096, 0x80 + c div 64 mod 64, 0x80 + c mod 64]
      else [0xF0 + c div 262144, 0x80 + c div 4096 mod 64, 0x80 + c div 64 mod 64, 0x80 + c mod 64])"

lemma is_cont_unat: "is_cont b \<longleftrightarrow> 128 \<le> unat b \<and> unat b \<le> 191"
  by (simp add: is_cont_def word_le_nat_alt)

lemma second_of_three_unat: "second_of_three a b \<longleftrightarrow>
     (unat a = 224 \<and> 160 \<le> unat b \<and> unat b \<le> 191) \<or>
     (225 \<le> unat a \<and> unat a \<le> 236 \<and> is_cont b) \<or>
     (unat a = 237 \<and> 128 \<le> unat b \<and> unat b \<le> 159) \<or>
     (238 \<le> unat a \<and> unat a \<le> 239 \<and> is_cont b)"
  by (simp add: second_of_three_def word_le_nat_alt word_unat_eq_iff)

lemma second_of_four_unat: "second_of_four a b \<longleftrightarrow>
     (unat a = 240 \<and> 144 \<le> unat b \<and> unat b \<le> 191) \<or>
     (241 \<le> unat a \<and> unat a \<le> 243 \<and> is_cont b) \<or>
     (unat a = 244 \<and> 128 \<le> unat b \<and> unat b \<le> 143)"
  by (simp add: second_of_four_def word_le_nat_alt word_unat_eq_iff)

lemmas utf8_unat = is_cont_unat second_of_three_unat second_of_four_unat
  word_le_nat_alt word_less_nat_alt

lemma unat_word_u8: "n < 256 \<Longrightarrow> unat (word_of_nat n :: u8) = n"
  by (simp add: unsigned_of_nat take_bit_nat_eq_self)

lemma map_word_of_nat_eq:
  "map word_of_nat ns = (bs :: u8 list)" if "map unat bs = ns"
  using that by (auto simp: comp_def map_idI)

lemma div_64_64: "(c :: nat) div 4096 = c div 64 div 64" "(c :: nat) div 262144 = c div 64 div 64 div 64"
  using div_mult2_eq [of c 64 64] div_mult2_eq [of c 4096 64] by simp_all

lemma digit_div: "z < 64 \<Longrightarrow> (q * 64 + z) div 64 = (q :: nat)"
  and digit_mod: "z < 64 \<Longrightarrow> (q * 64 + z) mod 64 = (z :: nat)"
  by simp_all

lemma encode_scalar_three:
  "0x800 \<le> c \<Longrightarrow> c < 0x10000 \<Longrightarrow>
   encode_scalar c = map word_of_nat [0xE0 + c div 4096, 0x80 + c div 64 mod 64, 0x80 + c mod 64]"
  by (simp add: encode_scalar_def)

lemma encode_scalar_four:
  "0x10000 \<le> c \<Longrightarrow> encode_scalar c =
   map word_of_nat [0xF0 + c div 262144, 0x80 + c div 4096 mod 64, 0x80 + c div 64 mod 64, 0x80 + c mod 64]"
  by (simp add: encode_scalar_def)

text \<open>The encoding, by the six-bit digits of the code point.\<close>

lemma encode_two:
  assumes "2 \<le> x" "x < 32" "y < 64"
  shows "encode_scalar (x * 64 + y) = map word_of_nat [192 + x, 128 + y]"
proof -
  have "0x80 \<le> x * 64 + y" "x * 64 + y < 0x800" using assms by simp_all
  then show ?thesis using assms(3) by (simp add: encode_scalar_def digit_div digit_mod)
qed

lemma encode_three:
  assumes "x < 16" "y < 64" "z < 64" "x = 0 \<longrightarrow> 32 \<le> y"
  shows "encode_scalar ((x * 64 + y) * 64 + z) = map word_of_nat [224 + x, 128 + y, 128 + z]"
proof -
  have "0x800 \<le> (x * 64 + y) * 64 + z" "(x * 64 + y) * 64 + z < 0x10000"
    using assms by (cases "x = 0"; simp)+
  from encode_scalar_three [OF this] show ?thesis
    by (simp only: div_64_64 digit_div [OF assms(3)] digit_mod [OF assms(3)]
      digit_div [OF assms(2)] digit_mod [OF assms(2)])
qed

lemma encode_four:
  assumes "x < 5" "y < 64" "z < 64" "w < 64" "x = 0 \<longrightarrow> 16 \<le> y"
  shows "encode_scalar (((x * 64 + y) * 64 + z) * 64 + w) =
    map word_of_nat [240 + x, 128 + y, 128 + z, 128 + w]"
proof -
  have "0x10000 \<le> ((x * 64 + y) * 64 + z) * 64 + w"
    using assms by (cases "x = 0"; simp)
  from encode_scalar_four [OF this] show ?thesis
    by (simp only: div_64_64 digit_div [OF assms(4)] digit_mod [OF assms(4)]
      digit_div [OF assms(3)] digit_mod [OF assms(3)] digit_div [OF assms(2)] digit_mod [OF assms(2)])
qed

text \<open>The validator's branches, by the same digits.\<close>

lemma utf8_one: "unat a < 128 \<Longrightarrow> utf8_valid (a # r) = utf8_valid r"
  by (simp add: utf8_unat)

lemma utf8_two:
  assumes "unat a = 192 + x" "2 \<le> x" "x < 32"
  shows "utf8_valid (a # b # r) \<longleftrightarrow> (\<exists>y < 64. unat b = 128 + y) \<and> utf8_valid r"
proof -
  have "is_cont b \<longleftrightarrow> (\<exists>y < 64. unat b = 128 + y)"
    unfolding is_cont_unat by presburger
  with assms show ?thesis by (simp add: word_le_nat_alt word_less_nat_alt)
qed

lemma second_of_three_digits:
  assumes "unat a = 224 + x" "x < 16"
  shows "second_of_three a b \<longleftrightarrow>
    (\<exists>y < 64. unat b = 128 + y \<and> (x = 0 \<longrightarrow> 32 \<le> y) \<and> (x = 13 \<longrightarrow> y < 32))"
  unfolding second_of_three_unat is_cont_unat assms(1) using assms(2) by presburger

lemma second_of_four_digits:
  assumes "unat a = 240 + x" "x < 5"
  shows "second_of_four a b \<longleftrightarrow>
    (\<exists>y < 64. unat b = 128 + y \<and> (x = 0 \<longrightarrow> 16 \<le> y) \<and> (x = 4 \<longrightarrow> y < 16))"
  unfolding second_of_four_unat is_cont_unat assms(1) using assms(2) by presburger

lemma is_cont_digit: "is_cont b \<longleftrightarrow> (\<exists>y < 64. unat b = 128 + y)"
  unfolding is_cont_unat by presburger

lemma utf8_three:
  assumes "unat a = 224 + x" "x < 16"
  shows "utf8_valid (a # b # d # r) \<longleftrightarrow> second_of_three a b \<and> is_cont d \<and> utf8_valid r"
  using assms by (simp add: word_le_nat_alt word_less_nat_alt)

lemma utf8_four:
  assumes "unat a = 240 + x" "x < 5"
  shows "utf8_valid (a # b # d # e # r) \<longleftrightarrow>
    second_of_four a b \<and> is_cont d \<and> is_cont e \<and> utf8_valid r"
  using assms by (simp add: word_le_nat_alt word_less_nat_alt)

text \<open>The scalar values of each encoded length, by digits.\<close>

lemma is_scalar_cases:
  assumes "is_scalar c"
  obtains (one) "c < 128"
  | (two) x y where "c = x * 64 + y" "2 \<le> x" "x < 32" "y < 64"
  | (three) x y z where "c = (x * 64 + y) * 64 + z" "x < 16" "y < 64" "z < 64"
      "x = 0 \<longrightarrow> 32 \<le> y" "x = 13 \<longrightarrow> y < 32"
  | (four) x y z w where "c = ((x * 64 + y) * 64 + z) * 64 + w" "x < 5" "y < 64" "z < 64" "w < 64"
      "x = 0 \<longrightarrow> 16 \<le> y" "x = 4 \<longrightarrow> y < 16"
proof -
  define w where "w = c mod 64"
  define z where "z = c div 64 mod 64"
  define y where "y = c div 64 div 64 mod 64"
  define x where "x = c div 64 div 64 div 64"
  have b: "w < 64" "z < 64" "y < 64" by (simp_all add: w_def z_def y_def)
  have c: "c = ((x * 64 + y) * 64 + z) * 64 + w"
    unfolding w_def z_def y_def x_def div_mult_mod_eq ..
  have lt: "c < 1114112" and s: "\<not> (55296 \<le> c \<and> c \<le> 57343)"
    using assms by (simp_all add: is_scalar_def)
  have x: "x < 5" using lt c by simp
  consider "c < 128" | "128 \<le> c" "c < 2048" | "2048 \<le> c" "c < 65536" | "65536 \<le> c" by linarith
  then show thesis
  proof cases
    case 1
    then show thesis by (rule one)
  next
    case 2
    then have "x = 0" "y = 0" using c by simp_all
    with 2 c show thesis by (intro two [of z w]) (use b in simp_all)
  next
    case 3
    then have "x = 0" using c by simp
    moreover have "z < 32" if "y = 13"
      by (rule ccontr) (use that s c b \<open>x = 0\<close> in simp)
    ultimately show thesis using 3 c b by (intro three [of y z w]) simp_all
  next
    case 4
    with c lt b x show thesis by (intro four [of x y z w]) simp_all
  qed
qed

lemma utf8_valid_encode:
  assumes "is_scalar c"
  shows "utf8_valid (encode_scalar c @ r) = utf8_valid r"
  using assms
proof (cases rule: is_scalar_cases)
  case one
  then show ?thesis by (simp add: encode_scalar_def utf8_one unat_word_u8 del: utf8_valid.simps)
next
  case (two x y)
  then show ?thesis
    by (simp add: encode_two utf8_two [of _ x] unat_word_u8 del: utf8_valid.simps of_nat_add)
next
  case (three x y z)
  have "second_of_three (word_of_nat (224 + x)) (word_of_nat (128 + y))"
    by (subst second_of_three_digits [of _ x]) (use three in \<open>simp_all add: unat_word_u8 del: of_nat_add\<close>)
  with three(2-) show ?thesis
    unfolding three(1) encode_three [OF three(2-5)]
    by (simp add: utf8_three [of _ x] unat_word_u8 is_cont_digit del: utf8_valid.simps of_nat_add)
next
  case (four x y z w)
  have "second_of_four (word_of_nat (240 + x)) (word_of_nat (128 + y))"
    by (subst second_of_four_digits [of _ x]) (use four in \<open>simp_all add: unat_word_u8 del: of_nat_add\<close>)
  with four(2-) show ?thesis
    unfolding four(1) encode_four [OF four(2-6)]
    by (simp add: utf8_four [of _ x] unat_word_u8 is_cont_digit del: utf8_valid.simps of_nat_add)
qed

lemma utf8_first_two:
  assumes "194 \<le> unat a" "unat a \<le> 223" "is_cont b"
  shows "\<exists>c. is_scalar c \<and> encode_scalar c = [a, b]"
proof -
  obtain x where x: "unat a = 192 + x" "2 \<le> x" "x < 32"
    using assms(1,2) that [of "unat a - 192"] by simp
  obtain y where y: "unat b = 128 + y" "y < 64" using assms(3) by (auto simp: is_cont_digit)
  have "is_scalar (x * 64 + y)" using x y by (simp add: is_scalar_def)
  moreover have "encode_scalar (x * 64 + y) = [a, b]"
    unfolding encode_two [OF x(2,3) y(2)] by (rule map_word_of_nat_eq) (simp add: x y)
  ultimately show ?thesis by blast
qed

lemma utf8_first_three:
  assumes "224 \<le> unat a" "unat a \<le> 239" "second_of_three a b" "is_cont d"
  shows "\<exists>c. is_scalar c \<and> encode_scalar c = [a, b, d]"
proof -
  obtain x where x: "unat a = 224 + x" "x < 16"
    using assms(1,2) that [of "unat a - 224"] by simp
  obtain y where y: "unat b = 128 + y" "y < 64" "x = 0 \<longrightarrow> 32 \<le> y" "x = 13 \<longrightarrow> y < 32"
    using assms(3) by (auto simp: second_of_three_digits [OF x])
  obtain z where z: "unat d = 128 + z" "z < 64" using assms(4) by (auto simp: is_cont_digit)
  have "is_scalar ((x * 64 + y) * 64 + z)"
    using x y z by (cases "x \<le> 12"; cases "x = 13") (simp_all add: is_scalar_def)
  moreover have "encode_scalar ((x * 64 + y) * 64 + z) = [a, b, d]"
    unfolding encode_three [OF x(2) y(2) z(2) y(3)] by (rule map_word_of_nat_eq) (simp add: x y z)
  ultimately show ?thesis by blast
qed

lemma utf8_first_four:
  assumes "240 \<le> unat a" "unat a \<le> 244" "second_of_four a b" "is_cont d" "is_cont e"
  shows "\<exists>c. is_scalar c \<and> encode_scalar c = [a, b, d, e]"
proof -
  obtain x where x: "unat a = 240 + x" "x < 5"
    using assms(1,2) that [of "unat a - 240"] by simp
  obtain y where y: "unat b = 128 + y" "y < 64" "x = 0 \<longrightarrow> 16 \<le> y" "x = 4 \<longrightarrow> y < 16"
    using assms(3) by (auto simp: second_of_four_digits [OF x])
  obtain z where z: "unat d = 128 + z" "z < 64" using assms(4) by (auto simp: is_cont_digit)
  obtain w where w: "unat e = 128 + w" "w < 64" using assms(5) by (auto simp: is_cont_digit)
  have "is_scalar (((x * 64 + y) * 64 + z) * 64 + w)"
    using x y z w by (cases "x = 0"; cases "x = 4") (simp_all add: is_scalar_def)
  moreover have "encode_scalar (((x * 64 + y) * 64 + z) * 64 + w) = [a, b, d, e]"
    unfolding encode_four [OF x(2) y(2) z(2) w(2) y(3)] by (rule map_word_of_nat_eq) (simp add: x y z w)
  ultimately show ?thesis by blast
qed

lemma utf8_valid_first:
  assumes "utf8_valid bs" "bs \<noteq> []"
  shows "\<exists>c r. is_scalar c \<and> bs = encode_scalar c @ r \<and> utf8_valid r"
proof -
  obtain a bs' where bs: "bs = a # bs'" using assms(2) by (cases bs) auto
  consider (one) "unat a < 128" "utf8_valid bs'"
    | (two) b r where "194 \<le> unat a" "unat a \<le> 223" "bs' = b # r" "is_cont b" "utf8_valid r"
    | (three) b d r where "224 \<le> unat a" "unat a \<le> 239" "bs' = b # d # r" "second_of_three a b"
        "is_cont d" "utf8_valid r"
    | (four) b d e r where "240 \<le> unat a" "unat a \<le> 244" "bs' = b # d # e # r" "second_of_four a b"
        "is_cont d" "is_cont e" "utf8_valid r"
    using assms(1) unfolding bs
    by (auto simp: word_le_nat_alt word_less_nat_alt split: if_splits list.splits)
  then show ?thesis
  proof cases
    case one
    then have "is_scalar (unat a)" "encode_scalar (unat a) = [a]"
      by (simp_all add: is_scalar_def encode_scalar_def)
    with one(2) show ?thesis unfolding bs by (metis append_Cons append_Nil)
  next
    case two
    with utf8_first_two [OF two(1,2,4)] show ?thesis unfolding bs by (metis append_Cons append_Nil)
  next
    case three
    with utf8_first_three [OF three(1,2,4,5)] show ?thesis unfolding bs by (metis append_Cons append_Nil)
  next
    case four
    with utf8_first_four [OF four(1,2,4-6)] show ?thesis unfolding bs by (metis append_Cons append_Nil)
  qed
qed

lemma encode_scalar_nonempty [simp]: "encode_scalar c \<noteq> []"
  by (simp add: encode_scalar_def)

text \<open>The validator accepts exactly the encodings of sequences of scalar values.\<close>

lemma utf8_valid_iff:
  "utf8_valid bs \<longleftrightarrow> (\<exists>cs. (\<forall>c \<in> set cs. is_scalar c) \<and> bs = concat (map encode_scalar cs))"
proof
  show "\<exists>cs. (\<forall>c \<in> set cs. is_scalar c) \<and> bs = concat (map encode_scalar cs)" if "utf8_valid bs"
    using that
  proof (induction bs rule: length_induct)
    case (1 bs)
    show ?case
    proof (cases "bs = []")
      case True
      then show ?thesis by (intro exI [of _ "[]"]) simp
    next
      case False
      then obtain c r where c: "is_scalar c" "bs = encode_scalar c @ r" "utf8_valid r"
        using utf8_valid_first "1.prems" by blast
      then have "length r < length bs" by simp
      with "1.IH" c(3) obtain cs where "\<forall>c \<in> set cs. is_scalar c" "r = concat (map encode_scalar cs)"
        by blast
      with c show ?thesis by (intro exI [of _ "c # cs"]) simp
    qed
  qed
next
  assume "\<exists>cs. (\<forall>c \<in> set cs. is_scalar c) \<and> bs = concat (map encode_scalar cs)"
  then obtain cs where "\<forall>c \<in> set cs. is_scalar c" "bs = concat (map encode_scalar cs)" by blast
  then show "utf8_valid bs"
    by (induction cs arbitrary: bs) (simp_all add: utf8_valid_encode)
qed

end
