(* ===== verification/Compression.thy ===== *)
theory Compression
  imports Rust_Strings
begin

text \<open>
  \<open>shardus_net/src/compression.rs\<close>: the compression scheme a header names, its wire number,
  and the dispatch to the gzip and brotli libraries.  The two libraries are parameters, the
  record \<open>codecs\<close>; an \<open>io::Result\<close> of theirs is an option, \<open>None\<close> the error.
\<close>

datatype Compression = NoCompression | Gzip | Brotli

definition compression_default :: Compression where
  "compression_default = NoCompression"

text \<open>The variant names by which the derived \<open>Deserialize\<close> reads a scheme from JSON.\<close>

definition compression_from_name :: "string \<Rightarrow> Compression option" where
  "compression_from_name s =
     (if s = ''None'' then Some NoCompression
      else if s = ''Gzip'' then Some Gzip
      else if s = ''Brotli'' then Some Brotli
      else None)"

definition compression_from_u32 :: "u32 \<Rightarrow> Compression option" where
  "compression_from_u32 val =
     (if val = 0 then Some NoCompression
      else if val = 1 then Some Gzip
      else if val = 2 then Some Brotli
      else None)"

fun compression_to_u32 :: "Compression \<Rightarrow> u32" where
  "compression_to_u32 NoCompression = 0"
| "compression_to_u32 Gzip = 1"
| "compression_to_u32 Brotli = 2"

text \<open>
  The libraries: \<open>GzEncoder\<close> at the default level, \<open>GzDecoder\<close>, \<open>CompressorReader\<close> with its
  buffer size, quality and window, and \<open>Decompressor\<close> with its buffer size.
\<close>

record codecs =
  gz_encode :: "u8 list \<Rightarrow> u8 list option"
  gz_decode :: "u8 list \<Rightarrow> u8 list option"
  br_encode :: "nat \<Rightarrow> nat \<Rightarrow> nat \<Rightarrow> u8 list \<Rightarrow> u8 list option"
  br_decode :: "nat \<Rightarrow> u8 list \<Rightarrow> u8 list option"

definition unwrap_msg :: string where
  "unwrap_msg = ''called Result::unwrap() on an Err value''"

fun compress :: "codecs \<Rightarrow> Compression \<Rightarrow> u8 list \<Rightarrow> u8 list may_panic" where
  "compress K NoCompression data = Inr data"
| "compress K Gzip data = expect unwrap_msg (gz_encode K data)"
| "compress K Brotli data = expect unwrap_msg (br_encode K 4096 5 22 data)"

fun decompress :: "codecs \<Rightarrow> Compression \<Rightarrow> u8 list \<Rightarrow> u8 list option" where
  "decompress K NoCompression data = Some data"
| "decompress K Gzip data = gz_decode K data"
| "decompress K Brotli data = br_decode K 4096 data"

text \<open>
  What the two libraries document: in memory encoding does not fail, and decoding gives the
  encoded data back.
\<close>

definition codecs_lawful :: "codecs \<Rightarrow> bool" where
  "codecs_lawful K \<longleftrightarrow>
     (\<forall>d. \<exists>e. gz_encode K d = Some e \<and> gz_decode K e = Some d) \<and>
     (\<forall>d. \<exists>e. br_encode K 4096 5 22 d = Some e \<and> br_decode K 4096 e = Some d)"

section \<open>The wire number\<close>

lemma compression_from_to_u32 [simp, codec_simps]:
  "compression_from_u32 (compression_to_u32 c) = Some c"
  by (cases c) (simp_all add: compression_from_u32_def)

lemma compression_from_u32_eq_Some:
  "compression_from_u32 w = Some c \<longleftrightarrow> w = compression_to_u32 c"
  by (cases c) (auto simp: compression_from_u32_def)

lemma compression_from_u32_eq_None: "compression_from_u32 w = None \<longleftrightarrow> 2 < w"
proof -
  have "w = 0 \<longleftrightarrow> unat w = 0" "w = 1 \<longleftrightarrow> unat w = 1" "w = 2 \<longleftrightarrow> unat w = 2"
    by (simp_all add: word_unat_eq_iff)
  moreover have "2 < w \<longleftrightarrow> 2 < unat w" by (simp add: word_less_nat_alt)
  ultimately show ?thesis by (auto simp: compression_from_u32_def)
qed

section \<open>A small instance of the libraries\<close>

text \<open>Codecs that mark their output with a byte, and reject what does not carry it.\<close>

definition sample_codecs :: codecs where
  "sample_codecs =
     \<lparr>gz_encode = (\<lambda>d. Some (31 # d)),
      gz_decode = (\<lambda>e. case e of [] \<Rightarrow> None | b # d \<Rightarrow> if b = 31 then Some d else None),
      br_encode = (\<lambda>_ _ _ d. Some (11 # d)),
      br_decode = (\<lambda>_ e. case e of [] \<Rightarrow> None | b # d \<Rightarrow> if b = 11 then Some d else None)\<rparr>"

lemma sample_codecs_lawful: "codecs_lawful sample_codecs"
  by (simp add: codecs_lawful_def sample_codecs_def)

section \<open>Properties\<close>

text \<open>
  With libraries that keep their documentation, every scheme takes back what it
  compressed, without a panic and without an error; and the wire number of a scheme names it
  and no other.
\<close>

theorem compress_roundtrip:
  assumes "codecs_lawful K"
  shows "(\<exists>e. compress K c d = Inr e \<and> decompress K c e = Some d) \<and>
    (compression_from_u32 w = Some c \<longleftrightarrow> w = compression_to_u32 c)"
proof (cases c)
  case NoCompression
  then show ?thesis by (simp add: compression_from_u32_eq_Some)
next
  case Gzip
  obtain e where "gz_encode K d = Some e" "gz_decode K e = Some d"
    using assms by (auto simp: codecs_lawful_def)
  with Gzip show ?thesis by (simp add: compression_from_u32_eq_Some)
next
  case Brotli
  obtain e where "br_encode K 4096 5 22 d = Some e" "br_decode K 4096 e = Some d"
    using assms unfolding codecs_lawful_def by blast
  with Brotli show ?thesis by (simp add: compression_from_u32_eq_Some)
qed

theorem compress_roundtrip_witness:
  "\<exists>e. compress sample_codecs Gzip [1, 2, 3] = Inr e \<and> decompress sample_codecs Gzip e = Some [1, 2, 3]"
  using compress_roundtrip [OF sample_codecs_lawful, of Gzip "[1, 2, 3]" 1] by simp

end
