(* ===== verification/Header.thy ===== *)
theory Header
  imports Compression
begin

text \<open>
  \<open>shardus_net/src/header/header_v1.rs\<close>, \<open>header_types.rs\<close> and \<open>header_factory.rs\<close>: the
  version 1 header with its binary and JSON forms, the version-indexed \<open>Header\<close>, and the
  factories that dispatch on the version byte.  A \<open>Uuid\<close> is its sixteen bytes; its
  \<open>Display\<close> and the JSON reader of serde are parameters.
\<close>

section \<open>Version 1 headers\<close>

record HeaderV1 =
  uuid :: "u8 list"
  message_length :: u32
  sender_id :: string
  tracker_id :: string
  verification_data :: string
  compression :: Compression

definition header_v1_serialize :: "HeaderV1 \<Rightarrow> u8 list" where
  "header_v1_serialize h =
     (let sender_id_bytes = into_bytes (sender_id h);
          sender_id_len = as_u32 (length sender_id_bytes);
          tracker_id_bytes = into_bytes (tracker_id h);
          tracker_id_len = as_u32 (length tracker_id_bytes);
          verification_data_bytes = into_bytes (verification_data h);
          verification_data_len = as_u32 (length verification_data_bytes)
      in uuid h @
         u32_to_le_bytes (message_length h) @
         u32_to_le_bytes sender_id_len @ sender_id_bytes @
         u32_to_le_bytes tracker_id_len @ tracker_id_bytes @
         u32_to_le_bytes verification_data_len @ verification_data_bytes @
         u32_to_le_bytes (compression_to_u32 (compression h)))"

definition header_v1_deserialize :: "cursor \<Rightarrow> (HeaderV1 \<times> cursor) option" where
  "header_v1_deserialize c = do {
     (uuid_bytes, c) \<leftarrow> read_exact 16 c;
     (message_length_bytes, c) \<leftarrow> read_exact 4 c;
     (sender_id_len_bytes, c) \<leftarrow> read_exact 4 c;
     (sender_id_bytes, c) \<leftarrow> read_exact (unat (u32_from_le_bytes sender_id_len_bytes)) c;
     sender \<leftarrow> from_utf8 sender_id_bytes;
     (tracker_id_len_bytes, c) \<leftarrow> read_exact 4 c;
     (tracker_id_bytes, c) \<leftarrow> read_exact (unat (u32_from_le_bytes tracker_id_len_bytes)) c;
     tracker \<leftarrow> from_utf8 tracker_id_bytes;
     (verification_data_len_bytes, c) \<leftarrow> read_exact 4 c;
     (verification_data_bytes, c) \<leftarrow>
        read_exact (unat (u32_from_le_bytes verification_data_len_bytes)) c;
     verification \<leftarrow> from_utf8 verification_data_bytes;
     (compression_bytes, c) \<leftarrow> read_exact 4 c;
     scheme \<leftarrow> compression_from_u32 (u32_from_le_bytes compression_bytes);
     Some (\<lparr>uuid = uuid_bytes, message_length = u32_from_le_bytes message_length_bytes,
            sender_id = sender, tracker_id = tracker, verification_data = verification,
            compression = scheme\<rparr>, c) }"

text \<open>
  What serde reads from a JSON object: the fields that are present, each of its type, and the
  variant name of the scheme.  The attributes of the struct fill in the rest: \<open>uuid\<close> is
  required, every other field has a default.
\<close>

record HeaderFields =
  f_uuid :: "u8 list option"
  f_message_length :: "u32 option"
  f_sender_id :: "string option"
  f_tracker_id :: "string option"
  f_verification_data :: "string option"
  f_compression :: "string option"

definition or_default :: "'a \<Rightarrow> 'a option \<Rightarrow> 'a" where
  "or_default d x = (case x of None \<Rightarrow> d | Some v \<Rightarrow> v)"

definition header_v1_of_fields :: "HeaderFields \<Rightarrow> HeaderV1 option" where
  "header_v1_of_fields f = do {
     u \<leftarrow> f_uuid f;
     scheme \<leftarrow> (case f_compression f of
                None \<Rightarrow> Some compression_default
              | Some name \<Rightarrow> compression_from_name name);
     Some \<lparr>uuid = u,
           message_length = or_default 0 (f_message_length f),
           sender_id = or_default [] (f_sender_id f),
           tracker_id = or_default [] (f_tracker_id f),
           verification_data = or_default [] (f_verification_data f),
           compression = scheme\<rparr> }"

definition header_v1_from_json_string ::
    "(string \<Rightarrow> HeaderFields option) \<Rightarrow> string \<Rightarrow> HeaderV1 option" where
  "header_v1_from_json_string serde_from_str json_str =
     Option.bind (serde_from_str json_str) header_v1_of_fields"

definition header_v1_to_json_string :: "(u8 list \<Rightarrow> string) \<Rightarrow> HeaderV1 \<Rightarrow> string" where
  \<open>header_v1_to_json_string uuid_fmt h =
     ''{"uuid": "'' @ uuid_fmt (uuid h) @
     ''", "message_length": '' @ fmt_dec (unat (message_length h)) @
     '', "sender_id": "'' @ sender_id h @
     ''", "tracker_id": "'' @ tracker_id h @
     ''", "verification_data": "'' @ verification_data h @ ''"}''\<close>

definition header_v1_validate :: "HeaderV1 \<Rightarrow> u8 list \<Rightarrow> bool" where
  "header_v1_validate h message =
     (if length message \<noteq> unat (message_length h) then False else True)"

section \<open>Headers of any version\<close>

datatype Header = V1 HeaderV1

record RequestMetadata =
  rm_version :: u8
  rm_header_json_string :: string
  rm_sign_json_string :: string

text \<open>\<open>ENABLE_COMPRESSION\<close> of \<open>lib.rs\<close>; the two operations below consult it.\<close>

definition ENABLE_COMPRESSION :: bool where
  "ENABLE_COMPRESSION = False"

fun header_to_json_string :: "(u8 list \<Rightarrow> string) \<Rightarrow> Header \<Rightarrow> string" where
  "header_to_json_string uuid_fmt (V1 h) = header_v1_to_json_string uuid_fmt h"

fun header_validate :: "Header \<Rightarrow> u8 list \<Rightarrow> bool" where
  "header_validate (V1 h) message = header_v1_validate h message"

fun header_set_message_length :: "u32 \<Rightarrow> Header \<Rightarrow> Header" where
  "header_set_message_length n (V1 h) = V1 (h\<lparr>message_length := n\<rparr>)"

fun header_set_compression :: "Compression \<Rightarrow> Header \<Rightarrow> Header" where
  "header_set_compression scheme (V1 h) = V1 (h\<lparr>compression := scheme\<rparr>)"

definition header_compress :: "codecs \<Rightarrow> Header \<Rightarrow> u8 list \<Rightarrow> u8 list may_panic" where
  "header_compress K hdr message =
     (if \<not> ENABLE_COMPRESSION then Inr message
      else case hdr of V1 h \<Rightarrow> compress K (compression h) message)"

definition header_decompress :: "codecs \<Rightarrow> Header \<Rightarrow> u8 list \<Rightarrow> u8 list option" where
  "header_decompress K hdr message =
     (if \<not> ENABLE_COMPRESSION then Some message
      else case hdr of V1 h \<Rightarrow> decompress K (compression h) message)"

section \<open>Factories\<close>

definition wrap_serialized_message :: "u8 list \<Rightarrow> u8 list" where
  "wrap_serialized_message serialized_message = [1] @ serialized_message"

definition header_deserialize_factory :: "u8 \<Rightarrow> cursor \<Rightarrow> (Header \<times> cursor) option" where
  "header_deserialize_factory version c =
     (if version = 1 then do {
        (deserialized, c) \<leftarrow> header_v1_deserialize c;
        Some (V1 deserialized, c) }
      else None)"

definition header_serialize_factory :: "u8 \<Rightarrow> Header \<Rightarrow> u8 list option" where
  "header_serialize_factory hv hdr =
     (if hv = 1 then (case hdr of V1 h \<Rightarrow> Some (header_v1_serialize h)) else None)"

definition header_from_json_string ::
    "(string \<Rightarrow> HeaderFields option) \<Rightarrow> string \<Rightarrow> u8 \<Rightarrow> Header option" where
  "header_from_json_string serde_from_str json_str version =
     (if version = 1 then map_option V1 (header_v1_from_json_string serde_from_str json_str)
      else None)"

section \<open>The wire codec\<close>

text \<open>The invariants of the field types, and lengths below 4 GiB.\<close>

definition text_ok :: "string \<Rightarrow> bool" where
  "text_ok s \<longleftrightarrow> string_ok s \<and> blob_ok (into_bytes s)"

definition header_v1_ok :: "HeaderV1 \<Rightarrow> bool" where
  "header_v1_ok h \<longleftrightarrow> length (uuid h) = 16 \<and>
     text_ok (sender_id h) \<and> text_ok (tracker_id h) \<and> text_ok (verification_data h)"

fun header_ok :: "Header \<Rightarrow> bool" where
  "header_ok (V1 h) = header_v1_ok h"

text \<open>A text field on the wire: a length-prefixed byte string that is valid UTF-8.\<close>

definition dec_text :: "cursor \<Rightarrow> (string \<times> cursor) option" where
  "dec_text c = do {
     (bs, c) \<leftarrow> dec_blob c;
     s \<leftarrow> from_utf8 bs;
     Some (s, c) }"

interpretation text_wire: wire_codec "\<lambda>s. enc_blob (into_bytes s)" dec_text text_ok
proof unfold_locales
  show "dec_text (cursor_at p (enc_blob (into_bytes x) @ r)) =
      Some (x, cursor_at (p @ enc_blob (into_bytes x)) r)" if "text_ok x" for x p r
    using that by (simp add: dec_text_def text_ok_def codec_simps)
next
  show "text_ok x \<and> (\<exists>r. s = enc_blob (into_bytes x) @ r \<and>
      c' = cursor_at (p @ enc_blob (into_bytes x)) r)"
    if "dec_text (cursor_at p s) = Some (x, c')" for p s x c'
    using that
    by (auto simp: dec_text_def text_ok_def bind_eq_Some_conv blob.dec_iff from_utf8_eq_Some)
qed

lemmas text_codec [codec_simps] = text_wire.dec_enc text_wire.dec_new text_wire.dec_new_exact

lemma header_v1_serialize_fields:
  "header_v1_serialize h = uuid h @ u32_to_le_bytes (message_length h) @
     enc_blob (into_bytes (sender_id h)) @ enc_blob (into_bytes (tracker_id h)) @
     enc_blob (into_bytes (verification_data h)) @
     u32_to_le_bytes (compression_to_u32 (compression h))"
  by (simp add: header_v1_serialize_def enc_blob_def)

lemma text_bind: "Option.bind (dec_blob c) (\<lambda>(bs, c). Option.bind (from_utf8 bs) (\<lambda>s. f s c)) =
    Option.bind (dec_text c) (\<lambda>(s, c). f s c)"
  by (cases "dec_blob c") (auto simp: dec_text_def bind_assoc)

lemma header_v1_deserialize_fields:
  "header_v1_deserialize c = do {
     (u, c) \<leftarrow> read_exact 16 c;
     (len, c) \<leftarrow> dec_u32 c;
     (sender, c) \<leftarrow> dec_text c;
     (tracker, c) \<leftarrow> dec_text c;
     (verification, c) \<leftarrow> dec_text c;
     (w, c) \<leftarrow> dec_u32 c;
     scheme \<leftarrow> compression_from_u32 w;
     Some (\<lparr>uuid = u, message_length = len, sender_id = sender, tracker_id = tracker,
            verification_data = verification, compression = scheme\<rparr>, c) }"
  unfolding header_v1_deserialize_def dec_blob_bind text_bind dec_u32_bind [symmetric] ..

interpretation header_wire: wire_codec header_v1_serialize header_v1_deserialize header_v1_ok
proof unfold_locales
  fix x :: HeaderV1 and p r
  assume ok: "header_v1_ok x"
  have last_word: "dec_u32 (cursor_at q (u32_to_le_bytes w @ r)) =
      Some (w, cursor_at (q @ u32_to_le_bytes w) r)" for q w r
    by (rule le32.dec_enc) simp
  show "header_v1_deserialize (cursor_at p (header_v1_serialize x @ r)) =
      Some (x, cursor_at (p @ header_v1_serialize x) r)"
    using ok by (simp add: header_v1_deserialize_fields header_v1_serialize_fields header_v1_ok_def
        codec_simps last_word)
next
  fix p s x c'
  assume "header_v1_deserialize (cursor_at p s) = Some (x, c')"
  then obtain u c1 len c2 sender c3 tracker c4 verification c5 w scheme
    where 1: "read_exact 16 (cursor_at p s) = Some (u, c1)"
      and 2: "dec_u32 c1 = Some (len, c2)" and 3: "dec_text c2 = Some (sender, c3)"
      and 4: "dec_text c3 = Some (tracker, c4)" and 5: "dec_text c4 = Some (verification, c5)"
      and 6: "dec_u32 c5 = Some (w, c')" and 7: "w = compression_to_u32 scheme"
      and x: "x = \<lparr>uuid = u, message_length = len, sender_id = sender, tracker_id = tracker,
            verification_data = verification, compression = scheme\<rparr>"
    by (auto simp: header_v1_deserialize_fields bind_eq_Some_conv compression_from_u32_eq_Some)
  from 1 obtain r1 where r1: "s = u @ r1" "length u = 16" "c1 = cursor_at (p @ u) r1"
    by (rule read_exact_sound)
  from 2 3 4 5 6 show "header_v1_ok x \<and>
      (\<exists>r. s = header_v1_serialize x @ r \<and> c' = cursor_at (p @ header_v1_serialize x) r)"
    using r1 7 x
    by (auto simp: header_v1_ok_def header_v1_serialize_fields le32.dec_iff text_wire.dec_iff)
qed

lemmas header_codec [codec_simps] =
  header_wire.dec_enc header_wire.dec_new header_wire.dec_new_exact

lemma length_header_v1_serialize:
  "length (header_v1_serialize h) =
     length (uuid h) + 20 + length (sender_id h) + length (tracker_id h) + length (verification_data h)"
  by (simp add: header_v1_serialize_fields)

section \<open>Lemmas on the factories\<close>

lemma header_serialize_factory_eq_Some:
  "header_serialize_factory v hdr = Some bs \<longleftrightarrow>
     v = 1 \<and> (\<exists>h. hdr = V1 h \<and> bs = header_v1_serialize h)"
  by (cases hdr) (auto simp: header_serialize_factory_def)

lemma header_deserialize_factory_eq_Some:
  "header_deserialize_factory v c = Some (hdr, c') \<longleftrightarrow>
     v = 1 \<and> (\<exists>h. hdr = V1 h \<and> header_v1_deserialize c = Some (h, c'))"
  by (auto simp: header_deserialize_factory_def bind_eq_Some_conv)

lemma header_factory_roundtrip:
  assumes "header_ok hdr" "header_serialize_factory v hdr = Some bs"
  shows "header_deserialize_factory v (cursor_new bs) = Some (hdr, cursor_at bs [])"
  using assms by (auto simp: header_serialize_factory_eq_Some header_deserialize_factory_eq_Some
      codec_simps)

lemma header_compress_disabled [simp]:
  "header_compress K hdr m = Inr m" "header_decompress K hdr m = Some m"
  by (simp_all add: header_compress_def header_decompress_def ENABLE_COMPRESSION_def)

lemma header_ok_set_message_length [simp]:
  "header_ok (header_set_message_length n hdr) = header_ok hdr"
  by (cases hdr) (simp add: header_v1_ok_def)

lemma header_validate_set_message_length:
  "header_validate (header_set_message_length (as_u32 (length msg)) hdr) msg \<longleftrightarrow>
     length msg < 2 ^ 32"
  by (cases hdr) (auto simp: header_v1_validate_def unat_as_u32_mod mod_eq_nat1E
      simp del: unat_as_u32 intro!: mod_less dest: sym)

lemma header_v1_of_fields_eq_Some:
  "header_v1_of_fields f = Some h \<longleftrightarrow>
     f_uuid f = Some (uuid h) \<and>
     (case f_compression f of None \<Rightarrow> compression h = NoCompression
      | Some name \<Rightarrow> compression_from_name name = Some (compression h)) \<and>
     message_length h = or_default 0 (f_message_length f) \<and>
     sender_id h = or_default [] (f_sender_id f) \<and>
     tracker_id h = or_default [] (f_tracker_id f) \<and>
     verification_data h = or_default [] (f_verification_data f)"
  by (cases h) (auto simp: header_v1_of_fields_def compression_default_def bind_eq_Some_conv
      split: option.splits)

section \<open>The header as JSON\<close>

text \<open>The text fields hold no quotation mark, so each ends at the first one after it.\<close>

definition quote_free :: "HeaderV1 \<Rightarrow> bool" where
  "quote_free h \<longleftrightarrow> CHR 0x22 \<notin> set (sender_id h) \<and> CHR 0x22 \<notin> set (tracker_id h) \<and>
     CHR 0x22 \<notin> set (verification_data h)"

text \<open>
  A header to evaluate the model with.  For the text form of a uuid, lower-case hexadecimal
  stands in: it is injective and has no quotation mark, as the hyphenated form has.
\<close>

definition sample_header :: HeaderV1 where
  "sample_header =
     \<lparr>uuid = replicate 16 5, message_length = 0, sender_id = ''me'', tracker_id = ''t1'',
      verification_data = [], compression = Gzip\<rparr>"

lemma sample_header_ok: "header_v1_ok sample_header"
  by (simp add: header_v1_ok_def sample_header_def text_ok_def string_ok_def blob_ok_def byte_of_def)

section \<open>Properties\<close>

text \<open>
  C17. The wire format of version 1 headers is exact: the decoder accepts a header at the cursor
  if and only if its uuid has sixteen bytes, its texts are UTF-8 and fit their length fields,
  and the bytes there start with its encoding; it stops right behind it.
\<close>

theorem header_decoder_exact:
  "header_v1_deserialize (cursor_at p s) = Some (h, c') \<longleftrightarrow>
     header_v1_ok h \<and>
     (\<exists>r. s = header_v1_serialize h @ r \<and> c' = cursor_at (p @ header_v1_serialize h) r)"
  by (rule header_wire.dec_iff)

text \<open>
  The version byte selects the codec: version 1 reads back what version 1 wrote, and no
  other version writes, reads or parses a header.
\<close>

theorem factories_agree_on_version:
  assumes "header_ok hdr"
  shows "(v = 1 \<longrightarrow> (\<exists>bs. header_serialize_factory v hdr = Some bs \<and>
      header_deserialize_factory v (cursor_new (bs @ extra)) = Some (hdr, cursor_at bs extra))) \<and>
    (v \<noteq> 1 \<longrightarrow> header_serialize_factory v hdr = None \<and> header_deserialize_factory v c = None \<and>
      header_from_json_string serde_from_str s v = None)"
proof (cases hdr)
  case (V1 h)
  then have "header_v1_ok h" using assms by simp
  from header_wire.dec_new [OF this] V1 show ?thesis
    by (simp add: header_serialize_factory_def header_deserialize_factory_def
        header_from_json_string_def)
qed

theorem factories_agree_on_version_witness:
  "\<exists>bs. header_serialize_factory 1 (V1 sample_header) = Some bs \<and>
     header_deserialize_factory 1 (cursor_new (bs @ [0])) = Some (V1 sample_header, cursor_at bs [0])"
proof -
  have "header_ok (V1 sample_header)" by (simp add: sample_header_ok)
  from factories_agree_on_version [OF this] show ?thesis by blast
qed

text \<open>
  The length check is exact: once the sender has stored the length of a message in its
  header, the receiver accepts the messages of that length and no others; a message of 4 GiB or
  more, whose length does not fit the field, is refused.
\<close>

theorem stored_length_validates:
  "header_validate (header_set_message_length (as_u32 (length msg)) hdr) received \<longleftrightarrow>
     length received = length msg mod 2 ^ 32"
  by (cases hdr) (simp add: header_v1_validate_def unat_as_u32_mod del: unat_as_u32)

text \<open>
  What a header read from JSON holds, whatever JSON reader is used: the version must be 1
  and the uuid present; a scheme that is named must be one of the three; every field that is
  absent gets its default.
\<close>

theorem header_from_json_fields:
  "header_from_json_string serde_from_str s v = Some (V1 h) \<longleftrightarrow>
     v = 1 \<and> (\<exists>f. serde_from_str s = Some f \<and> f_uuid f = Some (uuid h) \<and>
       (case f_compression f of None \<Rightarrow> compression h = NoCompression
        | Some name \<Rightarrow> compression_from_name name = Some (compression h)) \<and>
       message_length h = or_default 0 (f_message_length f) \<and>
       sender_id h = or_default [] (f_sender_id f) \<and>
       tracker_id h = or_default [] (f_tracker_id f) \<and>
       verification_data h = or_default [] (f_verification_data f))"
  by (auto simp: header_from_json_string_def header_v1_from_json_string_def bind_eq_Some_conv
      header_v1_of_fields_eq_Some)

text \<open>
  C39. The JSON form of a header determines every field that it shows - all but the compression -
  for well-formed headers whose texts hold no quotation mark, where the text form of a uuid
  determines it and holds none either.
\<close>

theorem quote_free_json_determines_header:
  assumes fmt: "\<And>u v. length u = 16 \<Longrightarrow> length v = 16 \<Longrightarrow> uuid_fmt u = uuid_fmt v \<Longrightarrow> u = v"
      "\<And>u. length u = 16 \<Longrightarrow> CHR 0x22 \<notin> set (uuid_fmt u)"
    and ok: "header_v1_ok g" "header_v1_ok h" and q: "quote_free g" "quote_free h"
    and eq: "header_to_json_string uuid_fmt (V1 g) = header_to_json_string uuid_fmt (V1 h)"
  shows "g\<lparr>compression := c\<rparr> = h\<lparr>compression := c\<rparr>"
proof -
  have comma: "CHR '','' \<notin> set (fmt_dec n)" for n
  proof
    assume "CHR '','' \<in> set (fmt_dec n)"
    then obtain d where "d < 10" "CHR '','' = digit_char d"
      using fmt_dec_digits by blast
    then have "(of_char (CHR '','') :: nat) = of_char (digit_char d)" by simp
    with \<open>d < 10\<close> show False by (simp add: digit_char_def)
  qed
  have u: "length (uuid g) = 16" "length (uuid h) = 16" using ok by (simp_all add: header_v1_ok_def)
  note facts = eq q fmt(1) [OF u] fmt(2) [OF u(1)] fmt(2) [OF u(2)]
  show ?thesis
    using facts
    by (cases g; cases h)
      (simp add: header_v1_to_json_string_def quote_free_def append_delim_eq comma fmt_dec_inj
        word_unat_eq_iff)
qed

theorem quote_free_json_determines_header_witness:
  "header_to_json_string to_hex (V1 sample_header) \<noteq>
   header_to_json_string to_hex (V1 (sample_header\<lparr>tracker_id := ''t2''\<rparr>))"
proof
  let ?h = "sample_header\<lparr>tracker_id := ''t2''\<rparr>"
  assume eq: "header_to_json_string to_hex (V1 sample_header) = header_to_json_string to_hex (V1 ?h)"
  have "header_v1_ok ?h"
    by (simp add: header_v1_ok_def sample_header_def text_ok_def string_ok_def blob_ok_def byte_of_def)
  moreover have "quote_free sample_header" "quote_free ?h"
    by (simp_all add: quote_free_def sample_header_def)
  ultimately have "sample_header\<lparr>compression := Gzip\<rparr> = ?h\<lparr>compression := Gzip\<rparr>"
    using quote_free_json_determines_header [OF _ _ sample_header_ok _ _ _ eq]
    by (simp add: to_hex_inj to_hex_no_quote)
  then show False by (simp add: sample_header_def)
qed

text \<open>
  With quotation marks it does not: texts are not escaped, so two acceptable headers that
  differ in who the sender is have the same JSON form, whatever the text form of the uuid.
\<close>

theorem json_of_headers_is_ambiguous:
  "\<exists>g h. header_v1_ok g \<and> header_v1_ok h \<and> sender_id g \<noteq> sender_id h \<and> tracker_id g \<noteq> tracker_id h \<and>
     header_to_json_string uuid_fmt (V1 g) = header_to_json_string uuid_fmt (V1 h)"
proof -
  let ?g = "sample_header\<lparr>sender_id := ''a'' @ CHR 0x22 # '', '' @ CHR 0x22 # ''tracker_id'' @
      CHR 0x22 # '': '' @ CHR 0x22 # ''b'', tracker_id := ''c''\<rparr>"
  let ?h = "sample_header\<lparr>sender_id := ''a'', tracker_id := ''b'' @ CHR 0x22 # '', '' @
      CHR 0x22 # ''tracker_id'' @ CHR 0x22 # '': '' @ CHR 0x22 # ''c''\<rparr>"
  have "header_v1_ok ?g" "header_v1_ok ?h"
    by (simp_all add: header_v1_ok_def sample_header_def text_ok_def string_ok_def blob_ok_def byte_of_def)
  moreover have "header_to_json_string uuid_fmt (V1 ?g) = header_to_json_string uuid_fmt (V1 ?h)"
    by (simp add: header_v1_to_json_string_def sample_header_def)
  ultimately show ?thesis
    by (intro exI [of _ ?g] exI [of _ ?h]) (simp add: sample_header_def)
qed

end
