(* ===== verification/Shardus_Crypto.thy ===== *)
theory Shardus_Crypto
  imports Rust_Strings
begin

text \<open>
  \<open>crypto/src/lib.rs\<close> and \<open>shardus_net/src/shardus_crypto.rs\<close>: keyed hashing, signing and
  verifying on top of sodiumoxide, and the process-wide instance that every sender and listener
  uses.  The sodiumoxide library is a parameter, the record \<open>sodium\<close>; keys are the byte arrays
  of its tuple structs.
\<close>

section \<open>The library\<close>

record sodium =
  so_init :: bool
  so_hex_decode :: "string \<Rightarrow> u8 list option"
  so_hex_encode :: "u8 list \<Rightarrow> string"
  so_generichash :: "u8 list \<Rightarrow> nat option \<Rightarrow> u8 list option \<Rightarrow> u8 list option"
  so_sk_from_slice :: "u8 list \<Rightarrow> u8 list option"
  so_pk_from_slice :: "u8 list \<Rightarrow> u8 list option"
  so_public_key :: "u8 list \<Rightarrow> u8 list"
  so_sign :: "u8 list \<Rightarrow> u8 list \<Rightarrow> u8 list"
  so_verify :: "u8 list \<Rightarrow> u8 list \<Rightarrow> u8 list option"

section \<open>The data of the crate\<close>

datatype Format = Hex_format | Buffer_format

datatype HexStringOrBuffer = Hex string | Buffer "u8 list"

record KeyPair =
  public_key :: "u8 list"
  secret_key :: "u8 list"

record ShardusCrypto =
  hash_key :: "u8 list"

fun hex_or_buffer_fmt :: "HexStringOrBuffer \<Rightarrow> string" where
  "hex_or_buffer_fmt (Hex s) = s"
| "hex_or_buffer_fmt (Buffer bytes) = concat (map fmt_02X bytes)"

section \<open>Operations\<close>

definition option_unwrap_msg :: string where
  "option_unwrap_msg = ''called unwrap() on an Err or None value''"

definition shardus_crypto_new :: "sodium \<Rightarrow> string \<Rightarrow> ShardusCrypto may_panic" where
  "shardus_crypto_new S key =
     (if \<not> so_init S then Inl (Panic ''Failed to initialize sodiumoxide'')
      else rbind (expect ''Cannot initialize shardus crypto because hash key is not valid hex''
                    (so_hex_decode S key))
             (\<lambda>k. Inr \<lparr>hash_key = k\<rparr>))"

definition get_key_pair_using_sk :: "sodium \<Rightarrow> HexStringOrBuffer \<Rightarrow> KeyPair may_panic" where
  "get_key_pair_using_sk S sk =
     rbind (case sk of
              Hex hex \<Rightarrow> rbind (expect option_unwrap_msg (so_hex_decode S hex))
                          (\<lambda>b. expect ''Invalid secret key'' (so_sk_from_slice S b))
            | Buffer buf \<Rightarrow> expect ''Invalid secret key'' (so_sk_from_slice S buf))
       (\<lambda>secret. Inr \<lparr>public_key = so_public_key S secret, secret_key = secret\<rparr>)"

definition get_pk :: "sodium \<Rightarrow> HexStringOrBuffer \<Rightarrow> u8 list may_panic" where
  "get_pk S pk =
     (case pk of
        Hex hex \<Rightarrow> rbind (expect option_unwrap_msg (so_hex_decode S hex))
                    (\<lambda>b. expect ''Invalid public key'' (so_pk_from_slice S b))
      | Buffer buf \<Rightarrow> expect ''Invalid public key'' (so_pk_from_slice S buf))"

definition crypto_hash ::
    "sodium \<Rightarrow> ShardusCrypto \<Rightarrow> u8 list \<Rightarrow> Format \<Rightarrow> HexStringOrBuffer may_panic" where
  "crypto_hash S sc input fmt =
     rbind (expect ''Cannot digest input'' (so_generichash S input (Some 32) (Some (hash_key sc))))
       (\<lambda>digest. Inr (case fmt of
                         Hex_format \<Rightarrow> Hex (so_hex_encode S digest)
                       | Buffer_format \<Rightarrow> Buffer digest))"

text \<open>The error of \<open>sign\<close> is a message; it is a value, not a panic.\<close>

definition crypto_sign :: "sodium \<Rightarrow> HexStringOrBuffer \<Rightarrow> u8 list \<Rightarrow> string + u8 list" where
  "crypto_sign S input sk =
     rbind (case input of
              Hex hex \<Rightarrow> (case so_hex_decode S hex of
                            None \<Rightarrow> Inl ''Invalid hex format for input.'' | Some b \<Rightarrow> Inr b)
            | Buffer buf \<Rightarrow> Inr buf)
       (\<lambda>input_buf. Inr (so_sign S input_buf sk))"

definition crypto_verify ::
    "sodium \<Rightarrow> HexStringOrBuffer \<Rightarrow> u8 list \<Rightarrow> u8 list \<Rightarrow> bool may_panic" where
  "crypto_verify S msg sig pk =
     rbind (case msg of
              Hex hex \<Rightarrow> expect ''Invalid hex format for message'' (so_hex_decode S hex)
            | Buffer buf \<Rightarrow> Inr buf)
       (\<lambda>msg_buf. Inr (case so_verify S sig pk of
                          Some opened_msg \<Rightarrow> opened_msg = msg_buf
                        | None \<Rightarrow> False))"

section \<open>The process-wide instance\<close>

text \<open>
  \<open>INIT\<close> is a \<open>Once\<close>: the first \<open>call_once\<close> runs its closure; if the closure panics the
  \<open>Once\<close> is poisoned and every later \<open>call_once\<close> panics; otherwise later calls do nothing.
\<close>

datatype once_state = Incomplete | Poisoned | Complete

record crypto_static =
  INIT :: once_state
  SHARDUS_CRYPTO_INSTANCE :: "ShardusCrypto option"

definition crypto_static_init :: crypto_static where
  "crypto_static_init = \<lparr>INIT = Incomplete, SHARDUS_CRYPTO_INSTANCE = None\<rparr>"

definition initialize_shardus_crypto_instance ::
    "sodium \<Rightarrow> string \<Rightarrow> crypto_static \<Rightarrow> unit may_panic \<times> crypto_static" where
  "initialize_shardus_crypto_instance S hex_key st =
     (case INIT st of
        Complete \<Rightarrow> (Inr (), st)
      | Poisoned \<Rightarrow> (Inl (Panic ''Once instance has previously been poisoned''), st)
      | Incomplete \<Rightarrow>
          (case SHARDUS_CRYPTO_INSTANCE st of
             Some _ \<Rightarrow> (Inl (Panic ''ShardusCrypto instance already initialized''),
                        st\<lparr>INIT := Poisoned\<rparr>)
           | None \<Rightarrow>
               (case shardus_crypto_new S hex_key of
                  Inl p \<Rightarrow> (Inl p, st\<lparr>INIT := Poisoned\<rparr>)
                | Inr crypto \<Rightarrow>
                    (Inr (), st\<lparr>INIT := Complete, SHARDUS_CRYPTO_INSTANCE := Some crypto\<rparr>))))"

definition get_shardus_crypto_instance :: "crypto_static \<Rightarrow> ShardusCrypto may_panic" where
  "get_shardus_crypto_instance st =
     expect ''ShardusCrypto instance not initialized'' (SHARDUS_CRYPTO_INSTANCE st)"

section \<open>What sodiumoxide documents\<close>

text \<open>
  What a secret key of a key pair signs opens to itself under its public key, and the public key
  is accepted in its own byte form.  This is stated of one secret key: \<open>from_slice\<close> also accepts
  byte strings of the right length that no key generation makes, and promises nothing for them.
\<close>

definition sodium_signs :: "sodium \<Rightarrow> u8 list \<Rightarrow> bool" where
  "sodium_signs S sk \<longleftrightarrow>
     (\<forall>m. so_verify S (so_sign S m sk) (so_public_key S sk) = Some m) \<and>
     so_pk_from_slice S (so_public_key S sk) = Some (so_public_key S sk)"

text \<open>The hash key has a length the library accepts, so every input has a digest.\<close>

definition hash_key_accepted :: "sodium \<Rightarrow> ShardusCrypto \<Rightarrow> bool" where
  "hash_key_accepted S sc \<longleftrightarrow>
     (\<forall>m. \<exists>d. so_generichash S m (Some 32) (Some (hash_key sc)) = Some d)"

section \<open>Lemmas\<close>

lemma get_key_pair_public:
  "get_key_pair_using_sk S sk = Inr kp \<Longrightarrow>
     public_key kp = so_public_key S (secret_key kp) \<and>
     (\<exists>b. so_sk_from_slice S b = Some (secret_key kp))"
  by (auto simp: get_key_pair_using_sk_def rust_simps split: HexStringOrBuffer.splits)

lemma crypto_sign_buffer [simp]: "crypto_sign S (Buffer b) sk = Inr (so_sign S b sk)"
  by (simp add: crypto_sign_def)

lemma crypto_verify_buffer:
  "crypto_verify S (Buffer b) sig pk = Inr (so_verify S sig pk = Some b)"
  by (auto simp: crypto_verify_def split: option.splits)

text \<open>A signature that the library cannot open makes \<open>verify\<close> answer false; it never panics.\<close>

lemma crypto_verify_total: "\<exists>r. crypto_verify S (Buffer b) sig pk = Inr r"
  by (simp add: crypto_verify_buffer)

lemma crypto_sign_verify:
  assumes "sodium_signs S (secret_key kp)" "get_key_pair_using_sk S sk = Inr kp" "crypto_sign S (Buffer b) (secret_key kp) = Inr sig"
  shows "crypto_verify S (Buffer b) sig (public_key kp) = Inr True"
  using assms get_key_pair_public [OF assms(2)]
  by (auto simp: crypto_verify_buffer sodium_signs_def)

lemma crypto_hash_accepted:
  assumes "hash_key_accepted S sc"
  obtains d where "crypto_hash S sc m Buffer_format = Inr (Buffer d)"
    "so_generichash S m (Some 32) (Some (hash_key sc)) = Some d"
  using assms that by (force simp: hash_key_accepted_def crypto_hash_def)

subsection \<open>The instance is set once\<close>

text \<open>The instance is present exactly when the \<open>Once\<close> has completed.\<close>

definition static_inv :: "crypto_static \<Rightarrow> bool" where
  "static_inv st \<longleftrightarrow> (INIT st = Complete \<longleftrightarrow> SHARDUS_CRYPTO_INSTANCE st \<noteq> None)"

lemma static_inv_init: "static_inv crypto_static_init"
  by (simp add: static_inv_def crypto_static_init_def)

lemma initialize_inv:
  "static_inv st \<Longrightarrow> static_inv (snd (initialize_shardus_crypto_instance S k st))"
  by (auto simp: initialize_shardus_crypto_instance_def static_inv_def
      split: once_state.splits option.splits sum.splits)

fun initialize_all :: "sodium \<Rightarrow> string list \<Rightarrow> crypto_static \<Rightarrow> crypto_static" where
  "initialize_all S [] st = st"
| "initialize_all S (k # ks) st =
     initialize_all S ks (snd (initialize_shardus_crypto_instance S k st))"

lemma initialize_Complete:
  "INIT st = Complete \<Longrightarrow> initialize_shardus_crypto_instance S k st = (Inr (), st)"
  by (simp add: initialize_shardus_crypto_instance_def)

lemma initialize_Poisoned:
  "INIT st = Poisoned \<Longrightarrow> initialize_shardus_crypto_instance S k st =
     (Inl (Panic ''Once instance has previously been poisoned''), st)"
  by (simp add: initialize_shardus_crypto_instance_def)

lemma initialize_all_Complete: "INIT st = Complete \<Longrightarrow> initialize_all S ks st = st"
  by (induction ks) (simp_all add: initialize_Complete)

lemma initialize_all_Poisoned: "INIT st = Poisoned \<Longrightarrow> initialize_all S ks st = st"
  by (induction ks) (simp_all add: initialize_Poisoned)

section \<open>A small instance of the library\<close>

text \<open>
  A library that keeps the documentation and can be evaluated by hand: keys of one byte, the
  public key equal to the secret one, the key in front of the message as its signature, and
  every input its own digest.  It serves the concrete instances of the properties.
\<close>

definition sample_sodium :: sodium where
  "sample_sodium =
     \<lparr>so_init = True,
      so_hex_decode = (\<lambda>s. if s = ''zz'' then None else Some (into_bytes s)),
      so_hex_encode = map char_of_byte,
      so_generichash = (\<lambda>m _ _. Some m),
      so_sk_from_slice = (\<lambda>b. if length b = 1 then Some b else None),
      so_pk_from_slice = (\<lambda>b. if length b = 1 then Some b else None),
      so_public_key = (\<lambda>sk. sk),
      so_sign = (\<lambda>m sk. sk @ m),
      so_verify = (\<lambda>sg pk. if take 1 sg = pk then Some (drop 1 sg) else None)\<rparr>"

definition sample_crypto :: ShardusCrypto where
  "sample_crypto = \<lparr>hash_key = [7]\<rparr>"

definition sample_static :: crypto_static where
  "sample_static = \<lparr>INIT = Complete, SHARDUS_CRYPTO_INSTANCE = Some sample_crypto\<rparr>"

definition sample_keys :: KeyPair where
  "sample_keys = \<lparr>public_key = [9], secret_key = [9]\<rparr>"

lemma sample_sodium_signs: "sodium_signs sample_sodium (secret_key sample_keys)"
  by (simp add: sodium_signs_def sample_sodium_def sample_keys_def)

lemma sample_hash_key_accepted: "hash_key_accepted sample_sodium sample_crypto"
  by (simp add: hash_key_accepted_def sample_sodium_def)

lemma sample_key_pair: "get_key_pair_using_sk sample_sodium (Buffer [9]) = Inr sample_keys"
  by (simp add: get_key_pair_using_sk_def sample_sodium_def sample_keys_def expect_def)

section \<open>Properties\<close>

text \<open>
  C38. The first key decides for the life of the process: when the first initialisation
  returns, its key is the instance's, whatever keys later initialisations bring, and every
  later use finds that instance.
\<close>

theorem first_hash_key_wins:
  assumes "initialize_shardus_crypto_instance S key crypto_static_init = (Inr (), st)"
  shows "\<exists>k. so_hex_decode S key = Some k \<and>
    get_shardus_crypto_instance (initialize_all S later st) = Inr \<lparr>hash_key = k\<rparr> \<and>
    initialize_shardus_crypto_instance S other (initialize_all S later st) =
      (Inr (), initialize_all S later st)"
proof -
  obtain k where k: "so_hex_decode S key = Some k" and i: "INIT st = Complete"
    and c: "SHARDUS_CRYPTO_INSTANCE st = Some \<lparr>hash_key = k\<rparr>"
    using assms
    by (auto simp: initialize_shardus_crypto_instance_def crypto_static_init_def
        shardus_crypto_new_def rust_simps split: sum.splits if_splits option.splits)
  with initialize_all_Complete [OF i] show ?thesis
    by (simp add: get_shardus_crypto_instance_def initialize_Complete expect_def)
qed

theorem first_hash_key_wins_witness:
  "get_shardus_crypto_instance (initialize_all sample_sodium [''zz'', ''b'']
     (snd (initialize_shardus_crypto_instance sample_sodium ''a'' crypto_static_init))) =
   Inr \<lparr>hash_key = into_bytes ''a''\<rparr>"
proof -
  have "initialize_shardus_crypto_instance sample_sodium ''a'' crypto_static_init =
      (Inr (), \<lparr>INIT = Complete, SHARDUS_CRYPTO_INSTANCE = Some \<lparr>hash_key = into_bytes ''a''\<rparr>\<rparr>)"
    by (simp add: initialize_shardus_crypto_instance_def crypto_static_init_def
        shardus_crypto_new_def sample_sodium_def expect_def)
  from first_hash_key_wins [OF this, of "[''zz'', ''b'']"] this show ?thesis
    by (auto simp: sample_sodium_def)
qed

text \<open>
  A key that is not hexadecimal poisons the process: the first initialisation panics, so
  does every later one with any key, and the instance is never there to be used.
\<close>

theorem bad_hash_key_poisons:
  assumes "so_init S" "so_hex_decode S key = None"
  shows "\<exists>p st. initialize_shardus_crypto_instance S key crypto_static_init = (Inl p, st) \<and>
    (\<exists>q. get_shardus_crypto_instance (initialize_all S later st) = Inl q) \<and>
    (\<exists>q. initialize_shardus_crypto_instance S other (initialize_all S later st) =
      (Inl q, initialize_all S later st))"
proof -
  define st where "st = \<lparr>INIT = Poisoned, SHARDUS_CRYPTO_INSTANCE = None\<rparr>"
  have "\<exists>p. initialize_shardus_crypto_instance S key crypto_static_init = (Inl p, st)"
    using assms by (simp add: initialize_shardus_crypto_instance_def crypto_static_init_def
        shardus_crypto_new_def expect_def st_def)
  moreover have "initialize_all S later st = st"
    by (rule initialize_all_Poisoned) (simp add: st_def)
  ultimately show ?thesis
    by (auto simp: st_def get_shardus_crypto_instance_def initialize_Poisoned expect_def)
qed

theorem bad_hash_key_poisons_witness:
  "\<exists>p st. initialize_shardus_crypto_instance sample_sodium ''zz'' crypto_static_init = (Inl p, st) \<and>
     (\<exists>q. get_shardus_crypto_instance (initialize_all sample_sodium [''a''] st) = Inl q)"
proof -
  have "so_init sample_sodium" "so_hex_decode sample_sodium ''zz'' = None"
    by (simp_all add: sample_sodium_def)
  from bad_hash_key_poisons [OF this] show ?thesis by blast
qed

end
