(* ===== verification/Message.thy ===== *)
theory Message
  imports Shardus_Crypto
begin

text \<open>
  \<open>shardus_net/src/message.rs\<close>: a message with its signature, its wire format, signing and
  verifying.  Every \<open>read_exact\<close> of the decoder that runs out of bytes ends it with \<open>None\<close>.
\<close>

section \<open>Data\<close>

record Sign =
  owner :: "u8 list"
  sig :: "u8 list"

record Message =
  m_header_version :: u8
  m_header :: "u8 list"
  m_data :: "u8 list"
  m_sign :: Sign

definition sign_new :: "u8 list \<Rightarrow> u8 list \<Rightarrow> Sign" where
  "sign_new own signature = \<lparr>owner = own, sig = signature\<rparr>"

definition message_new :: "u8 \<Rightarrow> u8 list \<Rightarrow> u8 list \<Rightarrow> Sign \<Rightarrow> Message" where
  "message_new hv h d s = \<lparr>m_header_version = hv, m_header = h, m_data = d, m_sign = s\<rparr>"

definition message_new_unsigned :: "u8 \<Rightarrow> u8 list \<Rightarrow> u8 list \<Rightarrow> Message" where
  "message_new_unsigned hv h d =
     \<lparr>m_header_version = hv, m_header = h, m_data = d, m_sign = sign_new [] []\<rparr>"

section \<open>Encoding\<close>

definition sign_serialize :: "Sign \<Rightarrow> u8 list" where
  "sign_serialize s =
     (let owner_len = as_u32 (length (owner s));
          signature_len = as_u32 (length (sig s))
      in u32_to_le_bytes owner_len @ owner s @ u32_to_le_bytes signature_len @ sig s)"

definition message_serialize_unsigned :: "Message \<Rightarrow> u8 list" where
  "message_serialize_unsigned m =
     (let header_len = as_u32 (length (m_header m));
          data_len = as_u32 (length (m_data m))
      in u8_to_le_bytes (m_header_version m) @
         u32_to_le_bytes header_len @ m_header m @
         u32_to_le_bytes data_len @ m_data m)"

definition message_serialize :: "Message \<Rightarrow> u8 list" where
  "message_serialize m = message_serialize_unsigned m @ sign_serialize (m_sign m)"

section \<open>Decoding\<close>

definition sign_deserialize :: "cursor \<Rightarrow> (Sign \<times> cursor) option" where
  "sign_deserialize c = do {
     (owner_len_bytes, c) \<leftarrow> read_exact 4 c;
     (owner_bytes, c) \<leftarrow> read_exact (unat (u32_from_le_bytes owner_len_bytes)) c;
     (signature_len_bytes, c) \<leftarrow> read_exact 4 c;
     (signature_bytes, c) \<leftarrow> read_exact (unat (u32_from_le_bytes signature_len_bytes)) c;
     Some (sign_new owner_bytes signature_bytes, c) }"

definition message_deserialize :: "cursor \<Rightarrow> (Message \<times> cursor) option" where
  "message_deserialize c = do {
     (header_version_bytes, c) \<leftarrow> read_exact 1 c;
     (header_len_bytes, c) \<leftarrow> read_exact 4 c;
     (header_bytes, c) \<leftarrow> read_exact (unat (u32_from_le_bytes header_len_bytes)) c;
     (data_len_bytes, c) \<leftarrow> read_exact 4 c;
     (data_bytes, c) \<leftarrow> read_exact (unat (u32_from_le_bytes data_len_bytes)) c;
     (sgn, c) \<leftarrow> sign_deserialize c;
     Some (message_new (u8_from_le_bytes header_version_bytes) header_bytes data_bytes sgn, c) }"

section \<open>Signing and verifying\<close>

definition message_sign ::
    "sodium \<Rightarrow> ShardusCrypto \<Rightarrow> KeyPair \<Rightarrow> Message \<Rightarrow> Message may_panic" where
  "message_sign S crypto key_pair m =
     (let unsigned = message_serialize_unsigned m in
      rbind (crypto_hash S crypto unsigned Buffer_format)
        (\<lambda>hash. case crypto_sign S hash (secret_key key_pair) of
                   Inl _ \<Rightarrow> Inl (Panic ''Failed to sign message'')
                 | Inr signature \<Rightarrow>
                     Inr (m\<lparr>m_sign := sign_new (public_key key_pair) signature\<rparr>)))"

definition message_verify :: "sodium \<Rightarrow> ShardusCrypto \<Rightarrow> Message \<Rightarrow> bool may_panic" where
  "message_verify S crypto m =
     (let unsigned = message_serialize_unsigned m in
      rbind (crypto_hash S crypto unsigned Buffer_format)
        (\<lambda>hash. rbind (get_pk S (Buffer (owner (m_sign m))))
           (\<lambda>pk. crypto_verify S hash (sig (m_sign m)) pk)))"

definition sign_to_json_string :: "Sign \<Rightarrow> string" where
  \<open>sign_to_json_string s =
     ''{"owner": "'' @ concat (map fmt_02x (owner s)) @ ''", "sig": "'' @
     concat (map fmt_02x (sig s)) @ ''"}''\<close>

section \<open>The wire codecs\<close>

text \<open>Each length field holds the whole length as long as that is below 4 GiB.\<close>

definition sign_ok :: "Sign \<Rightarrow> bool" where
  "sign_ok s \<longleftrightarrow> blob_ok (owner s) \<and> blob_ok (sig s)"

definition unsigned_ok :: "Message \<Rightarrow> bool" where
  "unsigned_ok m \<longleftrightarrow> blob_ok (m_header m) \<and> blob_ok (m_data m)"

definition message_ok :: "Message \<Rightarrow> bool" where
  "message_ok m \<longleftrightarrow> unsigned_ok m \<and> sign_ok (m_sign m)"

text \<open>The encoders and decoders, read as sequences of length-prefixed fields.\<close>

lemma sign_serialize_blobs: "sign_serialize s = enc_blob (owner s) @ enc_blob (sig s)"
  by (simp add: sign_serialize_def enc_blob_def)

lemma serialize_unsigned_blobs:
  "message_serialize_unsigned m = m_header_version m # enc_blob (m_header m) @ enc_blob (m_data m)"
  by (simp add: message_serialize_unsigned_def enc_blob_def u8_to_le_bytes_def)

lemma sign_deserialize_blobs: "sign_deserialize c = do {
     (own, c) \<leftarrow> dec_blob c;
     (sg, c) \<leftarrow> dec_blob c;
     Some (sign_new own sg, c) }"
  unfolding sign_deserialize_def dec_blob_bind ..

lemma message_deserialize_blobs: "message_deserialize c = do {
     (hv, c) \<leftarrow> read_exact 1 c;
     (h, c) \<leftarrow> dec_blob c;
     (d, c) \<leftarrow> dec_blob c;
     (sgn, c) \<leftarrow> sign_deserialize c;
     Some (message_new (u8_from_le_bytes hv) h d sgn, c) }"
  unfolding message_deserialize_def dec_blob_bind ..

interpretation sign_wire: wire_codec sign_serialize sign_deserialize sign_ok
proof unfold_locales
  show "sign_deserialize (cursor_at p (sign_serialize x @ r)) =
      Some (x, cursor_at (p @ sign_serialize x) r)" if "sign_ok x" for x p r
    using that
    by (simp add: sign_deserialize_blobs sign_serialize_blobs sign_ok_def codec_simps sign_new_def)
next
  show "sign_ok x \<and> (\<exists>r. s = sign_serialize x @ r \<and> c' = cursor_at (p @ sign_serialize x) r)"
    if "sign_deserialize (cursor_at p s) = Some (x, c')" for p s x c'
    using that
    by (auto simp: sign_deserialize_blobs sign_serialize_blobs sign_ok_def sign_new_def
        bind_eq_Some_conv blob.dec_iff)
qed

lemmas sign_codec [codec_simps] = sign_wire.dec_enc sign_wire.dec_new sign_wire.dec_new_exact

interpretation message_wire: wire_codec message_serialize message_deserialize message_ok
proof unfold_locales
  show "message_deserialize (cursor_at p (message_serialize x @ r)) =
      Some (x, cursor_at (p @ message_serialize x) r)" if "message_ok x" for x p r
  proof -
    have "read_exact 1 (cursor_at p (m_header_version x # s)) =
        Some ([m_header_version x], cursor_at (p @ [m_header_version x]) s)" for s
      using read_exact_append [of "[m_header_version x]" 1 p s] by simp
    with that show ?thesis
      by (simp add: message_deserialize_blobs message_serialize_def serialize_unsigned_blobs
          message_ok_def unsigned_ok_def codec_simps message_new_def u8_from_le_bytes_def)
  qed
next
  fix p s x c'
  assume "message_deserialize (cursor_at p s) = Some (x, c')"
  then obtain hv c1 h c2 d c3 sgn where 1: "read_exact 1 (cursor_at p s) = Some (hv, c1)"
    and 2: "dec_blob c1 = Some (h, c2)" and 3: "dec_blob c2 = Some (d, c3)"
    and 4: "sign_deserialize c3 = Some (sgn, c')"
    and x: "x = message_new (u8_from_le_bytes hv) h d sgn"
    by (auto simp: message_deserialize_blobs bind_eq_Some_conv)
  from 1 obtain r1 where r1: "s = hv @ r1" "length hv = 1" "c1 = cursor_at (p @ hv) r1"
    by (rule read_exact_sound)
  then obtain b where b: "hv = [b]" by (cases hv) auto
  from 2 r1 obtain r2 where r2: "blob_ok h" "r1 = enc_blob h @ r2" "c2 = cursor_at (p @ hv @ enc_blob h) r2"
    by (auto simp: blob.dec_iff)
  from 3 r2 obtain r3 where r3: "blob_ok d" "r2 = enc_blob d @ r3"
    "c3 = cursor_at (p @ hv @ enc_blob h @ enc_blob d) r3"
    by (auto simp: blob.dec_iff)
  from 4 r3 obtain r4 where r4: "sign_ok sgn" "r3 = sign_serialize sgn @ r4"
    "c' = cursor_at (p @ hv @ enc_blob h @ enc_blob d @ sign_serialize sgn) r4"
    by (auto simp: sign_wire.dec_iff)
  show "message_ok x \<and> (\<exists>r. s = message_serialize x @ r \<and> c' = cursor_at (p @ message_serialize x) r)"
    using r1 r2 r3 r4 b x
    by (simp add: message_ok_def unsigned_ok_def message_serialize_def serialize_unsigned_blobs
        message_new_def u8_from_le_bytes_def)
qed

lemmas message_codec [codec_simps] =
  message_wire.dec_enc message_wire.dec_new message_wire.dec_new_exact

text \<open>The signed part alone determines version, header and data.\<close>

lemma serialize_unsigned_inj:
  assumes "unsigned_ok m" "unsigned_ok n"
    and "message_serialize_unsigned m = message_serialize_unsigned n"
  shows "m_header_version m = m_header_version n \<and> m_header m = m_header n \<and> m_data m = m_data n"
proof -
  have "m_header_version m = m_header_version n"
    and 1: "enc_blob (m_header m) @ enc_blob (m_data m) = enc_blob (m_header n) @ enc_blob (m_data n)"
    using assms(3) by (simp_all add: serialize_unsigned_blobs)
  moreover have "m_header m = m_header n \<and> enc_blob (m_data m) = enc_blob (m_data n)"
    using blob.enc_prefix_free [OF _ _ 1] assms by (simp add: unsigned_ok_def)
  moreover from this have "m_data m = m_data n"
    using blob.enc_inj assms by (simp add: unsigned_ok_def)
  ultimately show ?thesis by simp
qed

lemma serialize_unsigned_sign_update [simp]:
  "message_serialize_unsigned (m\<lparr>m_sign := s\<rparr>) = message_serialize_unsigned m"
  by (simp add: message_serialize_unsigned_def Let_def)

lemma length_message_serialize:
  "length (message_serialize m) =
     17 + length (m_header m) + length (m_data m) + length (owner (m_sign m)) + length (sig (m_sign m))"
  by (simp add: message_serialize_def serialize_unsigned_blobs sign_serialize_blobs)

section \<open>Lemmas on signing and verifying\<close>

text \<open>What a verification decides, when the digest exists and the owner is a public key.\<close>

lemma message_verify_iff:
  assumes "so_generichash S (message_serialize_unsigned m) (Some 32) (Some (hash_key sc)) = Some d"
    and "so_pk_from_slice S (owner (m_sign m)) = Some pk"
  shows "message_verify S sc m = Inr (so_verify S (sig (m_sign m)) pk = Some d)"
  using assms by (simp add: message_verify_def crypto_hash_def get_pk_def crypto_verify_buffer)

lemma message_verify_eq_Inr:
  "message_verify S sc m = Inr b \<longleftrightarrow>
     (\<exists>d pk. so_generichash S (message_serialize_unsigned m) (Some 32) (Some (hash_key sc)) = Some d \<and>
             so_pk_from_slice S (owner (m_sign m)) = Some pk \<and>
             b = (so_verify S (sig (m_sign m)) pk = Some d))"
  by (auto simp: message_verify_def crypto_hash_def get_pk_def crypto_verify_buffer rust_simps)

lemma message_sign_eq_Inr:
  "message_sign S sc kp m = Inr m' \<longleftrightarrow>
     (\<exists>d. so_generichash S (message_serialize_unsigned m) (Some 32) (Some (hash_key sc)) = Some d \<and>
          m' = m\<lparr>m_sign := sign_new (public_key kp) (so_sign S d (secret_key kp))\<rparr>)"
  by (auto simp: message_sign_def crypto_hash_def rust_simps)

lemma message_sign_total:
  assumes "hash_key_accepted S sc"
  shows "\<exists>m'. message_sign S sc kp m = Inr m'"
  using assms by (simp add: message_sign_eq_Inr hash_key_accepted_def)

lemma message_sign_verify:
  assumes "sodium_signs S (secret_key kp)" "get_key_pair_using_sk S sk = Inr kp" "message_sign S sc kp m = Inr m'"
  shows "message_verify S sc m' = Inr True"
proof -
  obtain d where d: "so_generichash S (message_serialize_unsigned m) (Some 32) (Some (hash_key sc)) = Some d"
    and m': "m' = m\<lparr>m_sign := sign_new (public_key kp) (so_sign S d (secret_key kp))\<rparr>"
    using assms(3) by (auto simp: message_sign_eq_Inr)
  have "so_verify S (so_sign S d (secret_key kp)) (public_key kp) = Some d"
    "so_pk_from_slice S (public_key kp) = Some (public_key kp)"
    using assms(1) get_key_pair_public [OF assms(2)] by (auto simp: sodium_signs_def)
  then show ?thesis
    using d by (simp add: message_verify_eq_Inr m' sign_new_def)
qed

section \<open>The signature as JSON\<close>

lemma sign_json_to_hex:
  \<open>sign_to_json_string s = ''{"owner": "'' @ to_hex (owner s) @ ''", "sig": "'' @ to_hex (sig s) @ ''"}''\<close>
  by (simp add: sign_to_json_string_def to_hex_def)

section \<open>Properties\<close>

text \<open>
  C16. The wire format of messages is exact: the decoder accepts a message at the cursor if and
  only if the bytes there start with that message's encoding, and it stops right behind it.
  So it takes back everything the encoder writes, and accepts nothing else.
\<close>

theorem message_decoder_exact:
  "message_deserialize (cursor_at p s) = Some (m, c') \<longleftrightarrow>
     message_ok m \<and> (\<exists>r. s = message_serialize m @ r \<and> c' = cursor_at (p @ message_serialize m) r)"
  by (rule message_wire.dec_iff)

text \<open>
  An encoding that is cut short is refused, wherever it is cut, and two messages that both
  fit their length fields never share an encoding.
\<close>

theorem message_truncation_rejected:
  assumes "message_ok m" "n < length (message_serialize m)"
  shows "message_deserialize (cursor_new (take n (message_serialize m))) = None \<and>
    (message_ok m' \<longrightarrow> message_serialize m' = message_serialize m \<longrightarrow> m' = m)"
proof -
  have "message_serialize m = take n (message_serialize m) @ drop n (message_serialize m)"
    "drop n (message_serialize m) \<noteq> []"
    using assms(2) by simp_all
  then show ?thesis
    using message_wire.dec_new_truncated [OF assms(1)] message_wire.enc_inj assms(1) by blast
qed

definition sample_message :: Message where
  "sample_message = message_new 1 [1, 2] [3] (sign_new [9] [4, 5])"

theorem message_truncation_rejected_witness:
  "message_deserialize (cursor_new (take 21 (message_serialize sample_message))) = None"
proof -
  have "message_ok sample_message" "21 < length (message_serialize sample_message)"
    by (simp_all add: sample_message_def message_ok_def unsigned_ok_def sign_ok_def blob_ok_def
        message_new_def sign_new_def length_message_serialize)
  from message_truncation_rejected [OF this, of sample_message] show ?thesis by simp
qed

text \<open>
  C18. A message that was signed with a key pair of a secret key, put on the wire and read back
  is the message that was signed, and verifies under the key its signature names; bytes behind
  it are ignored.
\<close>

theorem signed_message_survives_wire:
  assumes "sodium_signs S (secret_key kp)" "get_key_pair_using_sk S sk = Inr kp"
    and "message_sign S sc kp m = Inr m'" "message_ok m'"
  shows "message_deserialize (cursor_new (message_serialize m' @ extra)) =
      Some (m', cursor_at (message_serialize m') extra) \<and>
    message_verify S sc m' = Inr True \<and> owner (m_sign m') = public_key kp \<and>
    m_header_version m' = m_header_version m \<and> m_header m' = m_header m \<and> m_data m' = m_data m"
  using message_sign_verify [OF assms(1-3)] message_wire.dec_new [OF assms(4)] assms(3)
  by (auto simp: message_sign_eq_Inr sign_new_def)

theorem signed_message_survives_wire_witness:
  "\<exists>m'. message_sign sample_sodium sample_crypto sample_keys sample_message = Inr m' \<and>
     message_verify sample_sodium sample_crypto m' = Inr True \<and> owner (m_sign m') = [9]"
proof -
  obtain m' where m': "message_sign sample_sodium sample_crypto sample_keys sample_message = Inr m'"
    using message_sign_total [OF sample_hash_key_accepted] by blast
  then have "message_ok m'"
    by (auto simp: message_sign_eq_Inr sample_message_def message_ok_def unsigned_ok_def sign_ok_def
        blob_ok_def message_new_def sign_new_def sample_sodium_def sample_keys_def
        serialize_unsigned_blobs)
  from signed_message_survives_wire [OF sample_sodium_signs sample_key_pair m' this] m' show ?thesis
    by (simp add: sample_keys_def)
qed

text \<open>
  C19. A signature binds what it signs: when one signature verifies for two messages, they agree
  in version, header and data, or their signed parts are a collision of the keyed hash.
\<close>

theorem signature_binds_contents:
  assumes "message_verify S sc m = Inr True" "message_verify S sc n = Inr True"
    and "m_sign m = m_sign n" "unsigned_ok m" "unsigned_ok n"
  shows "(m_header_version m = m_header_version n \<and> m_header m = m_header n \<and> m_data m = m_data n) \<or>
    (message_serialize_unsigned m \<noteq> message_serialize_unsigned n \<and>
     (\<exists>d. so_generichash S (message_serialize_unsigned m) (Some 32) (Some (hash_key sc)) = Some d \<and>
          so_generichash S (message_serialize_unsigned n) (Some 32) (Some (hash_key sc)) = Some d))"
proof (cases "message_serialize_unsigned m = message_serialize_unsigned n")
  case True
  with serialize_unsigned_inj [OF assms(4,5)] show ?thesis by blast
next
  case False
  from assms(1-3) False show ?thesis by (auto simp: message_verify_eq_Inr)
qed

definition colliding_sodium :: sodium where
  "colliding_sodium = sample_sodium\<lparr>so_generichash := (\<lambda>_ _ _. Some [0])\<rparr>"

theorem signature_binds_contents_witness:
  "\<exists>d. so_generichash colliding_sodium
       (message_serialize_unsigned (message_new 1 [1] [2] (sign_new [9] [9, 0]))) (Some 32) (Some [7]) = Some d \<and>
     so_generichash colliding_sodium
       (message_serialize_unsigned (message_new 1 [1] [3] (sign_new [9] [9, 0]))) (Some 32) (Some [7]) = Some d"
proof -
  let ?m = "\<lambda>x. message_new 1 [1] [x] (sign_new [9] [9, 0])"
  have v: "message_verify colliding_sodium sample_crypto (?m x) = Inr True" for x
    by (simp add: message_verify_eq_Inr colliding_sodium_def sample_sodium_def message_new_def sign_new_def)
  have ok: "unsigned_ok (?m x)" for x
    by (simp add: unsigned_ok_def blob_ok_def message_new_def)
  have "m_sign (?m 2) = m_sign (?m 3)" "m_data (?m 2) \<noteq> m_data (?m 3)"
    by (simp_all add: message_new_def)
  with signature_binds_contents [OF v v _ ok ok, of 2 3] show ?thesis
    by (auto simp: sample_crypto_def)
qed

text \<open>
  What a verification can answer, when every input has a digest: it panics exactly when the
  owner field is not a public key of the library, and otherwise says whether the signature
  opens to the digest of the signed part.
\<close>

theorem verify_outcomes:
  assumes "hash_key_accepted S sc"
  shows "(so_pk_from_slice S (owner (m_sign m)) = None \<longleftrightarrow>
      message_verify S sc m = Inl (Panic ''Invalid public key'')) \<and>
    (\<forall>pk. so_pk_from_slice S (owner (m_sign m)) = Some pk \<longrightarrow>
      (\<exists>d. so_generichash S (message_serialize_unsigned m) (Some 32) (Some (hash_key sc)) = Some d \<and>
        message_verify S sc m = Inr (so_verify S (sig (m_sign m)) pk = Some d)))"
proof -
  obtain d where d: "so_generichash S (message_serialize_unsigned m) (Some 32) (Some (hash_key sc)) = Some d"
    using assms by (auto simp: hash_key_accepted_def)
  have "message_verify S sc m = Inl (Panic ''Invalid public key'')"
    if "so_pk_from_slice S (owner (m_sign m)) = None"
    using d that by (simp add: message_verify_def crypto_hash_def get_pk_def expect_def)
  moreover have "message_verify S sc m = Inr (so_verify S (sig (m_sign m)) pk = Some d)"
    if "so_pk_from_slice S (owner (m_sign m)) = Some pk" for pk
    by (rule message_verify_iff [OF d that])
  ultimately show ?thesis using d by (cases "so_pk_from_slice S (owner (m_sign m))") auto
qed

theorem verify_outcomes_witness:
  "message_verify sample_sodium sample_crypto (sample_message\<lparr>m_sign := sign_new [9, 9] []\<rparr>) =
     Inl (Panic ''Invalid public key'')"
proof -
  have "so_pk_from_slice sample_sodium (owner (m_sign (sample_message\<lparr>m_sign := sign_new [9, 9] []\<rparr>))) = None"
    by (simp add: sample_sodium_def sign_new_def)
  with verify_outcomes [OF sample_hash_key_accepted] show ?thesis by blast
qed

text \<open>
  The JSON form of a signature, which the application receives, determines its owner and
  its bytes.
\<close>

theorem sign_json_determines_sign:
  "sign_to_json_string s = sign_to_json_string t \<longleftrightarrow> owner s = owner t \<and> sig s = sig t"
  by (cases s; cases t)
    (auto simp: sign_json_to_hex append_delim_eq to_hex_no_quote to_hex_inj)

end
