(* ===== verification/Listener.thy ===== *)
theory Listener
  imports Header Message
begin

text \<open>
  \<open>shardus_net/src/shardus_net_listener.rs\<close>: what a connection does with the bytes a peer
  sends, and the loop that binds, accepts and rebinds.  A connection is one run of \<open>receive\<close>
  on the bytes the peer delivers before the stream ends or fails; each frame of it is handled
  by \<open>handle_frame\<close>, which has one result for every way the loop body can end.
\<close>

section \<open>Parameters and results\<close>

record externals =
  x_sodium :: sodium
  x_codecs :: codecs
  x_uuid_fmt :: "u8 list \<Rightarrow> string"

datatype listener_error = ParseDataAsUtf8Error | SendCompleteError | ReadStreamError

datatype skip_reason = Header_over_limit | Signature_rejected | Length_mismatch

text \<open>
  \<open>Received\<close>: a message for the channel.  \<open>Skipped\<close>: an error is logged and the loop
  continues.  \<open>Frame_error\<close>: the function returns the error.  \<open>Frame_panic\<close>: an \<open>expect\<close>
  fails and the connection's task dies.
\<close>

datatype frame_result =
    Received string "RequestMetadata option"
  | Skipped skip_reason
  | Frame_error listener_error
  | Frame_panic panic

datatype receive_end = Conn_ok | Conn_err listener_error | Conn_panic panic

text \<open>An item of the listener's channel: message, remote address, metadata.\<close>

type_synonym 'addr delivery = "string \<times> 'addr \<times> RequestMetadata option"

section \<open>One frame\<close>

definition HEADER_SIZE_LIMIT_IN_BYTES :: nat where
  "HEADER_SIZE_LIMIT_IN_BYTES = 2 * 2048"

text \<open>From the verified header on.\<close>

definition handle_verified :: "externals \<Rightarrow> Message \<Rightarrow> frame_result" where
  "handle_verified E m =
     (case header_deserialize_factory (m_header_version m) (cursor_new (m_header m)) of
        None \<Rightarrow> Frame_panic (Panic ''Failed to deserialize header'')
      | Some (hdr, _) \<Rightarrow>
          if \<not> header_validate hdr (m_data m) then Skipped Length_mismatch
          else
            (let request_metadata =
                   \<lparr>rm_version = m_header_version m,
                    rm_header_json_string = header_to_json_string (x_uuid_fmt E) hdr,
                    rm_sign_json_string = sign_to_json_string (m_sign m)\<rparr>
             in case header_decompress (x_codecs E) hdr (m_data m) of
                  None \<Rightarrow> Frame_panic (Panic ''Failed to decompress message'')
                | Some decompressed_data_bytes \<Rightarrow>
                    (case from_utf8 decompressed_data_bytes of
                       None \<Rightarrow> Frame_error ParseDataAsUtf8Error
                     | Some msg \<Rightarrow> Received msg (Some request_metadata))))"

definition handle_header_frame :: "externals \<Rightarrow> crypto_static \<Rightarrow> u8 list \<Rightarrow> frame_result" where
  "handle_header_frame E st msg_bytes =
     (case message_deserialize (cursor_new msg_bytes) of
        None \<Rightarrow> Frame_panic (Panic ''Failed to deserialize message'')
      | Some (m, _) \<Rightarrow>
          if HEADER_SIZE_LIMIT_IN_BYTES < length (m_header m) then Skipped Header_over_limit
          else
            (case rbind (get_shardus_crypto_instance st) (\<lambda>sc. message_verify (x_sodium E) sc m) of
               Inl p \<Rightarrow> Frame_panic p
             | Inr verified \<Rightarrow>
                 if \<not> verified then Skipped Signature_rejected else handle_verified E m))"

definition handle_frame :: "externals \<Rightarrow> crypto_static \<Rightarrow> u8 list \<Rightarrow> frame_result" where
  "handle_frame E st buffer =
     (if buffer \<noteq> [] \<and> buffer ! 0 = 1 then handle_header_frame E st (drop 1 buffer)
      else case from_utf8 buffer of
             None \<Rightarrow> Frame_error ParseDataAsUtf8Error
           | Some msg \<Rightarrow> Received msg None)"

section \<open>One connection\<close>

text \<open>The reads of the socket, on the bytes still to come.\<close>

definition stream_read_u32 :: "u8 list \<Rightarrow> (u32 \<times> u8 list) option" where
  "stream_read_u32 s =
     (if length s < 4 then None else Some (u32_from_be_bytes (take 4 s), drop 4 s))"

definition stream_read_exact :: "nat \<Rightarrow> u8 list \<Rightarrow> (u8 list \<times> u8 list) option" where
  "stream_read_exact n s = (if length s < n then None else Some (take n s, drop n s))"

lemma stream_read_u32_shorter:
  "stream_read_u32 s = Some (w, s') \<Longrightarrow> length s' < length s"
  by (auto simp: stream_read_u32_def split: if_splits)

lemma stream_read_exact_shorter:
  "stream_read_exact n s = Some (b, s') \<Longrightarrow> length s' \<le> length s"
  by (auto simp: stream_read_exact_def split: if_splits)

text \<open>
  \<open>alive n\<close> says whether the channel's receiver still exists once this connection has sent
  \<open>n\<close> messages; sending to a dropped receiver is the error \<open>SendCompleteError\<close>.
\<close>

function receive :: "externals \<Rightarrow> crypto_static \<Rightarrow> (nat \<Rightarrow> bool) \<Rightarrow> 'addr \<Rightarrow> u8 list \<Rightarrow>
    'addr delivery list \<Rightarrow> receive_end \<times> 'addr delivery list" where
  "receive E st alive remote_addr stream sent =
     (case stream_read_u32 stream of
        None \<Rightarrow> (Conn_ok, sent)
      | Some (msg_len, stream1) \<Rightarrow>
          (case stream_read_exact (unat msg_len) stream1 of
             None \<Rightarrow> (Conn_err ReadStreamError, sent)
           | Some (buffer, stream2) \<Rightarrow>
               (case handle_frame E st buffer of
                  Received msg metadata \<Rightarrow>
                    if alive (length sent)
                    then receive E st alive remote_addr stream2 (sent @ [(msg, remote_addr, metadata)])
                    else (Conn_err SendCompleteError, sent)
                | Skipped _ \<Rightarrow> receive E st alive remote_addr stream2 sent
                | Frame_error e \<Rightarrow> (Conn_err e, sent)
                | Frame_panic p \<Rightarrow> (Conn_panic p, sent))))"
  by pat_completeness auto
termination
  by (relation "measure (\<lambda>(E, st, alive, remote_addr, stream, sent). length stream)")
    (auto dest!: stream_read_u32_shorter stream_read_exact_shorter)

declare receive.simps [simp del]

section \<open>The bind and accept loop\<close>

text \<open>
  \<open>bind_to_socket\<close> tries to bind, hands the listener to \<open>accept_connections\<close>, and sleeps ten
  seconds after either fails.  Accepting spawns one task per connection and goes on.
\<close>

datatype phase = Binding | Accepting | Sleeping nat

record 'addr accept_loop =
  al_phase :: phase
  al_spawned :: "'addr list"
  al_errors :: "string list"

datatype 'addr loop_event = Bind_ok | Bind_err | Accepted 'addr | Accept_err | Slept

definition accept_loop_init :: "'addr accept_loop" where
  "accept_loop_init = \<lparr>al_phase = Binding, al_spawned = [], al_errors = []\<rparr>"

inductive loop_step :: "'addr accept_loop \<Rightarrow> 'addr loop_event \<Rightarrow> 'addr accept_loop \<Rightarrow> bool" where
  bind_ok: "al_phase l = Binding \<Longrightarrow> loop_step l Bind_ok (l\<lparr>al_phase := Accepting\<rparr>)"
| bind_err: "al_phase l = Binding \<Longrightarrow>
    loop_step l Bind_err (l\<lparr>al_phase := Sleeping 10, al_errors := al_errors l @ [''Failed to listen'']\<rparr>)"
| accepted: "al_phase l = Accepting \<Longrightarrow>
    loop_step l (Accepted a) (l\<lparr>al_spawned := al_spawned l @ [a]\<rparr>)"
| accept_err: "al_phase l = Accepting \<Longrightarrow>
    loop_step l Accept_err
      (l\<lparr>al_phase := Sleeping 10, al_errors := al_errors l @ [''Failed to accept connection'']\<rparr>)"
| slept: "al_phase l = Sleeping n \<Longrightarrow> loop_step l Slept (l\<lparr>al_phase := Binding\<rparr>)"

inductive loop_reachable :: "'addr accept_loop \<Rightarrow> bool" where
  start: "loop_reachable accept_loop_init"
| step: "loop_reachable l \<Longrightarrow> loop_step l e l' \<Longrightarrow> loop_reachable l'"

section \<open>Lemmas on frames\<close>

lemma handle_frame_empty [simp]: "handle_frame E st [] = Received [] None"
  by (simp add: handle_frame_def from_utf8_def)

lemma handle_frame_header [simp]:
  "handle_frame E st (1 # bs) = handle_header_frame E st bs"
  by (simp add: handle_frame_def)

lemma handle_frame_plain:
  "b \<noteq> 1 \<Longrightarrow> handle_frame E st (b # bs) =
     (case from_utf8 (b # bs) of None \<Rightarrow> Frame_error ParseDataAsUtf8Error
      | Some msg \<Rightarrow> Received msg None)"
  by (simp add: handle_frame_def)

lemma handle_verified_Received:
  "handle_verified E m = Received msg md \<longleftrightarrow>
     (\<exists>hdr c. header_deserialize_factory (m_header_version m) (cursor_new (m_header m)) = Some (hdr, c) \<and>
        header_validate hdr (m_data m) \<and> string_ok msg \<and> m_data m = into_bytes msg \<and>
        md = Some \<lparr>rm_version = m_header_version m,
                   rm_header_json_string = header_to_json_string (x_uuid_fmt E) hdr,
                   rm_sign_json_string = sign_to_json_string (m_sign m)\<rparr>)"
  by (auto simp: handle_verified_def Let_def from_utf8_eq_Some into_bytes_inj
      split: option.splits if_splits)

lemma handle_header_frame_Received:
  "handle_header_frame E st bs = Received msg md \<longleftrightarrow>
     (\<exists>m c sc. message_deserialize (cursor_new bs) = Some (m, c) \<and>
        length (m_header m) \<le> HEADER_SIZE_LIMIT_IN_BYTES \<and>
        SHARDUS_CRYPTO_INSTANCE st = Some sc \<and>
        message_verify (x_sodium E) sc m = Inr True \<and>
        handle_verified E m = Received msg md)"
  by (auto simp: handle_header_frame_def get_shardus_crypto_instance_def rust_simps
      split: option.splits if_splits sum.splits)

text \<open>Whatever is delivered is valid UTF-8.\<close>

lemma handle_frame_string_ok: "handle_frame E st b = Received msg md \<Longrightarrow> string_ok msg"
  by (auto simp: handle_frame_def handle_header_frame_Received handle_verified_Received
      from_utf8_eq_Some split: if_splits option.splits)

lemma handle_frame_cases_metadata:
  assumes "handle_frame E st b = Received msg (Some md)"
  shows "\<exists>bs. b = 1 # bs \<and> handle_header_frame E st bs = Received msg (Some md)"
  using assms by (cases b) (auto simp: handle_frame_def split: if_splits option.splits)

section \<open>Frames on the wire\<close>

text \<open>What \<open>write_data_to_stream\<close> puts on the wire for one frame: its length, big-endian, and it.\<close>

definition wire_frame :: "u8 list \<Rightarrow> u8 list" where
  "wire_frame f = u32_to_be_bytes (as_u32 (length f)) @ f"

lemma stream_read_wire_frame:
  assumes "blob_ok f"
  shows "stream_read_u32 (wire_frame f @ r) = Some (as_u32 (length f), f @ r)"
    and "stream_read_exact (unat (as_u32 (length f))) (f @ r) = Some (f, r)"
  using assms by (simp_all add: stream_read_u32_def stream_read_exact_def wire_frame_def blob_ok_def)

text \<open>And back: what the two reads take off the stream is a frame.\<close>

lemma stream_reads_frame:
  assumes "stream_read_u32 s = Some (n, s1)" "stream_read_exact (unat n) s1 = Some (b, s2)"
  shows "s = wire_frame b @ s2" "blob_ok b"
proof -
  have b: "length b = unat n" "s1 = b @ s2"
    using assms(2) by (auto simp: stream_read_exact_def split: if_splits)
  have n: "4 \<le> length s" "n = u32_from_be_bytes (take 4 s)" "s1 = drop 4 s"
    using assms(1) by (auto simp: stream_read_u32_def split: if_splits)
  then have "u32_to_be_bytes n = take 4 s"
    by (simp add: u32_to_be_bytes_def u32_from_be_bytes_def u32_le_bytes_inverse)
  then show "s = wire_frame b @ s2" "blob_ok b"
    using b n(3) append_take_drop_id [of 4 s] by (simp_all add: wire_frame_def blob_ok_def)
qed

lemma receive_wire_frame:
  assumes "blob_ok f"
  shows "receive E st alive ra (wire_frame f @ r) sent =
     (case handle_frame E st f of
        Received msg md \<Rightarrow>
          if alive (length sent) then receive E st alive ra r (sent @ [(msg, ra, md)])
          else (Conn_err SendCompleteError, sent)
      | Skipped _ \<Rightarrow> receive E st alive ra r sent
      | Frame_error e \<Rightarrow> (Conn_err e, sent)
      | Frame_panic p \<Rightarrow> (Conn_panic p, sent))"
  by (subst receive.simps) (simp add: stream_read_wire_frame [OF assms])

lemma receive_short: "length s < 4 \<Longrightarrow> receive E st alive ra s sent = (Conn_ok, sent)"
  by (subst receive.simps) (simp add: stream_read_u32_def)

subsection \<open>The reference reading of a stream\<close>

text \<open>
  A stream is read as whole frames and a rest: \<open>split_frames\<close> cuts it, and says whether the
  stream ended inside a frame body.  \<open>run_frames\<close> is the specification of a connection: the
  frames in order, up to the first one that ends it.
\<close>

function split_frames :: "u8 list \<Rightarrow> u8 list list \<times> bool" where
  "split_frames stream =
     (case stream_read_u32 stream of
        None \<Rightarrow> ([], False)
      | Some (msg_len, s1) \<Rightarrow>
          (case stream_read_exact (unat msg_len) s1 of
             None \<Rightarrow> ([], True)
           | Some (buffer, s2) \<Rightarrow> (let (fs, trunc) = split_frames s2 in (buffer # fs, trunc))))"
  by pat_completeness auto
termination
  by (relation "measure length") (auto dest!: stream_read_u32_shorter stream_read_exact_shorter)

declare split_frames.simps [simp del]

fun run_frames :: "externals \<Rightarrow> crypto_static \<Rightarrow> (nat \<Rightarrow> bool) \<Rightarrow> 'addr \<Rightarrow> u8 list list \<Rightarrow> bool \<Rightarrow>
    'addr delivery list \<Rightarrow> receive_end \<times> 'addr delivery list" where
  "run_frames E st alive ra [] trunc sent = (if trunc then Conn_err ReadStreamError else Conn_ok, sent)"
| "run_frames E st alive ra (f # fs) trunc sent =
     (case handle_frame E st f of
        Received msg md \<Rightarrow>
          if alive (length sent) then run_frames E st alive ra fs trunc (sent @ [(msg, ra, md)])
          else (Conn_err SendCompleteError, sent)
      | Skipped _ \<Rightarrow> run_frames E st alive ra fs trunc sent
      | Frame_error e \<Rightarrow> (Conn_err e, sent)
      | Frame_panic p \<Rightarrow> (Conn_panic p, sent))"

lemma receive_run_frames:
  "receive E st alive ra s sent =
     run_frames E st alive ra (fst (split_frames s)) (snd (split_frames s)) sent"
proof (induction E st alive ra s sent rule: receive.induct)
  case (1 E st alive ra s sent)
  note unfold = receive.simps [of E st alive ra s sent] split_frames.simps [of s]
  show ?case
  proof (cases "stream_read_u32 s")
    case None
    then show ?thesis by (simp add: unfold)
  next
    case (Some p)
    then obtain n s1 where p: "stream_read_u32 s = Some (n, s1)" by (cases p) auto
    show ?thesis
    proof (cases "stream_read_exact (unat n) s1")
      case None
      with p show ?thesis by (simp add: unfold)
    next
      case (Some q)
      then obtain b s2 where q: "stream_read_exact (unat n) s1 = Some (b, s2)" by (cases q) auto
      from p q "1.IH" show ?thesis
        by (auto simp: unfold case_prod_unfold Let_def split: frame_result.splits)
    qed
  qed
qed

lemma split_frames_wire_frame:
  "blob_ok f \<Longrightarrow> split_frames (wire_frame f @ r) =
     (f # fst (split_frames r), snd (split_frames r))"
  by (subst split_frames.simps) (simp add: stream_read_wire_frame case_prod_unfold Let_def)

lemma split_frames_wire:
  assumes "\<forall>f \<in> set fs. blob_ok f"
  shows "split_frames (concat (map wire_frame fs) @ r) =
    (fs @ fst (split_frames r), snd (split_frames r))"
  using assms by (induction fs) (simp_all add: split_frames_wire_frame)

lemma split_frames_Nil [simp]: "split_frames [] = ([], False)"
  by (subst split_frames.simps) (simp add: stream_read_u32_def)

text \<open>The cut undoes the framing: the frames, framed again, are the bytes that were cut.\<close>

lemma split_frames_sound:
  "\<exists>rest. s = concat (map wire_frame (fst (split_frames s))) @ rest \<and>
     (\<forall>f \<in> set (fst (split_frames s)). blob_ok f)"
proof (induction s rule: split_frames.induct)
  case (1 s)
  show ?case
  proof (cases "stream_read_u32 s")
    case None
    then show ?thesis by (simp add: split_frames.simps [of s])
  next
    case (Some p)
    then obtain n s1 where p: "stream_read_u32 s = Some (n, s1)" by (cases p) auto
    show ?thesis
    proof (cases "stream_read_exact (unat n) s1")
      case None
      with p show ?thesis by (simp add: split_frames.simps [of s])
    next
      case (Some q)
      then obtain b s2 where q: "stream_read_exact (unat n) s1 = Some (b, s2)" by (cases q) auto
      obtain rest where IH: "s2 = concat (map wire_frame (fst (split_frames s2))) @ rest"
        "\<forall>f \<in> set (fst (split_frames s2)). blob_ok f"
        using "1.IH" [OF p refl q refl] by blast
      note s = stream_reads_frame [OF p q]
      have "split_frames s = (b # fst (split_frames s2), snd (split_frames s2))"
        using s by (simp add: split_frames_wire_frame)
      with s IH show ?thesis by auto
    qed
  qed
qed

subsection \<open>What a connection sends to the channel\<close>

lemma run_frames_extends:
  "\<exists>new. snd (run_frames E st alive ra fs trunc sent) = sent @ new"
proof (induction fs arbitrary: sent)
  case (Cons f fs)
  show ?case
    using Cons.IH by (auto split: frame_result.splits) (metis append.assoc)
qed simp

text \<open>Each delivered item is the result of one of the frames.\<close>

lemma run_frames_delivered:
  assumes "d \<in> set (snd (run_frames E st alive ra fs trunc sent))" "d \<notin> set sent"
  shows "\<exists>f \<in> set fs. \<exists>msg md. handle_frame E st f = Received msg md \<and> d = (msg, ra, md)"
  using assms
proof (induction fs arbitrary: sent)
  case (Cons f fs)
  then show ?case
    by (cases "handle_frame E st f") (fastforce split: if_splits)+
qed simp

lemma run_frames_all_received:
  assumes "\<forall>n. alive n" "\<forall>f \<in> set fs. \<exists>msg md. handle_frame E st f = Received msg md"
  shows "run_frames E st alive ra fs trunc sent =
    (if trunc then Conn_err ReadStreamError else Conn_ok,
     sent @ map (\<lambda>f. case handle_frame E st f of Received msg md \<Rightarrow> (msg, ra, md)) fs)"
  using assms by (induction fs arbitrary: sent) auto

lemma run_frames_append_ok:
  assumes "\<forall>n. alive n"
    "\<forall>f \<in> set fs. (\<exists>msg md. handle_frame E st f = Received msg md) \<or> (\<exists>r. handle_frame E st f = Skipped r)"
  shows "run_frames E st alive ra (fs @ gs) trunc sent =
    run_frames E st alive ra gs trunc (snd (run_frames E st alive ra fs False sent))"
  using assms by (induction fs arbitrary: sent) auto

section \<open>Lemmas on the accept loop\<close>

inductive_cases step_from: "loop_step l e l'"

inductive_simps bind_ok_step: "loop_step l Bind_ok l'"
inductive_simps bind_err_step: "loop_step l Bind_err l'"
inductive_simps accepted_step: "loop_step l (Accepted a) l'"
inductive_simps accept_err_step: "loop_step l Accept_err l'"
inductive_simps slept_step: "loop_step l Slept l'"

lemmas loop_steps = bind_ok_step bind_err_step accepted_step accept_err_step slept_step

text \<open>A step never undoes the spawning of a connection.\<close>

lemma loop_step_spawned: "loop_step l e l' \<Longrightarrow> \<exists>new. al_spawned l' = al_spawned l @ new"
  by (erule step_from) auto

definition loop_inv :: "'addr accept_loop \<Rightarrow> bool" where
  "loop_inv l \<longleftrightarrow> (case al_phase l of Sleeping n \<Rightarrow> n = 10 \<and> al_errors l \<noteq> [] | _ \<Rightarrow> True)"

lemma loop_reachable_inv: "loop_reachable l \<Longrightarrow> loop_inv l"
proof (induction rule: loop_reachable.induct)
  case start
  then show ?case by (simp add: loop_inv_def accept_loop_init_def)
next
  case (step l e l')
  then show ?case by (auto simp: loop_inv_def elim!: step_from)
qed

section \<open>Lemmas on frames that are accepted\<close>

lemma handle_frame_signed:
  assumes "message_ok m" "m_header_version m = 1" "m_header m = header_v1_serialize h" "header_v1_ok h"
    and "length (m_header m) \<le> HEADER_SIZE_LIMIT_IN_BYTES" "SHARDUS_CRYPTO_INSTANCE st = Some sc"
    and "message_verify (x_sodium E) sc m = Inr True"
    and "m_data m = into_bytes msg" "string_ok msg" "unat (message_length h) = length msg"
  shows "handle_frame E st (1 # message_serialize m) = Received msg (Some
    \<lparr>rm_version = 1, rm_header_json_string = header_to_json_string (x_uuid_fmt E) (V1 h),
     rm_sign_json_string = sign_to_json_string (m_sign m)\<rparr>)"
  using assms message_wire.dec_new_exact [OF assms(1)] header_wire.dec_new_exact [OF assms(4)]
  by (simp add: handle_header_frame_Received handle_verified_Received
      header_deserialize_factory_eq_Some header_v1_validate_def)

text \<open>A message whose header is over the limit is skipped, before its signature is looked at.\<close>

lemma handle_frame_over_limit:
  assumes "message_ok m" "HEADER_SIZE_LIMIT_IN_BYTES < length (m_header m)"
  shows "handle_frame E st (1 # message_serialize m) = Skipped Header_over_limit"
  using assms message_wire.dec_new_exact [OF assms(1)] by (simp add: handle_header_frame_def)

text \<open>A text that does not start with the marker is received as it is.\<close>

lemma handle_frame_text:
  assumes "string_ok msg" "take 1 (into_bytes msg) \<noteq> [1]"
  shows "handle_frame E st (into_bytes msg) = Received msg None"
proof (cases "into_bytes msg")
  case (Cons b bs)
  have "b \<noteq> 1" using assms(2) Cons by simp
  have "from_utf8 (b # bs) = Some msg" using assms(1) by (simp flip: Cons)
  with \<open>b \<noteq> 1\<close> show ?thesis unfolding Cons by (simp add: handle_frame_plain)
qed (simp add: into_bytes_def)

text \<open>A frame of the header marker and too few bytes for the fixed part of a message.\<close>

lemma message_deserialize_short:
  assumes "length bs < 17"
  shows "message_deserialize (cursor_new bs) = None"
proof (rule ccontr)
  assume "message_deserialize (cursor_new bs) \<noteq> None"
  then obtain m c where "message_deserialize (cursor_at [] bs) = Some (m, c)"
    by (auto simp: cursor_new_at)
  then obtain r where "bs = message_serialize m @ r" by (auto simp: message_wire.dec_iff)
  with assms show False by (simp add: length_message_serialize)
qed

section \<open>Small instances\<close>

definition sample_externals :: externals where
  "sample_externals = \<lparr>x_sodium = sample_sodium, x_codecs = sample_codecs, x_uuid_fmt = to_hex\<rparr>"

text \<open>A message that says ''hi'', signed with the sample key, and one with a wrong signature.\<close>

definition hi_header :: HeaderV1 where
  "hi_header = sample_header\<lparr>message_length := 2\<rparr>"

definition hi_unsigned :: Message where
  "hi_unsigned = message_new_unsigned 1 (header_v1_serialize hi_header) (into_bytes ''hi'')"

definition hi_message :: Message where
  "hi_message = hi_unsigned\<lparr>m_sign := sign_new [9] ([9] @ message_serialize_unsigned hi_unsigned)\<rparr>"

definition forged_message :: Message where
  "forged_message = hi_unsigned\<lparr>m_sign := sign_new [8] [9]\<rparr>"

lemma hi_header_ok: "header_v1_ok hi_header"
  using sample_header_ok by (simp add: hi_header_def header_v1_ok_def)

lemma length_hi_header: "length (header_v1_serialize hi_header) = 40"
  by (simp add: length_header_v1_serialize hi_header_def sample_header_def)

lemma hi_message_ok: "message_ok hi_message" "message_ok forged_message"
  by (simp_all add: hi_message_def forged_message_def hi_unsigned_def message_new_unsigned_def
      message_ok_def unsigned_ok_def sign_ok_def blob_ok_def sign_new_def length_hi_header
      serialize_unsigned_blobs)

lemma hi_message_verifies: "message_verify sample_sodium sample_crypto hi_message = Inr True"
  by (simp add: message_verify_eq_Inr hi_message_def sample_sodium_def sign_new_def)

lemma forged_message_rejected: "message_verify sample_sodium sample_crypto forged_message = Inr False"
  by (simp add: message_verify_eq_Inr forged_message_def sample_sodium_def sign_new_def)

lemma hi_frame: "handle_frame sample_externals sample_static (1 # message_serialize hi_message) =
    Received ''hi'' (Some \<lparr>rm_version = 1, rm_header_json_string = header_to_json_string to_hex (V1 hi_header),
      rm_sign_json_string = sign_to_json_string (m_sign hi_message)\<rparr>)"
proof -
  have "m_header_version hi_message = 1" "m_header hi_message = header_v1_serialize hi_header"
    "length (m_header hi_message) \<le> HEADER_SIZE_LIMIT_IN_BYTES"
    "SHARDUS_CRYPTO_INSTANCE sample_static = Some sample_crypto"
    "message_verify (x_sodium sample_externals) sample_crypto hi_message = Inr True"
    "m_data hi_message = into_bytes ''hi''" "string_ok ''hi''"
    "unat (message_length hi_header) = length ''hi''"
    using hi_message_verifies
    by (simp_all add: hi_message_def hi_unsigned_def message_new_unsigned_def length_hi_header
        HEADER_SIZE_LIMIT_IN_BYTES_def sample_static_def sample_externals_def string_ok_def byte_of_def)
      (simp add: hi_header_def)
  from handle_frame_signed [OF hi_message_ok(1) this(1,2) hi_header_ok this(3-8)] show ?thesis
    by (simp add: sample_externals_def)
qed

lemma forged_frame: "handle_frame sample_externals sample_static (1 # message_serialize forged_message) =
    Skipped Signature_rejected"
  using message_wire.dec_new_exact [OF hi_message_ok(2)] forged_message_rejected length_hi_header
  by (simp add: handle_header_frame_def sample_externals_def sample_static_def
      get_shardus_crypto_instance_def expect_def forged_message_def hi_unsigned_def
      message_new_unsigned_def HEADER_SIZE_LIMIT_IN_BYTES_def)

lemma blob_ok_hi: "blob_ok (1 # message_serialize hi_message)" "blob_ok (1 # message_serialize forged_message)"
  by (simp_all add: blob_ok_def length_message_serialize hi_message_def forged_message_def hi_unsigned_def
      message_new_unsigned_def sign_new_def length_hi_header serialize_unsigned_blobs)

text \<open>What a frame holds whose text is delivered with metadata.\<close>

lemma handle_frame_authentic:
  assumes "handle_frame E st f = Received msg (Some md)"
  shows "\<exists>m extra h sc. f = 1 # message_serialize m @ extra \<and>
    SHARDUS_CRYPTO_INSTANCE st = Some sc \<and> message_verify (x_sodium E) sc m = Inr True \<and>
    m_header_version m = 1 \<and> length (m_header m) \<le> 4096 \<and>
    (\<exists>r. m_header m = header_v1_serialize h @ r) \<and>
    m_data m = into_bytes msg \<and> string_ok msg \<and> unat (message_length h) = length msg \<and>
    md = \<lparr>rm_version = 1, rm_header_json_string = header_to_json_string (x_uuid_fmt E) (V1 h),
          rm_sign_json_string = sign_to_json_string (m_sign m)\<rparr>"
proof -
  obtain bs where bs: "f = 1 # bs" "handle_header_frame E st bs = Received msg (Some md)"
    using handle_frame_cases_metadata [OF assms] by blast
  from bs(2) obtain m c sc where m: "message_deserialize (cursor_at [] bs) = Some (m, c)"
    "length (m_header m) \<le> HEADER_SIZE_LIMIT_IN_BYTES" "SHARDUS_CRYPTO_INSTANCE st = Some sc"
    "message_verify (x_sodium E) sc m = Inr True" "handle_verified E m = Received msg (Some md)"
    by (auto simp: handle_header_frame_Received cursor_new_at)
  from m(1) obtain extra where extra: "bs = message_serialize m @ extra"
    by (auto simp: message_wire.dec_iff)
  from m(5) obtain h c' where h: "m_header_version m = 1"
    "header_v1_deserialize (cursor_at [] (m_header m)) = Some (h, c')"
    "header_v1_validate h (m_data m)" "string_ok msg" "m_data m = into_bytes msg"
    "md = \<lparr>rm_version = 1, rm_header_json_string = header_to_json_string (x_uuid_fmt E) (V1 h),
          rm_sign_json_string = sign_to_json_string (m_sign m)\<rparr>"
    by (auto simp: handle_verified_Received header_deserialize_factory_eq_Some cursor_new_at)
  from h(2) obtain r where r: "m_header m = header_v1_serialize h @ r"
    by (auto simp: header_wire.dec_iff)
  have "unat (message_length h) = length msg"
    using h(3,5) by (simp add: header_v1_validate_def split: if_splits)
  moreover have "f = 1 # message_serialize m @ extra" using bs(1) extra by simp
  moreover have "length (m_header m) \<le> 4096" using m(2) by (simp add: HEADER_SIZE_LIMIT_IN_BYTES_def)
  ultimately show ?thesis using m(3,4) h r by blast
qed

section \<open>Properties\<close>

text \<open>
  C9. The read loop of a connection implements its specification: it handles, in order, the
  frames that the stream consists of, up to the first that ends the connection; the frames it
  cuts are those whose length-prefixed forms, one after the other, are the stream, up to a rest
  that holds no whole frame.
\<close>

theorem receive_refines_frames:
  "receive E st alive ra s sent =
     run_frames E st alive ra (fst (split_frames s)) (snd (split_frames s)) sent \<and>
   (\<exists>rest. s = concat (map wire_frame (fst (split_frames s))) @ rest \<and>
     fst (split_frames rest) = [] \<and> snd (split_frames rest) = snd (split_frames s))"
proof -
  obtain rest where s: "s = concat (map wire_frame (fst (split_frames s))) @ rest"
    and ok: "\<forall>f \<in> set (fst (split_frames s)). blob_ok f"
    using split_frames_sound by blast
  have "split_frames s = (fst (split_frames s) @ fst (split_frames rest), snd (split_frames rest))"
    using split_frames_wire [OF ok, of rest] s by simp
  then have "fst (split_frames rest) = []" "snd (split_frames rest) = snd (split_frames s)"
    by (metis append_self_conv fst_conv, metis snd_conv)
  with s show ?thesis by (simp only: receive_run_frames) blast
qed

text \<open>
  C8. Authenticity: whatever a connection delivers with metadata came in a frame of that
  connection that holds an encoded message; the message's signature verified under the
  process's hash key, its data is the delivered text, its header is a version 1 header of at
  most the limit that states the text's length, and the metadata shows this header and this
  signature.
\<close>

theorem delivered_metadata_authentic:
  assumes "(msg, ra', Some md) \<in> set (snd (receive E st alive ra stream []))"
  shows "\<exists>m extra h sc. 1 # message_serialize m @ extra \<in> set (fst (split_frames stream)) \<and>
    SHARDUS_CRYPTO_INSTANCE st = Some sc \<and> message_verify (x_sodium E) sc m = Inr True \<and>
    m_header_version m = 1 \<and> length (m_header m) \<le> 4096 \<and>
    (\<exists>r. m_header m = header_v1_serialize h @ r) \<and>
    m_data m = into_bytes msg \<and> string_ok msg \<and> unat (message_length h) = length msg \<and>
    md = \<lparr>rm_version = 1, rm_header_json_string = header_to_json_string (x_uuid_fmt E) (V1 h),
          rm_sign_json_string = sign_to_json_string (m_sign m)\<rparr> \<and> ra' = ra"
proof -
  obtain f where f: "f \<in> set (fst (split_frames stream))" "handle_frame E st f = Received msg (Some md)"
    and ra: "ra' = ra"
    using run_frames_delivered [of "(msg, ra', Some md)" E st alive ra "fst (split_frames stream)" _ "[]"]
      assms by (auto simp: receive_run_frames)
  from handle_frame_authentic [OF f(2)] f(1) ra show ?thesis by blast
qed

theorem delivered_metadata_authentic_witness:
  "\<exists>m. message_verify sample_sodium sample_crypto m = Inr True \<and> m_data m = into_bytes ''hi'' \<and>
     (\<exists>h r. m_header m = header_v1_serialize h @ r \<and> unat (message_length h) = 2)"
proof -
  let ?s = "wire_frame (1 # message_serialize hi_message)"
  have "receive sample_externals sample_static (\<lambda>_. True) (0 :: nat) (?s @ []) [] = (Conn_ok,
      [(''hi'', 0, Some \<lparr>rm_version = 1, rm_header_json_string = header_to_json_string to_hex (V1 hi_header),
        rm_sign_json_string = sign_to_json_string (m_sign hi_message)\<rparr>)])"
    by (simp only: receive_wire_frame [OF blob_ok_hi(1)] hi_frame) (simp add: receive_short)
  then have "(''hi'', 0, Some \<lparr>rm_version = 1, rm_header_json_string = header_to_json_string to_hex (V1 hi_header),
        rm_sign_json_string = sign_to_json_string (m_sign hi_message)\<rparr>) \<in>
      set (snd (receive sample_externals sample_static (\<lambda>_. True) (0 :: nat) ?s []))" by simp
  from delivered_metadata_authentic [OF this] obtain m h r sc where
    "SHARDUS_CRYPTO_INSTANCE sample_static = Some sc"
    "message_verify (x_sodium sample_externals) sc m = Inr True" "m_data m = into_bytes ''hi''"
    "m_header m = header_v1_serialize h @ r" "unat (message_length h) = length ''hi''"
    by blast
  then show ?thesis
    by (intro exI [of _ m] conjI exI [of _ h] exI [of _ r])
      (simp_all add: sample_static_def sample_externals_def)
qed

text \<open>
  C28. A frame that is skipped - its header over the limit, its signature rejected, or its
  length wrong - costs only itself: the connection goes on as if it had not been there.
\<close>

theorem skipped_frame_costs_only_itself:
  assumes "\<forall>g \<in> set fs. blob_ok g" "blob_ok f" "handle_frame E st f = Skipped r"
  shows "receive E st alive ra (concat (map wire_frame fs) @ wire_frame f @ rest) sent =
    receive E st alive ra (concat (map wire_frame fs) @ rest) sent"
  using assms
  by (induction fs arbitrary: sent) (auto simp: receive_wire_frame split: frame_result.splits)

theorem skipped_frame_costs_only_itself_witness:
  "receive sample_externals sample_static (\<lambda>_. True) (0 :: nat)
     (wire_frame (into_bytes ''ab'') @ wire_frame (1 # message_serialize forged_message) @ [0, 0, 0, 9]) [] =
   receive sample_externals sample_static (\<lambda>_. True) 0 (wire_frame (into_bytes ''ab'') @ [0, 0, 0, 9]) []"
proof -
  have "\<forall>g \<in> set [into_bytes ''ab'']. blob_ok g" by (simp add: blob_ok_def)
  from skipped_frame_costs_only_itself [OF this blob_ok_hi(2) forged_frame,
      where alive = "\<lambda>_. True" and ra = "0 :: nat" and rest = "[0, 0, 0, 9]" and sent = "[]"]
  show ?thesis by simp
qed

text \<open>
  C24. Plain messages are delivered: strings that do not start with the header marker come out
  as they went in, in order and without metadata, and the connection ends well.
\<close>

theorem plain_messages_delivered:
  assumes "\<forall>msg \<in> set msgs. string_ok msg \<and> length msg < 2 ^ 32 \<and> take 1 (into_bytes msg) \<noteq> [1]"
    and "\<forall>n. alive n"
  shows "receive E st alive ra (concat (map (\<lambda>msg. wire_frame (into_bytes msg)) msgs)) [] =
    (Conn_ok, map (\<lambda>msg. (msg, ra, None)) msgs)"
proof -
  have plain: "handle_frame E st (into_bytes msg) = Received msg None" if "msg \<in> set msgs" for msg
    using assms(1) that by (intro handle_frame_text) auto
  have ok: "\<forall>f \<in> set (map into_bytes msgs). blob_ok f"
    using assms(1) by (auto simp: blob_ok_def)
  have "concat (map wire_frame (map into_bytes msgs)) =
      concat (map (\<lambda>msg. wire_frame (into_bytes msg)) msgs)"
    by (simp add: comp_def)
  with split_frames_wire [OF ok, of "[]"]
  have "split_frames (concat (map (\<lambda>msg. wire_frame (into_bytes msg)) msgs)) = (map into_bytes msgs, False)"
    by simp
  moreover have "run_frames E st alive ra (map into_bytes msgs) False [] =
      (Conn_ok, [] @ map (\<lambda>f. case handle_frame E st f of Received msg md \<Rightarrow> (msg, ra, md)) (map into_bytes msgs))"
    by (subst run_frames_all_received [OF assms(2)]) (auto simp: plain)
  ultimately show ?thesis by (simp add: receive_run_frames plain)
qed

theorem plain_messages_delivered_witness:
  "receive sample_externals sample_static (\<lambda>_. True) (0 :: nat)
     (concat (map (\<lambda>msg. wire_frame (into_bytes msg)) [''ab'', [], ''c''])) [] =
   (Conn_ok, [(''ab'', 0, None), ([], 0, None), (''c'', 0, None)])"
proof -
  have "\<forall>msg \<in> set [''ab'', [], ''c'']. string_ok msg \<and> length msg < 2 ^ 32 \<and> take 1 (into_bytes msg) \<noteq> [1]"
    by (simp add: string_ok_def byte_of_def into_bytes_def)
  from plain_messages_delivered [OF this, of "\<lambda>_. True"] show ?thesis by simp
qed

text \<open>
  C25. The marker is in band: a plain message whose first byte is 1 is never delivered as the
  plain message it was sent as, and when it has fewer than eighteen bytes it makes the receiving
  task panic, which loses every frame behind it on the connection.
\<close>

theorem plain_message_with_marker_lost:
  assumes "into_bytes msg = 1 # bs" "length msg < 2 ^ 32"
  shows "handle_frame E st (into_bytes msg) \<noteq> Received out None \<and>
    (length msg < 18 \<longrightarrow>
      receive E st alive ra (wire_frame (into_bytes msg) @ rest) sent =
        (Conn_panic (Panic ''Failed to deserialize message''), sent))"
proof -
  have len: "length msg = Suc (length bs)" using arg_cong [OF assms(1), of length] by simp
  have "handle_frame E st (into_bytes msg) \<noteq> Received out None"
    using assms(1) by (auto simp: handle_header_frame_Received handle_verified_Received)
  moreover have "handle_frame E st (into_bytes msg) =
      Frame_panic (Panic ''Failed to deserialize message'')" if "length msg < 18"
    using assms(1) that len message_deserialize_short [of bs] by (simp add: handle_header_frame_def)
  moreover have "blob_ok (into_bytes msg)" using assms(2) by (simp add: blob_ok_def)
  ultimately show ?thesis by (simp add: receive_wire_frame)
qed

theorem plain_message_with_marker_lost_witness:
  "receive sample_externals sample_static (\<lambda>_. True) (0 :: nat)
     (wire_frame (into_bytes [CHR 0x01, CHR ''x'']) @ wire_frame (into_bytes ''ab'')) [] =
   (Conn_panic (Panic ''Failed to deserialize message''), [])"
proof -
  have "into_bytes [CHR 0x01, CHR ''x''] = 1 # into_bytes ''x''"
    by (simp add: into_bytes_def byte_of_def)
  from plain_message_with_marker_lost [OF this, of sample_externals sample_static _ "\<lambda>_. True"
      "0 :: nat" "wire_frame (into_bytes ''ab'')" "[]"] show ?thesis by simp
qed

text \<open>
  The listener does not stop: from every state its loop can reach, it can get back to
  accepting connections, keeping the tasks it has spawned; and it only ever sleeps ten seconds,
  after an error.
\<close>

theorem listener_returns_to_accepting:
  assumes "loop_reachable l"
  shows "(\<exists>l' new. (\<lambda>x y. \<exists>e. loop_step x e y)\<^sup>*\<^sup>* l l' \<and> al_phase l' = Accepting \<and>
      al_spawned l' = al_spawned l @ new) \<and>
    (\<forall>n. al_phase l = Sleeping n \<longrightarrow> n = 10 \<and> al_errors l \<noteq> [])"
proof -
  let ?S = "\<lambda>x y. \<exists>e. loop_step x e y"
  have bind: "?S k (k\<lparr>al_phase := Accepting\<rparr>)" if "al_phase k = Binding" for k :: "'a accept_loop"
    using loop_step.bind_ok [OF that] by blast
  have "\<exists>l'. ?S\<^sup>*\<^sup>* l l' \<and> al_phase l' = Accepting \<and> al_spawned l' = al_spawned l"
  proof (cases "al_phase l")
    case Binding
    from r_into_rtranclp [of ?S, OF bind [OF this]] show ?thesis by fastforce
  next
    case Accepting
    then show ?thesis by blast
  next
    case (Sleeping n)
    have 1: "?S l (l\<lparr>al_phase := Binding\<rparr>)" using loop_step.slept [OF Sleeping] by blast
    have 2: "?S (l\<lparr>al_phase := Binding\<rparr>) (l\<lparr>al_phase := Binding\<rparr>\<lparr>al_phase := Accepting\<rparr>)"
      by (rule bind) simp
    from converse_rtranclp_into_rtranclp [of ?S, OF 1 r_into_rtranclp [of ?S, OF 2]]
    show ?thesis by fastforce
  qed
  with loop_reachable_inv [OF assms] show ?thesis
    by (auto simp: loop_inv_def split: phase.splits)
qed

theorem listener_returns_to_accepting_witness:
  "\<exists>l'. (\<lambda>x y. \<exists>e. loop_step x e y)\<^sup>*\<^sup>* (accept_loop_init :: nat accept_loop) l' \<and> al_phase l' = Accepting"
  using listener_returns_to_accepting [OF loop_reachable.start] by blast

end
