(* ===== verification/Connection.thy ===== *)
theory Connection
  imports Listener
begin

text \<open>
  The \<open>Connection\<close> of \<open>shardus_net/src/shardus_net_sender.rs\<close>: one address with at most one
  open stream, and the send that connects, writes, and on a write error reconnects and writes
  once more.  The TCP stream of tokio is a parameter, the record \<open>tcp\<close> of functions on a world
  of type \<open>'w\<close>; a \<open>TcpStream\<close> is a handle of type \<open>'s\<close>.  The lock around the socket is held
  for the whole of \<open>connection_send\<close>, so a send is one step of its connection.
\<close>

section \<open>Data\<close>

type_synonym io_error = string

datatype 'addr SenderError =
    ConnectionFailedError io_error 'addr
  | SendFailedError io_error 'addr

type_synonym 'addr SendResult = "'addr SenderError + unit"

record ('addr, 's, 'w) tcp =
  tcp_connect :: "'addr \<Rightarrow> 'w \<Rightarrow> (io_error + 's) \<times> 'w"
  tcp_write_u32 :: "'s \<Rightarrow> u32 \<Rightarrow> 'w \<Rightarrow> (io_error + unit) \<times> 'w"
  tcp_write_all :: "'s \<Rightarrow> u8 list \<Rightarrow> 'w \<Rightarrow> (io_error + unit) \<times> 'w"

record ('addr, 's) Connection =
  c_address :: 'addr
  c_socket :: "'s option"

section \<open>Operations\<close>

definition connection_new :: "'addr \<Rightarrow> ('addr, 's) Connection" where
  "connection_new address = \<lparr>c_address = address, c_socket = None\<rparr>"

definition write_data_to_stream ::
    "('addr, 's, 'w) tcp \<Rightarrow> 's \<Rightarrow> u8 list \<Rightarrow> 'w \<Rightarrow> (io_error + unit) \<times> 'w" where
  "write_data_to_stream T socket data w =
     (let len = as_u32 (length data) in
      case tcp_write_u32 T socket len w of
        (Inl e, w1) \<Rightarrow> (Inl e, w1)
      | (Inr _, w1) \<Rightarrow> tcp_write_all T socket data w1)"

text \<open>The result, the socket option it leaves behind, and the world.\<close>

definition connect_and_set_socket_if_none ::
    "('addr, 's, 'w) tcp \<Rightarrow> 's option \<Rightarrow> 'addr \<Rightarrow> 'w \<Rightarrow>
     ('addr SenderError + 's) \<times> 's option \<times> 'w" where
  "connect_and_set_socket_if_none T socket_op address w =
     (case socket_op of
        None \<Rightarrow>
          (case tcp_connect T address w of
             (Inr stream, w1) \<Rightarrow> (Inr stream, Some stream, w1)
           | (Inl e, w1) \<Rightarrow> (Inl (ConnectionFailedError e address), None, w1))
      | Some socket \<Rightarrow> (Inr socket, Some socket, w))"

definition connection_send ::
    "('addr, 's, 'w) tcp \<Rightarrow> ('addr, 's) Connection \<Rightarrow> u8 list \<Rightarrow> 'w \<Rightarrow>
     'addr SendResult \<times> ('addr, 's) Connection \<times> 'w" where
  "connection_send T conn data w =
     (case connect_and_set_socket_if_none T (c_socket conn) (c_address conn) w of
        (Inl err, socket_op, w1) \<Rightarrow> (Inl err, conn\<lparr>c_socket := socket_op\<rparr>, w1)
      | (Inr socket, socket_op, w1) \<Rightarrow>
          (case write_data_to_stream T socket data w1 of
             (Inr _, w2) \<Rightarrow> (Inr (), conn\<lparr>c_socket := socket_op\<rparr>, w2)
           | (Inl _, w2) \<Rightarrow>
               (case connect_and_set_socket_if_none T None (c_address conn) w2 of
                  (Inl err, socket_op, w3) \<Rightarrow> (Inl err, conn\<lparr>c_socket := socket_op\<rparr>, w3)
                | (Inr socket, socket_op, w3) \<Rightarrow>
                    (case write_data_to_stream T socket data w3 of
                       (Inl error, w4) \<Rightarrow>
                         (Inl (SendFailedError error (c_address conn)),
                          conn\<lparr>c_socket := socket_op\<rparr>, w4)
                     | (Inr _, w4) \<Rightarrow> (Inr (), conn\<lparr>c_socket := socket_op\<rparr>, w4)))))"

text \<open>\<open>Drop\<close>: the stream that is shut down when the last reference goes.\<close>

definition connection_drop :: "('addr, 's) Connection \<Rightarrow> 's option" where
  "connection_drop conn = c_socket conn"

section \<open>What the stream layer documents\<close>

text \<open>
  An observation of the world: the streams opened so far, the bytes each has accepted, and the
  streams on which a write has failed.
\<close>

record ('s, 'w) observe =
  o_opened :: "'w \<Rightarrow> 's set"
  o_wire :: "'w \<Rightarrow> 's \<Rightarrow> u8 list"
  o_broken :: "'w \<Rightarrow> 's set"

text \<open>
  One write: on success the stream has accepted all bytes, on failure a part of them, and is
  broken from then on; a broken stream accepts no write; no other stream changes.
\<close>

definition write_effect ::
    "('s, 'w) observe \<Rightarrow> 's \<Rightarrow> u8 list \<Rightarrow> 'w \<Rightarrow> (io_error + unit) \<times> 'w \<Rightarrow> bool" where
  "write_effect V s bs w res \<longleftrightarrow>
     (case res of (r, w') \<Rightarrow>
        o_opened V w' = o_opened V w \<and>
        (\<forall>t. t \<noteq> s \<longrightarrow> o_wire V w' t = o_wire V w t \<and> (t \<in> o_broken V w' \<longleftrightarrow> t \<in> o_broken V w)) \<and>
        (case r of
           Inr _ \<Rightarrow> s \<notin> o_broken V w \<and> s \<notin> o_broken V w' \<and> o_wire V w' s = o_wire V w s @ bs
         | Inl _ \<Rightarrow> s \<in> o_broken V w' \<and> (\<exists>n. o_wire V w' s = o_wire V w s @ take n bs)))"

definition connect_effect ::
    "('s, 'w) observe \<Rightarrow> 'w \<Rightarrow> (io_error + 's) \<times> 'w \<Rightarrow> bool" where
  "connect_effect V w res \<longleftrightarrow>
     (case res of (r, w') \<Rightarrow>
        (case r of
           Inr s \<Rightarrow> s \<notin> o_opened V w \<and> o_opened V w' = insert s (o_opened V w) \<and>
             o_wire V w' s = [] \<and> s \<notin> o_broken V w' \<and>
             (\<forall>t. t \<noteq> s \<longrightarrow> o_wire V w' t = o_wire V w t \<and> (t \<in> o_broken V w' \<longleftrightarrow> t \<in> o_broken V w))
         | Inl _ \<Rightarrow> o_opened V w' = o_opened V w \<and> o_wire V w' = o_wire V w \<and>
             o_broken V w' = o_broken V w))"

definition tcp_lawful :: "('s, 'w) observe \<Rightarrow> ('addr, 's, 'w) tcp \<Rightarrow> bool" where
  "tcp_lawful V T \<longleftrightarrow>
     (\<forall>a w. connect_effect V w (tcp_connect T a w)) \<and>
     (\<forall>s n w. write_effect V s (u32_to_be_bytes n) w (tcp_write_u32 T s n w)) \<and>
     (\<forall>s bs w. write_effect V s bs w (tcp_write_all T s bs w))"

section \<open>Lemmas\<close>

lemma connect_none:
  "connect_and_set_socket_if_none T None a w =
     (case tcp_connect T a w of
        (Inr s, w1) \<Rightarrow> (Inr s, Some s, w1)
      | (Inl e, w1) \<Rightarrow> (Inl (ConnectionFailedError e a), None, w1))"
  by (simp add: connect_and_set_socket_if_none_def)

lemma connect_some [simp]: "connect_and_set_socket_if_none T (Some s) a w = (Inr s, Some s, w)"
  by (simp add: connect_and_set_socket_if_none_def)

text \<open>The \<open>expect\<close> after the connect never fails: a stream that is returned is the one stored.\<close>

lemma connect_sets_socket:
  "connect_and_set_socket_if_none T so a w = (r, so', w') \<Longrightarrow>
     so' = (case r of Inr s \<Rightarrow> Some s | Inl _ \<Rightarrow> None)"
  by (auto simp: connect_and_set_socket_if_none_def split: option.splits prod.splits sum.splits)

lemma write_data_effect:
  assumes "tcp_lawful V T"
  shows "write_effect V s (wire_frame data) w (write_data_to_stream T s data w)"
proof -
  have u32: "write_effect V s (u32_to_be_bytes n) w (tcp_write_u32 T s n w)" for n w
    using assms by (simp add: tcp_lawful_def)
  have all: "write_effect V s bs w (tcp_write_all T s bs w)" for bs w
    using assms by (simp add: tcp_lawful_def)
  obtain r1 w1 where 1: "tcp_write_u32 T s (as_u32 (length data)) w = (r1, w1)" by fastforce
  have e1: "write_effect V s (u32_to_be_bytes (as_u32 (length data))) w (r1, w1)"
    using u32 [of "as_u32 (length data)" w] 1 by simp
  show ?thesis
  proof (cases r1)
    case (Inl e)
    then obtain n where "o_wire V w1 s = o_wire V w s @ take n (u32_to_be_bytes (as_u32 (length data)))"
      using e1 by (auto simp: write_effect_def)
    then have "o_wire V w1 s = o_wire V w s @ take (min n 4) (wire_frame data)"
      by (simp add: wire_frame_def min_def)
    with Inl e1 1 show ?thesis
      by (auto simp: write_effect_def write_data_to_stream_def)
  next
    case (Inr u)
    obtain r2 w2 where 2: "tcp_write_all T s data w1 = (r2, w2)" by fastforce
    have e2: "write_effect V s data w1 (r2, w2)" using all [of data w1] 2 by simp
    have prefix: "\<exists>m. u32_to_be_bytes k @ take n data = take m (u32_to_be_bytes k @ data)" for k n
      by (rule exI [of _ "4 + n"]) simp
    from Inr e1 e2 1 2 prefix show ?thesis
      by (cases r2) (auto simp: write_effect_def write_data_to_stream_def wire_frame_def)
  qed
qed

text \<open>The five ways a send can go, in the order of the code.\<close>

lemma connection_send_cases:
  assumes "connection_send T conn data w = (r, conn', w')"
  obtains
    (no_connection) err so w1 where
      "connect_and_set_socket_if_none T (c_socket conn) (c_address conn) w = (Inl err, so, w1)"
      "r = Inl err" "conn' = conn\<lparr>c_socket := None\<rparr>" "w' = w1"
  | (written) s w1 where
      "connect_and_set_socket_if_none T (c_socket conn) (c_address conn) w = (Inr s, Some s, w1)"
      "write_data_to_stream T s data w1 = (Inr (), w')"
      "r = Inr ()" "conn' = conn\<lparr>c_socket := Some s\<rparr>"
  | (no_reconnection) s w1 e w2 err so where
      "connect_and_set_socket_if_none T (c_socket conn) (c_address conn) w = (Inr s, Some s, w1)"
      "write_data_to_stream T s data w1 = (Inl e, w2)"
      "connect_and_set_socket_if_none T None (c_address conn) w2 = (Inl err, so, w')"
      "r = Inl err" "conn' = conn\<lparr>c_socket := None\<rparr>"
  | (rewritten) s w1 e w2 s' w3 where
      "connect_and_set_socket_if_none T (c_socket conn) (c_address conn) w = (Inr s, Some s, w1)"
      "write_data_to_stream T s data w1 = (Inl e, w2)"
      "connect_and_set_socket_if_none T None (c_address conn) w2 = (Inr s', Some s', w3)"
      "write_data_to_stream T s' data w3 = (Inr (), w')"
      "r = Inr ()" "conn' = conn\<lparr>c_socket := Some s'\<rparr>"
  | (failed_twice) s w1 e w2 s' w3 error where
      "connect_and_set_socket_if_none T (c_socket conn) (c_address conn) w = (Inr s, Some s, w1)"
      "write_data_to_stream T s data w1 = (Inl e, w2)"
      "connect_and_set_socket_if_none T None (c_address conn) w2 = (Inr s', Some s', w3)"
      "write_data_to_stream T s' data w3 = (Inl error, w')"
      "r = Inl (SendFailedError error (c_address conn))" "conn' = conn\<lparr>c_socket := Some s'\<rparr>"
proof -
  obtain r1 so1 w1 where 1:
    "connect_and_set_socket_if_none T (c_socket conn) (c_address conn) w = (r1, so1, w1)"
    by (metis prod_cases3)
  note so1 = connect_sets_socket [OF 1]
  show thesis
  proof (cases r1)
    case (Inl err)
    with assms 1 so1 no_connection show thesis by (auto simp: connection_send_def)
  next
    case (Inr s)
    obtain r2 w2 where 2: "write_data_to_stream T s data w1 = (r2, w2)" by fastforce
    show thesis
    proof (cases r2)
      case Inr2: (Inr u)
      with assms 1 2 Inr so1 written show thesis by (auto simp: connection_send_def)
    next
      case Inl2: (Inl e)
      obtain r3 so3 w3 where 3:
        "connect_and_set_socket_if_none T None (c_address conn) w2 = (r3, so3, w3)"
        by (metis prod_cases3)
      note so3 = connect_sets_socket [OF 3]
      show thesis
      proof (cases r3)
        case Inl3: (Inl err)
        with assms 1 2 3 Inr Inl2 so1 so3 no_reconnection show thesis
          by (auto simp: connection_send_def)
      next
        case Inr3: (Inr s')
        obtain r4 w4 where 4: "write_data_to_stream T s' data w3 = (r4, w4)" by fastforce
        show thesis
        proof (cases r4)
          case (Inl error)
          with assms 1 2 3 4 Inr Inl2 Inr3 so1 so3 failed_twice show thesis
            by (auto simp: connection_send_def)
        next
          case Inr4: (Inr u)
          with assms 1 2 3 4 Inr Inl2 Inr3 so1 so3 rewritten show thesis
            by (auto simp: connection_send_def)
        qed
      qed
    qed
  qed
qed

lemma connection_send_address [simp]:
  "connection_send T conn data w = (r, conn', w') \<Longrightarrow> c_address conn' = c_address conn"
  by (erule connection_send_cases) auto

text \<open>An error of a send names the connection's own address.\<close>

fun error_address :: "'addr SenderError \<Rightarrow> 'addr" where
  "error_address (ConnectionFailedError e a) = a"
| "error_address (SendFailedError e a) = a"

lemma connect_error_address:
  "connect_and_set_socket_if_none T so a w = (Inl err, so', w') \<Longrightarrow> error_address err = a"
  by (auto simp: connect_and_set_socket_if_none_def split: option.splits prod.splits sum.splits)

lemma connection_send_error_address:
  "connection_send T conn data w = (Inl err, conn', w') \<Longrightarrow> error_address err = c_address conn"
  by (erule connection_send_cases) (auto dest: connect_error_address)

section \<open>Frames on a connection's stream\<close>

text \<open>A stream carries whole frames: what the reading side cuts out is what was written.\<close>

definition aligned :: "('s, 'w) observe \<Rightarrow> 'w \<Rightarrow> 's \<Rightarrow> bool" where
  "aligned V w s \<longleftrightarrow> (\<exists>fs. o_wire V w s = concat (map wire_frame fs))"

definition conn_inv :: "('s, 'w) observe \<Rightarrow> 'w \<Rightarrow> ('addr, 's) Connection \<Rightarrow> bool" where
  "conn_inv V w conn \<longleftrightarrow>
     (case c_socket conn of
        None \<Rightarrow> True
      | Some s \<Rightarrow> s \<in> o_opened V w \<and> (aligned V w s \<or> s \<in> o_broken V w))"

lemma conn_inv_new [simp]: "conn_inv V w (connection_new a)"
  by (simp add: conn_inv_def connection_new_def)

lemma aligned_append:
  "o_wire V w' s = o_wire V w s @ wire_frame d \<Longrightarrow> aligned V w s \<Longrightarrow> aligned V w' s"
  by (auto simp: aligned_def intro: exI [of _ "fs @ [d]" for fs])

lemma connect_lawful:
  assumes "tcp_lawful V T" "connect_and_set_socket_if_none T None a w = (r, so, w')"
  shows "(case r of
      Inr s \<Rightarrow> s \<notin> o_opened V w \<and> o_opened V w' = insert s (o_opened V w) \<and> o_wire V w' s = [] \<and>
        s \<notin> o_broken V w' \<and>
        (\<forall>t. t \<noteq> s \<longrightarrow> o_wire V w' t = o_wire V w t \<and> (t \<in> o_broken V w' \<longleftrightarrow> t \<in> o_broken V w))
    | Inl _ \<Rightarrow> o_opened V w' = o_opened V w \<and> o_wire V w' = o_wire V w \<and> o_broken V w' = o_broken V w)"
proof -
  have "connect_effect V w (tcp_connect T a w)" using assms(1) by (simp add: tcp_lawful_def)
  with assms(2) show ?thesis
    by (auto simp: connect_none connect_effect_def split: prod.splits sum.splits)
qed


text \<open>The streams outside \<open>keep\<close> that were open before are as they were.\<close>

definition untouched :: "('s, 'w) observe \<Rightarrow> 's set \<Rightarrow> 'w \<Rightarrow> 'w \<Rightarrow> bool" where
  "untouched V own w w' \<longleftrightarrow> o_opened V w \<subseteq> o_opened V w' \<and>
     (\<forall>t \<in> o_opened V w - own. o_wire V w' t = o_wire V w t \<and>
        (t \<in> o_broken V w' \<longleftrightarrow> t \<in> o_broken V w))"

lemma untouched_refl [simp]: "untouched V own w w"
  by (simp add: untouched_def)

lemma untouched_trans:
  assumes "untouched V own w w1" "untouched V own' w1 w2" "own' \<inter> o_opened V w \<subseteq> own"
  shows "untouched V own w w2"
  unfolding untouched_def
proof (intro conjI ballI)
  show "o_opened V w \<subseteq> o_opened V w2" using assms by (auto simp: untouched_def)
next
  fix t assume t: "t \<in> o_opened V w - own"
  with assms have "t \<in> o_opened V w1 - own'" by (auto simp: untouched_def)
  with t assms show "o_wire V w2 t = o_wire V w t" "(t \<in> o_broken V w2) = (t \<in> o_broken V w)"
    by (auto simp: untouched_def)
qed

lemma untouched_mono: "untouched V own w w' \<Longrightarrow> own \<subseteq> own' \<Longrightarrow> untouched V own' w w'"
  by (auto simp: untouched_def)

text \<open>
  A stream handed out by a connect on the connection's socket is the socket it had, or a fresh
  one that has accepted nothing yet.
\<close>

lemma connect_own:
  assumes "tcp_lawful V T" "connect_and_set_socket_if_none T so a w = (Inr s, so', w')"
  shows "(so = Some s \<and> w' = w) \<or>
    (so = None \<and> s \<notin> o_opened V w \<and> s \<in> o_opened V w' \<and> o_wire V w' s = [] \<and> s \<notin> o_broken V w' \<and>
     untouched V {} w w')"
proof (cases so)
  case None
  with connect_lawful [OF assms(1), of a w "Inr s" so' w'] assms(2) show ?thesis
    by (auto simp: untouched_def)
next
  case (Some t)
  with assms(2) show ?thesis by simp
qed

lemma connect_failed:
  assumes "tcp_lawful V T" "connect_and_set_socket_if_none T so a w = (Inl e, so', w')"
  shows "so = None \<and> untouched V {} w w'"
proof (cases so)
  case None
  with connect_lawful [OF assms(1), of a w "Inl e" so' w'] assms(2) show ?thesis
    by (auto simp: untouched_def)
next
  case (Some t)
  with assms(2) show ?thesis by simp
qed

lemma write_untouched:
  assumes "tcp_lawful V T" "write_data_to_stream T s d w = (r, w')"
  shows "untouched V {s} w w' \<and> o_opened V w' = o_opened V w"
  using write_data_effect [OF assms(1), of s d w] assms(2)
  by (auto simp: write_effect_def untouched_def split: sum.splits)

lemma write_written:
  assumes "tcp_lawful V T" "write_data_to_stream T s d w = (Inr u, w')"
  shows "s \<notin> o_broken V w \<and> s \<notin> o_broken V w' \<and> o_wire V w' s = o_wire V w s @ wire_frame d"
  using write_data_effect [OF assms(1), of s d w] assms(2) by (simp add: write_effect_def)

lemma write_broken:
  assumes "tcp_lawful V T" "write_data_to_stream T s d w = (Inl e, w')"
  shows "s \<in> o_broken V w'"
  using write_data_effect [OF assms(1), of s d w] assms(2) by (simp add: write_effect_def)

text \<open>Connecting (where there is no socket) and writing, the two halves of an attempt.\<close>

lemma attempt_untouched:
  assumes T: "tcp_lawful V T" and c: "connect_and_set_socket_if_none T so a w = (Inr s, so', w1)"
    and wr: "write_data_to_stream T s d w1 = (r, w2)"
  shows "untouched V (set_option so) w w2"
proof (rule untouched_trans)
  show "untouched V (set_option so) w w1"
    using connect_own [OF T c] by (auto intro: untouched_mono)
  show "untouched V {s} w1 w2" using write_untouched [OF T wr] by simp
  show "{s} \<inter> o_opened V w \<subseteq> set_option so" using connect_own [OF T c] by auto
qed

text \<open>
  A send touches the connection's own stream and streams it opens itself, whatever its result.
\<close>

lemma connection_send_untouched:
  assumes T: "tcp_lawful V T" and "connection_send T conn d w = (r, conn', w')"
  shows "untouched V (set_option (c_socket conn)) w w'"
  using assms(2)
proof (cases rule: connection_send_cases)
  case (no_connection err so w1)
  then show ?thesis using connect_failed [OF T] by (blast intro: untouched_mono)
next
  case (written s w1)
  then show ?thesis using attempt_untouched [OF T] by blast
next
  case (no_reconnection s w1 e w2 err so)
  have "untouched V {} w2 w'" using connect_failed [OF T no_reconnection(3)] by blast
  with attempt_untouched [OF T no_reconnection(1,2)] show ?thesis
    by (rule untouched_trans) simp
next
  case (rewritten s w1 e w2 s' w3)
  have "untouched V {} w2 w'" using attempt_untouched [OF T rewritten(3,4)] by simp
  with attempt_untouched [OF T rewritten(1,2)] show ?thesis
    by (rule untouched_trans) simp
next
  case (failed_twice s w1 e w2 s' w3 error)
  have "untouched V {} w2 w'" using attempt_untouched [OF T failed_twice(3,4)] by simp
  with attempt_untouched [OF T failed_twice(1,2)] show ?thesis
    by (rule untouched_trans) simp
qed

text \<open>A new socket of the connection is one that was not open before.\<close>

lemma connection_send_socket:
  assumes T: "tcp_lawful V T" and "connection_send T conn d w = (r, conn', w')"
    and "c_socket conn' = Some s"
  shows "c_socket conn = Some s \<or> s \<notin> o_opened V w"
  using assms(2)
proof (cases rule: connection_send_cases)
  case (written t w1)
  then show ?thesis using connect_own [OF T written(1)] assms(3) by auto
next
  case (rewritten t w1 e w2 s' w3)
  then show ?thesis
    using connect_own [OF T rewritten(1)] write_untouched [OF T rewritten(2)]
      connect_own [OF T rewritten(3)] assms(3)
    by (auto simp: untouched_def)
next
  case (failed_twice t w1 e w2 s' w3 error)
  then show ?thesis
    using connect_own [OF T failed_twice(1)] write_untouched [OF T failed_twice(2)]
      connect_own [OF T failed_twice(3)] assms(3)
    by (auto simp: untouched_def)
qed (use assms(3) in auto)

text \<open>
  A successful send has put exactly one frame behind what the stream carried; a reconnected
  stream carries that frame alone.
\<close>

lemma connection_send_Ok:
  assumes T: "tcp_lawful V T" and "connection_send T conn d w = (Inr u, conn', w')"
    and own: "set_option (c_socket conn) \<subseteq> o_opened V w"
  shows "\<exists>s. c_socket conn' = Some s \<and> s \<in> o_opened V w' \<and> s \<notin> o_broken V w' \<and>
    (c_socket conn = Some s \<longrightarrow> s \<notin> o_broken V w) \<and>
    o_wire V w' s = (if c_socket conn = Some s then o_wire V w s else []) @ wire_frame d"
  using assms(2)
proof (cases rule: connection_send_cases)
  case (written s w1)
  then show ?thesis
    using connect_own [OF T written(1)] write_untouched [OF T written(2)]
      write_written [OF T written(2)] own
    by auto
next
  case (rewritten s w1 e w2 s' w3)
  have s': "s' \<notin> o_opened V w2" "o_wire V w3 s' = []" "s' \<in> o_opened V w3"
    using connect_own [OF T rewritten(3)] by auto
  have "o_opened V w \<subseteq> o_opened V w2"
    using attempt_untouched [OF T rewritten(1,2)] by (simp add: untouched_def)
  with s' own have "c_socket conn \<noteq> Some s'" by auto
  with s' rewritten write_written [OF T rewritten(4)] write_untouched [OF T rewritten(4)]
  show ?thesis by auto
qed auto

lemma connection_send_inv:
  assumes T: "tcp_lawful V T" and send: "connection_send T conn d w = (r, conn', w')"
    and inv: "conn_inv V w conn"
  shows "conn_inv V w' conn'"
proof -
  have own: "set_option (c_socket conn) \<subseteq> o_opened V w"
    using inv by (auto simp: conn_inv_def split: option.splits)
  show ?thesis
  proof (cases r)
    case (Inr u)
    from connection_send_Ok [OF T send [unfolded Inr] own] obtain s where
      s: "c_socket conn' = Some s" "s \<in> o_opened V w'"
        "c_socket conn = Some s \<longrightarrow> s \<notin> o_broken V w"
        "o_wire V w' s = (if c_socket conn = Some s then o_wire V w s else []) @ wire_frame d"
      by blast
    have "aligned V w' s"
    proof (cases "c_socket conn = Some s")
      case True
      then have "aligned V w s" using inv s(3) by (simp add: conn_inv_def)
      with s(4) True show ?thesis by (simp add: aligned_append)
    next
      case False
      with s(4) show ?thesis by (auto simp: aligned_def intro: exI [of _ "[d]"])
    qed
    with s show ?thesis by (simp add: conn_inv_def)
  next
    case (Inl e)
    from send show ?thesis
    proof (cases rule: connection_send_cases)
      case (failed_twice s w1 e w2 s' w3 error)
      have "s' \<in> o_opened V w3" using connect_own [OF T failed_twice(3)] by auto
      then show ?thesis
        using failed_twice write_broken [OF T failed_twice(4)] write_untouched [OF T failed_twice(4)]
        by (simp add: conn_inv_def)
    qed (use Inl in \<open>auto simp: conn_inv_def\<close>)
  qed
qed

text \<open>A connection that was not touched keeps its invariant.\<close>

lemma conn_inv_untouched:
  assumes "untouched V own w w'" "conn_inv V w conn" "set_option (c_socket conn) \<inter> own = {}"
  shows "conn_inv V w' conn"
  using assms by (cases "c_socket conn") (auto simp: conn_inv_def untouched_def aligned_def)

section \<open>A small stream layer\<close>

text \<open>
  Streams are numbered in the order they are opened; each has the bytes it accepted and a
  state.  Address 0 refuses connections, address 1 gives good streams, and every other address
  gives streams on which the first write fails.
\<close>

datatype stream_state = Good | Doomed | Broken

type_synonym sample_world = "(u8 list \<times> stream_state) list"

definition sample_write :: "nat \<Rightarrow> u8 list \<Rightarrow> sample_world \<Rightarrow> (io_error + unit) \<times> sample_world" where
  "sample_write s bs w =
     (if s < length w then
        (if snd (w ! s) = Good then (Inr (), w[s := (fst (w ! s) @ bs, Good)])
         else (Inl ''broken pipe'', w[s := (fst (w ! s), Broken)]))
      else (Inl ''not open'', w))"

definition sample_tcp :: "(nat, nat, sample_world) tcp" where
  "sample_tcp =
     \<lparr>tcp_connect = (\<lambda>a w. if a = 0 then (Inl ''refused'', w)
                       else (Inr (length w), w @ [([], if a = 1 then Good else Doomed)])),
      tcp_write_u32 = (\<lambda>s n. sample_write s (u32_to_be_bytes n)),
      tcp_write_all = sample_write\<rparr>"

definition sample_view :: "(nat, sample_world) observe" where
  "sample_view =
     \<lparr>o_opened = (\<lambda>w. {s. s < length w}),
      o_wire = (\<lambda>w s. if s < length w then fst (w ! s) else []),
      o_broken = (\<lambda>w. {s. s < length w \<longrightarrow> snd (w ! s) = Broken})\<rparr>"

lemma sample_write_effect: "write_effect sample_view s bs w (sample_write s bs w)"
  by (auto simp: write_effect_def sample_write_def sample_view_def nth_list_update
      intro: exI [of _ 0])

lemma sample_tcp_lawful: "tcp_lawful sample_view sample_tcp"
  using sample_write_effect
  by (auto simp: tcp_lawful_def sample_tcp_def connect_effect_def)
    (auto simp: sample_view_def nth_append split: if_splits)

section \<open>Properties\<close>

text \<open>
  C14. A send that reports success has put exactly one frame, the length of the data and the
  data, behind what the connection's stream carried; if it had to reconnect, the new stream
  carries that frame alone.  The stream it leaves behind is open and has not failed.
\<close>

theorem successful_send_adds_one_frame:
  assumes "tcp_lawful V T" "connection_send T conn d w = (Inr u, conn', w')"
    and "set_option (c_socket conn) \<subseteq> o_opened V w"
  shows "\<exists>s. c_socket conn' = Some s \<and> s \<in> o_opened V w' \<and> s \<notin> o_broken V w' \<and>
    (c_socket conn = Some s \<longrightarrow> s \<notin> o_broken V w) \<and>
    o_wire V w' s = (if c_socket conn = Some s then o_wire V w s else []) @ wire_frame d"
  by (rule connection_send_Ok [OF assms])

theorem successful_send_adds_one_frame_witness:
  "\<exists>conn' w' s. connection_send sample_tcp \<lparr>c_address = 1, c_socket = Some 0\<rparr> [65] [([], Doomed)] =
       (Inr (), conn', w') \<and>
     c_socket conn' = Some s \<and> s \<noteq> 0 \<and> o_wire sample_view w' s = wire_frame [65]"
proof -
  have s: "connection_send sample_tcp \<lparr>c_address = 1, c_socket = Some 0\<rparr> [65] [([], Doomed)] =
      (Inr (), \<lparr>c_address = 1, c_socket = Some 1\<rparr>, [([], Broken), (wire_frame [65], Good)])"
    by (simp add: connection_send_def write_data_to_stream_def sample_tcp_def sample_write_def
        connect_and_set_socket_if_none_def wire_frame_def)
  have "set_option (c_socket \<lparr>c_address = 1 :: nat, c_socket = Some 0\<rparr>) \<subseteq> o_opened sample_view [([], Doomed)]"
    by (simp add: sample_view_def)
  from successful_send_adds_one_frame [OF sample_tcp_lawful s this] s show ?thesis by auto
qed

text \<open>
  C15. What a failed send leaves: its error names the connection's address; after a failed
  connect the connection has no socket, so the next send connects again; after a second failed
  write it keeps the new stream, which is broken, so the next send fails its first write.
\<close>

theorem failed_send_outcome:
  assumes "tcp_lawful V T" "connection_send T conn d w = (Inl err, conn', w')"
  shows "error_address err = c_address conn \<and> c_address conn' = c_address conn \<and>
    (case err of
       ConnectionFailedError _ _ \<Rightarrow> c_socket conn' = None
     | SendFailedError _ _ \<Rightarrow> \<exists>s. c_socket conn' = Some s \<and> s \<in> o_opened V w' \<and> s \<in> o_broken V w')"
  using assms(2)
proof (cases rule: connection_send_cases)
  case (no_connection e so w1)
  moreover obtain x a where "e = ConnectionFailedError x a"
    using no_connection(1)
    by (auto simp: connect_and_set_socket_if_none_def split: option.splits prod.splits sum.splits)
  ultimately show ?thesis using connection_send_error_address [OF assms(2)] by simp
next
  case (no_reconnection s w1 e w2 e' so)
  moreover obtain x a where "e' = ConnectionFailedError x a"
    using no_reconnection(3)
    by (auto simp: connect_and_set_socket_if_none_def split: option.splits prod.splits sum.splits)
  ultimately show ?thesis using connection_send_error_address [OF assms(2)] by simp
next
  case (failed_twice s w1 e w2 s' w3 error)
  then have "s' \<in> o_opened V w3" using connect_own [OF assms(1) failed_twice(3)] by auto
  with failed_twice write_broken [OF assms(1) failed_twice(4)]
    write_untouched [OF assms(1) failed_twice(4)] show ?thesis by simp
qed auto

theorem failed_send_outcome_witness:
  "\<exists>conn' w' s. connection_send sample_tcp (connection_new 2) [65] [] =
       (Inl (SendFailedError ''broken pipe'' 2), conn', w') \<and>
     c_socket conn' = Some s \<and> s \<in> o_broken sample_view w'"
proof -
  have s: "connection_send sample_tcp (connection_new 2) [65] [] =
      (Inl (SendFailedError ''broken pipe'' 2), \<lparr>c_address = 2, c_socket = Some 1\<rparr>,
       [([], Broken), ([], Broken)])"
    by (simp add: connection_send_def write_data_to_stream_def sample_tcp_def sample_write_def
        connect_and_set_socket_if_none_def connection_new_def)
  from failed_send_outcome [OF sample_tcp_lawful s] s show ?thesis by auto
qed

text \<open>
  C40. Whatever its result, a send keeps the connection's stream one that carries whole frames,
  unless a write on it has failed; and it changes no stream that was open before, other than
  the connection's own.
\<close>

theorem send_keeps_streams_framed:
  assumes "tcp_lawful V T" "connection_send T conn d w = (r, conn', w')" "conn_inv V w conn"
  shows "conn_inv V w' conn' \<and> untouched V (set_option (c_socket conn)) w w'"
  using connection_send_inv [OF assms] connection_send_untouched [OF assms(1,2)] by simp

theorem send_keeps_streams_framed_witness:
  "case connection_send sample_tcp (connection_new 1) [65] [([7], Good)] of
     (r, conn', w') \<Rightarrow> conn_inv sample_view w' conn' \<and> o_wire sample_view w' 0 = [7]"
proof -
  obtain r conn' w' where s: "connection_send sample_tcp (connection_new 1) [65] [([7], Good)] = (r, conn', w')"
    by (metis prod_cases3)
  have "conn_inv sample_view [([7], Good)] (connection_new 1 :: (nat, nat) Connection)" by simp
  note send_keeps_streams_framed [OF sample_tcp_lawful s this]
  moreover have "o_opened sample_view [([7], Good)] = {0}" "o_wire sample_view [([7], Good)] 0 = [7]"
    by (auto simp: sample_view_def)
  ultimately show ?thesis using s by (simp add: untouched_def connection_new_def)
qed

end
