(* ===== verification/Connection_Cache.thy ===== *)
theory Connection_Cache
  imports Connection
begin

text \<open>
  The \<open>ConnectionCache\<close> trait of \<open>shardus_net_sender.rs\<close> and its two implementations, on
  \<open>HashMap\<close> and on \<open>LruCache\<close>.  An \<open>Arc<Connection>\<close> is a number that names a connection of
  the heap, so that the cache and the tasks in flight share it.  The lru crate is a parameter,
  the record \<open>lru_ops\<close>.
\<close>

section \<open>The heap of connections\<close>

type_synonym arc = nat

record ('addr, 's) conn_heap =
  h_next :: arc
  h_conns :: "arc \<Rightarrow> ('addr, 's) Connection option"

definition heap_empty :: "('addr, 's) conn_heap" where
  "heap_empty = \<lparr>h_next = 0, h_conns = (\<lambda>_. None)\<rparr>"

text \<open>\<open>Arc::new(Connection::new(address))\<close>.\<close>

definition heap_alloc :: "'addr \<Rightarrow> ('addr, 's) conn_heap \<Rightarrow> arc \<times> ('addr, 's) conn_heap" where
  "heap_alloc address h =
     (h_next h, \<lparr>h_next = h_next h + 1, h_conns = (h_conns h)(h_next h \<mapsto> connection_new address)\<rparr>)"

definition heap_ok :: "('addr, 's) conn_heap \<Rightarrow> bool" where
  "heap_ok h \<longleftrightarrow> (\<forall>i. h_next h \<le> i \<longrightarrow> h_conns h i = None)"

lemma heap_ok_empty [simp]: "heap_ok heap_empty"
  by (simp add: heap_ok_def heap_empty_def)

lemma heap_ok_alloc: "heap_ok h \<Longrightarrow> heap_alloc a h = (i, h') \<Longrightarrow> heap_ok h'"
  by (auto simp: heap_ok_def heap_alloc_def)

section \<open>The two implementations\<close>

definition hashmap_get_or_insert ::
    "'addr \<Rightarrow> ('addr \<rightharpoonup> arc) \<Rightarrow> ('addr, 's) conn_heap \<Rightarrow>
     arc \<times> ('addr \<rightharpoonup> arc) \<times> ('addr, 's) conn_heap" where
  "hashmap_get_or_insert address m h =
     (case m address of
        Some connection \<Rightarrow> (connection, m, h)
      | None \<Rightarrow>
          (let (connection, h') = heap_alloc address h
           in (connection, m(address \<mapsto> connection), h')))"

definition hashmap_remove :: "'addr \<Rightarrow> ('addr \<rightharpoonup> arc) \<Rightarrow> arc option \<times> ('addr \<rightharpoonup> arc)" where
  "hashmap_remove address m = (m address, m(address := None))"

text \<open>The lru crate: \<open>get\<close> and \<open>put\<close> change the order of use, \<open>put\<close> may evict.\<close>

record ('addr, 'l) lru_ops =
  lru_get :: "'addr \<Rightarrow> 'l \<Rightarrow> arc option \<times> 'l"
  lru_put :: "'addr \<Rightarrow> arc \<Rightarrow> 'l \<Rightarrow> 'l"
  lru_pop :: "'addr \<Rightarrow> 'l \<Rightarrow> arc option \<times> 'l"

definition lru_get_or_insert ::
    "('addr, 'l) lru_ops \<Rightarrow> 'addr \<Rightarrow> 'l \<Rightarrow> ('addr, 's) conn_heap \<Rightarrow>
     arc \<times> 'l \<times> ('addr, 's) conn_heap" where
  "lru_get_or_insert L address l h =
     (case lru_get L address l of
        (Some connection, l') \<Rightarrow> (connection, l', h)
      | (None, l') \<Rightarrow>
          (let (connection, h') = heap_alloc address h
           in (connection, lru_put L address connection l', h')))"

definition lru_remove :: "('addr, 'l) lru_ops \<Rightarrow> 'addr \<Rightarrow> 'l \<Rightarrow> arc option \<times> 'l" where
  "lru_remove L address l = lru_pop L address l"

text \<open>The trait object that the sender holds.\<close>

record ('addr, 's, 'c) cache_ops =
  cc_get_or_insert :: "'addr \<Rightarrow> 'c \<Rightarrow> ('addr, 's) conn_heap \<Rightarrow> arc \<times> 'c \<times> ('addr, 's) conn_heap"
  cc_remove :: "'addr \<Rightarrow> 'c \<Rightarrow> arc option \<times> 'c"

definition hashmap_cache :: "('addr, 's, 'addr \<rightharpoonup> arc) cache_ops" where
  "hashmap_cache = \<lparr>cc_get_or_insert = hashmap_get_or_insert, cc_remove = hashmap_remove\<rparr>"

definition lru_cache :: "('addr, 'l) lru_ops \<Rightarrow> ('addr, 's, 'l) cache_ops" where
  "lru_cache L = \<lparr>cc_get_or_insert = lru_get_or_insert L, cc_remove = lru_remove L\<rparr>"

section \<open>The contract of a cache\<close>

text \<open>
  \<open>view\<close> reads a cache as a map.  A hit returns the cached connection and changes neither the
  map nor the heap.  A miss returns a new connection to the address and caches it; it may
  forget other addresses, but changes no entry it keeps.  Removing forgets one address.
\<close>

locale connection_cache =
  fixes ops :: "('addr, 's, 'c) cache_ops"
    and view :: "'c \<Rightarrow> 'addr \<rightharpoonup> arc"
    and invar :: "'c \<Rightarrow> bool"
  assumes hit: "invar c \<Longrightarrow> view c a = Some i \<Longrightarrow> cc_get_or_insert ops a c h = (j, c', h') \<Longrightarrow>
      j = i \<and> h' = h \<and> view c' = view c"
    and miss: "invar c \<Longrightarrow> view c a = None \<Longrightarrow> cc_get_or_insert ops a c h = (j, c', h') \<Longrightarrow>
      (j, h') = heap_alloc a h \<and> view c' a = Some j \<and> view c' \<subseteq>\<^sub>m (view c)(a \<mapsto> j)"
    and get_invar: "invar c \<Longrightarrow> cc_get_or_insert ops a c h = (j, c', h') \<Longrightarrow> invar c'"
    and remove: "invar c \<Longrightarrow> cc_remove ops a c = (r, c') \<Longrightarrow>
      invar c' \<and> r = view c a \<and> view c' = (view c)(a := None)"
begin

text \<open>Cache and heap agree: what is cached for an address is a connection to that address.\<close>

definition coherent :: "'c \<Rightarrow> ('addr, 's) conn_heap \<Rightarrow> bool" where
  "coherent c h \<longleftrightarrow> invar c \<and> heap_ok h \<and>
     (\<forall>a i. view c a = Some i \<longrightarrow> (\<exists>conn. h_conns h i = Some conn \<and> c_address conn = a))"

lemma get_or_insert_returns:
  assumes "coherent c h" "cc_get_or_insert ops a c h = (i, c', h')"
  shows "coherent c' h'" and "view c' a = Some i"
    and "\<exists>conn. h_conns h' i = Some conn \<and> c_address conn = a"
    and "\<forall>j conn. h_conns h j = Some conn \<longrightarrow> h_conns h' j = Some conn"
proof -
  have 1: "invar c" using assms(1) by (simp add: coherent_def)
  have c': "invar c'" using get_invar [OF 1 assms(2)] .
  have "coherent c' h' \<and> view c' a = Some i \<and>
    (\<exists>conn. h_conns h' i = Some conn \<and> c_address conn = a) \<and>
    (\<forall>j conn. h_conns h j = Some conn \<longrightarrow> h_conns h' j = Some conn)"
  proof (cases "view c a")
    case (Some j)
    with hit [OF 1 Some assms(2)] assms(1) c' show ?thesis by (auto simp: coherent_def)
  next
    case None
    have m: "(i, h') = heap_alloc a h" "view c' a = Some i" "view c' \<subseteq>\<^sub>m (view c)(a \<mapsto> i)"
      using miss [OF 1 None assms(2)] by auto
    have h: "heap_ok h" using assms(1) by (simp add: coherent_def)
    have new: "i = h_next h" "h_conns h' = (h_conns h)(i \<mapsto> connection_new a)"
      using m(1) by (auto simp: heap_alloc_def)
    have old: "h_conns h' j = Some conn" if "h_conns h j = Some conn" for j conn
      using that h new by (auto simp: heap_ok_def)
    have "\<exists>conn. h_conns h' j = Some conn \<and> c_address conn = b" if "view c' b = Some j" for b j
    proof (cases "b = a")
      case True
      with that m(2) new show ?thesis by (auto simp: connection_new_def)
    next
      case False
      with that m(3) have "view c b = Some j" by (auto simp: map_le_def dom_def split: if_splits)
      with assms(1) old show ?thesis unfolding coherent_def by blast
    qed
    with m(2) c' heap_ok_alloc [OF h m(1) [symmetric]] old new show ?thesis
      by (auto simp: coherent_def connection_new_def)
  qed
  then show "coherent c' h'" and "view c' a = Some i"
    and "\<exists>conn. h_conns h' i = Some conn \<and> c_address conn = a"
    and "\<forall>j conn. h_conns h j = Some conn \<longrightarrow> h_conns h' j = Some conn"
    by auto
qed

lemma remove_coherent:
  "coherent c h \<Longrightarrow> cc_remove ops a c = (r, c') \<Longrightarrow> coherent c' h \<and> view c' a = None"
  using remove [of c a r c'] by (auto simp: coherent_def split: if_splits)

text \<open>Two requests for one address, with nothing in between, share one connection.\<close>

lemma get_twice:
  assumes "coherent c h" "cc_get_or_insert ops a c h = (i, c1, h1)"
    "cc_get_or_insert ops a c1 h1 = (j, c2, h2)"
  shows "j = i \<and> h2 = h1"
proof -
  have "invar c1" "view c1 a = Some i"
    using get_or_insert_returns(1,2) [OF assms(1,2)] by (auto simp: coherent_def)
  then show ?thesis using hit assms(3) by blast
qed

text \<open>After a removal the next request makes a new connection.\<close>

lemma remove_then_get:
  assumes "coherent c h" "cc_remove ops a c = (r, c1)" "cc_get_or_insert ops a c1 h = (i, c2, h2)"
  shows "h_conns h i = None"
proof -
  have "invar c1" "view c1 a = None" "heap_ok h"
    using remove_coherent [OF assms(1,2)] by (auto simp: coherent_def)
  then have "i = h_next h"
    using miss [of c1 a h i c2 h2] assms(3) by (auto simp: heap_alloc_def)
  with \<open>heap_ok h\<close> show ?thesis by (simp add: heap_ok_def)
qed

end

section \<open>The hash map keeps the contract\<close>

interpretation hm: connection_cache hashmap_cache "\<lambda>m. m" "\<lambda>_. True"
  by unfold_locales
    (auto simp: hashmap_cache_def hashmap_get_or_insert_def hashmap_remove_def heap_alloc_def)

section \<open>The LRU cache keeps the contract\<close>

text \<open>
  What the lru crate documents, on the list of its entries with the most recently used first:
  \<open>get\<close> finds a value and moves its entry to the front, \<open>put\<close> puts an entry there and drops
  the last one when the capacity is exceeded, \<open>pop\<close> takes an entry out.
\<close>

definition entry_delete :: "'k \<Rightarrow> ('k \<times> 'v) list \<Rightarrow> ('k \<times> 'v) list" where
  "entry_delete k es = filter (\<lambda>e. fst e \<noteq> k) es"

lemma map_of_entry_delete [simp]: "map_of (entry_delete k es) = (map_of es)(k := None)"
  by (induction es) (auto simp: entry_delete_def fun_eq_iff)

lemma distinct_entry_delete [simp]:
  "distinct (map fst es) \<Longrightarrow> distinct (map fst (entry_delete k es))"
  by (simp add: entry_delete_def distinct_map_filter)

lemma entry_delete_fst [simp]: "k \<notin> fst ` set (entry_delete k es)"
  by (auto simp: entry_delete_def)

lemma length_entry_delete: "length (entry_delete k es) \<le> length es"
  by (simp add: entry_delete_def)

lemma length_entry_delete_mem: "k \<in> fst ` set es \<Longrightarrow> length (entry_delete k es) < length es"
  by (auto simp: entry_delete_def intro!: length_filter_less)

lemma map_of_take_le: "distinct (map fst es) \<Longrightarrow> map_of (take n es) \<subseteq>\<^sub>m map_of es"
proof (unfold map_le_def, rule ballI)
  fix a
  assume d: "distinct (map fst es)" and "a \<in> dom (map_of (take n es))"
  then obtain v where v: "map_of (take n es) a = Some v" by auto
  then have "(a, v) \<in> set es" by (blast dest: map_of_SomeD in_set_takeD)
  with d v show "map_of (take n es) a = map_of es a" by simp
qed

locale lru_contract =
  fixes L :: "('addr, 'l) lru_ops"
    and entries :: "'l \<Rightarrow> ('addr \<times> arc) list"
    and capacity :: nat
  assumes capacity_pos: "0 < capacity"
    and get_spec: "lru_get L a l = (r, l') \<Longrightarrow> r = map_of (entries l) a \<and>
      entries l' = (case r of None \<Rightarrow> entries l | Some i \<Rightarrow> (a, i) # entry_delete a (entries l))"
    and put_spec: "entries (lru_put L a i l) = take capacity ((a, i) # entry_delete a (entries l))"
    and pop_spec: "lru_pop L a l = (r, l') \<Longrightarrow> r = map_of (entries l) a \<and>
      entries l' = entry_delete a (entries l)"
begin

definition lru_inv :: "'l \<Rightarrow> bool" where
  "lru_inv l \<longleftrightarrow> distinct (map fst (entries l)) \<and> length (entries l) \<le> capacity"

lemma lru_get_inv: "lru_inv l \<Longrightarrow> lru_get L a l = (r, l') \<Longrightarrow> lru_inv l'"
proof -
  assume inv: "lru_inv l" and get: "lru_get L a l = (r, l')"
  show "lru_inv l'"
  proof (cases "map_of (entries l) a")
    case None
    with get_spec [OF get] inv show ?thesis by (simp add: lru_inv_def)
  next
    case (Some i)
    then have "a \<in> fst ` set (entries l)" by (metis domI dom_map_of_conv_image_fst)
    then have "length (entry_delete a (entries l)) < length (entries l)"
      by (rule length_entry_delete_mem)
    with Some get_spec [OF get] inv show ?thesis by (simp add: lru_inv_def)
  qed
qed

lemma lru_put_inv: "lru_inv l \<Longrightarrow> lru_inv (lru_put L a i l)"
proof -
  assume "lru_inv l"
  then have "distinct (map fst ((a, i) # entry_delete a (entries l)))" by (simp add: lru_inv_def)
  then have "distinct (map fst (take capacity ((a, i) # entry_delete a (entries l))))"
    unfolding take_map [symmetric] by (rule distinct_take)
  then show ?thesis by (simp add: lru_inv_def put_spec)
qed

lemma lru_put_front: "map_of (entries (lru_put L a i l)) a = Some i"
  using capacity_pos by (cases capacity) (simp_all add: put_spec)

end

sublocale lru_contract \<subseteq> lru: connection_cache "lru_cache L" "\<lambda>l. map_of (entries l)" lru_inv
proof unfold_locales
  fix c a i h j c' h'
  assume inv: "lru_inv c" and found: "map_of (entries c) a = Some i"
    and get: "cc_get_or_insert (lru_cache L) a c h = (j, c', h')"
  obtain r l' where g: "lru_get L a c = (r, l')" by fastforce
  with get_spec [OF g] found get show "j = i \<and> h' = h \<and> map_of (entries c') = map_of (entries c)"
    by (auto simp: lru_cache_def lru_get_or_insert_def fun_eq_iff)
next
  fix c a h j c' h'
  assume inv: "lru_inv c" and absent: "map_of (entries c) a = None"
    and get: "cc_get_or_insert (lru_cache L) a c h = (j, c', h')"
  obtain r l' where g: "lru_get L a c = (r, l')" by fastforce
  have l': "r = None" "entries l' = entries c" using get_spec [OF g] absent by auto
  with g get have c': "c' = lru_put L a j l'" and alloc: "(j, h') = heap_alloc a h"
    by (auto simp: lru_cache_def lru_get_or_insert_def split: prod.splits)
  have "distinct (map fst ((a, j) # entry_delete a (entries c)))"
    using inv by (simp add: lru_inv_def)
  then have "map_of (entries c') \<subseteq>\<^sub>m map_of ((a, j) # entry_delete a (entries c))"
    unfolding c' put_spec l'(2) by (rule map_of_take_le)
  with c' alloc show "(j, h') = heap_alloc a h \<and> map_of (entries c') a = Some j \<and>
      map_of (entries c') \<subseteq>\<^sub>m (map_of (entries c))(a \<mapsto> j)"
    by (simp add: lru_put_front)
next
  fix c a h j c' h'
  assume inv: "lru_inv c" and get: "cc_get_or_insert (lru_cache L) a c h = (j, c', h')"
  obtain r l' where g: "lru_get L a c = (r, l')" by fastforce
  with get lru_get_inv [OF inv g] lru_put_inv [of l' a] show "lru_inv c'"
    by (auto simp: lru_cache_def lru_get_or_insert_def split: option.splits prod.splits)
next
  fix c a r c'
  assume inv: "lru_inv c" and rem: "cc_remove (lru_cache L) a c = (r, c')"
  then have "r = map_of (entries c) a \<and> entries c' = entry_delete a (entries c)"
    using pop_spec by (simp add: lru_cache_def lru_remove_def)
  with inv length_entry_delete [of a "entries c"]
  show "lru_inv c' \<and> r = map_of (entries c) a \<and> map_of (entries c') = (map_of (entries c))(a := None)"
    by (simp add: lru_inv_def)
qed

text \<open>
  The reference reading of the documentation: the cache is the list of its entries.  It shows
  that the contract can be kept, at every capacity of at least one.
\<close>

definition reference_lru :: "nat \<Rightarrow> ('addr, ('addr \<times> arc) list) lru_ops" where
  "reference_lru cap =
     \<lparr>lru_get = (\<lambda>a l. case map_of l a of
                   None \<Rightarrow> (None, l)
                 | Some i \<Rightarrow> (Some i, (a, i) # entry_delete a l)),
      lru_put = (\<lambda>a i l. take cap ((a, i) # entry_delete a l)),
      lru_pop = (\<lambda>a l. (map_of l a, entry_delete a l))\<rparr>"

interpretation ref_lru: lru_contract "reference_lru (Suc n)" "\<lambda>l. l" "Suc n"
  for n
  by unfold_locales (auto simp: reference_lru_def split: option.splits)

text \<open>What a request does to the entries, hit or miss: its address comes to the front.\<close>

context lru_contract
begin

lemma lru_get_or_insert_entries:
  assumes inv: "lru_inv l" and get: "lru_get_or_insert L a l h = (i, l', h')"
  shows "entries l' = take capacity ((a, i) # entry_delete a (entries l))" and "lru_inv l'"
    and "case map_of (entries l) a of Some j \<Rightarrow> i = j \<and> h' = h | None \<Rightarrow> (i, h') = heap_alloc a h"
proof -
  obtain r k where g: "lru_get L a l = (r, k)" by fastforce
  note spec = get_spec [OF g]
  have "entries l' = take capacity ((a, i) # entry_delete a (entries l)) \<and> lru_inv l' \<and>
    (case map_of (entries l) a of Some j \<Rightarrow> i = j \<and> h' = h | None \<Rightarrow> (i, h') = heap_alloc a h)"
  proof (cases r)
    case None
    with g get have l': "l' = lru_put L a i k" "(i, h') = heap_alloc a h"
      by (auto simp: lru_get_or_insert_def split: prod.splits)
    have "lru_inv k" by (rule lru_get_inv [OF inv g])
    with None l' spec lru_put_inv [of k a i] show ?thesis by (simp add: put_spec)
  next
    case (Some j)
    with g get have l': "l' = k" "i = j" "h' = h" by (auto simp: lru_get_or_insert_def)
    have k: "lru_inv k" by (rule lru_get_inv [OF inv g])
    have "entries k = (a, i) # entry_delete a (entries l)" using Some spec l' by simp
    moreover from this k have "length ((a, i) # entry_delete a (entries l)) \<le> capacity"
      by (simp add: lru_inv_def)
    ultimately show ?thesis using k l' Some spec by simp
  qed
  then show "entries l' = take capacity ((a, i) # entry_delete a (entries l))" and "lru_inv l'"
    and "case map_of (entries l) a of Some j \<Rightarrow> i = j \<and> h' = h | None \<Rightarrow> (i, h') = heap_alloc a h"
    by auto
qed

end

section \<open>Properties\<close>

text \<open>
  C29. The hash map shares connections: a request returns a connection to the address it asks
  for, leaves every other entry and connection alone, and a second request gets the same one
  with nothing changed; after an eviction the next request makes a connection that did not
  exist.
\<close>

theorem hashmap_shares_connections:
  assumes "heap_ok h" "\<forall>b j. m b = Some j \<longrightarrow> (\<exists>conn. h_conns h j = Some conn \<and> c_address conn = b)"
    and get: "cc_get_or_insert hashmap_cache a m h = (i, m', h')"
  shows "m' = m(a \<mapsto> i) \<and> (\<exists>conn. h_conns h' i = Some conn \<and> c_address conn = a) \<and>
    (\<forall>j conn. h_conns h j = Some conn \<longrightarrow> h_conns h' j = Some conn) \<and>
    cc_get_or_insert hashmap_cache a m' h' = (i, m', h') \<and>
    (\<exists>m2 k m3 h3. cc_remove hashmap_cache a m' = (Some i, m2) \<and>
      cc_get_or_insert hashmap_cache a m2 h' = (k, m3, h3) \<and> h_conns h' k = None)"
proof -
  have coh: "hm.coherent m h" using assms(1,2) by (simp add: hm.coherent_def)
  note ret = hm.get_or_insert_returns [OF coh get]
  have m': "m' = m(a \<mapsto> i)"
    using get by (auto simp: hashmap_cache_def hashmap_get_or_insert_def heap_alloc_def map_upd_triv
        split: option.splits)
  moreover have "cc_get_or_insert hashmap_cache a m' h' = (i, m', h')"
    by (simp add: hashmap_cache_def hashmap_get_or_insert_def m')
  moreover have rem: "cc_remove hashmap_cache a m' = (Some i, m'(a := None))"
    by (simp add: hashmap_cache_def hashmap_remove_def m')
  moreover obtain k m3 h3 where k: "cc_get_or_insert hashmap_cache a (m'(a := None)) h' = (k, m3, h3)"
    by (metis prod_cases3)
  ultimately show ?thesis using ret(3,4) hm.remove_then_get [OF ret(1) rem k] by blast
qed

theorem hashmap_shares_connections_witness:
  "\<exists>i m' h'. cc_get_or_insert hashmap_cache (5 :: nat) Map.empty (heap_empty :: (nat, nat) conn_heap) =
       (i, m', h') \<and> cc_get_or_insert hashmap_cache 5 m' h' = (i, m', h')"
proof -
  obtain i m' h' where g: "cc_get_or_insert hashmap_cache (5 :: nat) Map.empty
      (heap_empty :: (nat, nat) conn_heap) = (i, m', h')" by (metis prod_cases3)
  have h1: "heap_ok (heap_empty :: (nat, nat) conn_heap)" by simp
  have h2: "\<forall>b j. Map.empty b = Some j \<longrightarrow>
      (\<exists>conn. h_conns (heap_empty :: (nat, nat) conn_heap) j = Some conn \<and> c_address conn = b)" by simp
  have "cc_get_or_insert hashmap_cache 5 m' h' = (i, m', h')"
    using hashmap_shares_connections [where m = Map.empty, OF h1 h2 g] by (elim conjE) assumption
  with g show ?thesis by blast
qed

text \<open>
  C30. The LRU cache, on a crate that keeps its documentation: a request puts its address at the
  front, drops at most the entry used longest ago, never exceeds the capacity, and returns the
  cached connection if there is one and a new connection otherwise.
\<close>

theorem lru_cache_recency:
  assumes "lru_contract L entries capacity"
    and "distinct (map fst (entries l))" "length (entries l) \<le> capacity"
    and "cc_get_or_insert (lru_cache L) a l h = (i, l', h')"
  shows "entries l' = take capacity ((a, i) # entry_delete a (entries l)) \<and>
    distinct (map fst (entries l')) \<and> length (entries l') \<le> capacity \<and>
    (case map_of (entries l) a of Some j \<Rightarrow> i = j \<and> h' = h | None \<Rightarrow> (i, h') = heap_alloc a h)"
proof -
  have inv: "lru_contract.lru_inv entries capacity l"
    using assms(2,3) by (simp add: lru_contract.lru_inv_def [OF assms(1)])
  have get: "lru_get_or_insert L a l h = (i, l', h')" using assms(4) by (simp add: lru_cache_def)
  note facts = lru_contract.lru_get_or_insert_entries [OF assms(1) inv get]
  from facts(2) have "distinct (map fst (entries l')) \<and> length (entries l') \<le> capacity"
    by (simp add: lru_contract.lru_inv_def [OF assms(1)])
  with facts(1,3) show ?thesis by blast
qed

theorem lru_cache_recency_witness:
  "case cc_get_or_insert (lru_cache (reference_lru 2)) (30 :: nat) [(20, 1), (10, 0)]
        \<lparr>h_next = 2, h_conns = (\<lambda>_. None :: (nat, nat) Connection option)\<rparr> of
     (i, l', h') \<Rightarrow> i = 2 \<and> l' = [(30, 2), (20, 1)]"
proof -
  let ?h = "\<lparr>h_next = 2, h_conns = (\<lambda>_. None :: (nat, nat) Connection option)\<rparr>"
  obtain i l' h' where g: "cc_get_or_insert (lru_cache (reference_lru 2)) (30 :: nat)
      [(20, 1), (10, 0)] ?h = (i, l', h')" by (metis prod_cases3)
  have c: "lru_contract (reference_lru 2) (\<lambda>l :: (nat \<times> arc) list. l) 2"
    using ref_lru.lru_contract_axioms [of 1] by (simp add: numeral_2_eq_2)
  from lru_cache_recency [OF c _ _ g]
  have "l' = take 2 ((30, i) # entry_delete 30 [(20, 1), (10, 0)])" "(i, h') = heap_alloc 30 ?h"
    by simp_all
  with g show ?thesis by (simp add: entry_delete_def heap_alloc_def)
qed

end
