(* ===== verification/Net_Sender.thy ===== *)
theory Net_Sender
  imports Connection_Cache "HOL-Library.Multiset"
begin

text \<open>
  \<open>ShardusNetSender\<close> of \<open>shardus_net_sender.rs\<close>: building the frame of a message, and the
  sender and evictor tasks around the two channels and the connection cache.  The tasks run
  concurrently; a state of the sender is what they share, and each step is one of them moving.
  A \<open>Sender<SendResult>\<close> is the number of its oneshot channel.
\<close>

section \<open>Building frames\<close>

definition build_frame ::
    "externals \<Rightarrow> crypto_static \<Rightarrow> KeyPair \<Rightarrow> u8 \<Rightarrow> Header \<Rightarrow> u8 list \<Rightarrow> u8 list may_panic" where
  "build_frame E st key_pair hv hdr data =
     rbind (header_compress (x_codecs E) hdr data)
       (\<lambda>compressed_data.
          let hdr = header_set_message_length (as_u32 (length compressed_data)) hdr in
          rbind (expect ''Failed to serialize header'' (header_serialize_factory hv hdr))
            (\<lambda>serialized_header.
               let m = message_new_unsigned hv serialized_header compressed_data in
               rbind (get_shardus_crypto_instance st)
                 (\<lambda>sc. rbind (message_sign (x_sodium E) sc key_pair m)
                    (\<lambda>m. Inr (wrap_serialized_message (message_serialize m))))))"

lemma build_frame_eq_Inr:
  "build_frame E st kp hv hdr data = Inr f \<longleftrightarrow>
     (\<exists>h sc m. hv = 1 \<and> hdr = V1 h \<and> SHARDUS_CRYPTO_INSTANCE st = Some sc \<and>
        message_sign (x_sodium E) sc kp (message_new_unsigned 1
          (header_v1_serialize (h\<lparr>message_length := as_u32 (length data)\<rparr>)) data) = Inr m \<and>
        f = 1 # message_serialize m)"
  by (cases hdr)
    (auto simp: build_frame_def Let_def rust_simps header_serialize_factory_eq_Some
      get_shardus_crypto_instance_def wrap_serialized_message_def)

lemma build_frame_total:
  assumes "SHARDUS_CRYPTO_INSTANCE st = Some sc" "hash_key_accepted (x_sodium E) sc"
  shows "\<exists>f. build_frame E st kp 1 hdr data = Inr f"
proof (cases hdr)
  case (V1 h)
  with message_sign_total [OF assms(2)] assms(1) show ?thesis by (simp add: build_frame_eq_Inr)
qed

section \<open>The state of a sender\<close>

type_synonym token = nat

type_synonym 'addr send_item = "'addr \<times> u8 list \<times> token"

text \<open>
  \<open>ss_stalled\<close>: connections on which an operation - connecting or writing - will never answer.  The
  code sets no time limit, so the task that awaits the operation keeps the socket's lock, and
  every task of the connection waits with it.
\<close>

record ('addr, 's, 'c, 'w) sender =
  ss_send_channel :: "'addr send_item list"
  ss_evict_channel :: "'addr list"
  ss_connections :: 'c
  ss_heap :: "('addr, 's) conn_heap"
  ss_tasks :: "(arc \<times> u8 list \<times> token) list"
  ss_notified :: "(token \<times> 'addr SendResult) list"
  ss_shutdown :: "'s list"
  ss_stalled :: "arc set"
  ss_world :: 'w

definition sender_new :: "'c \<Rightarrow> 'w \<Rightarrow> ('addr, 's, 'c, 'w) sender" where
  "sender_new connections w =
     \<lparr>ss_send_channel = [], ss_evict_channel = [], ss_connections = connections,
      ss_heap = heap_empty, ss_tasks = [], ss_notified = [], ss_shutdown = [],
      ss_stalled = {}, ss_world = w\<rparr>"

section \<open>Operations of the handle\<close>

definition sender_send ::
    "'addr \<Rightarrow> string \<Rightarrow> token \<Rightarrow> ('addr, 's, 'c, 'w) sender \<Rightarrow> ('addr, 's, 'c, 'w) sender" where
  "sender_send address data complete_tx ss =
     ss\<lparr>ss_send_channel := ss_send_channel ss @ [(address, into_bytes data, complete_tx)]\<rparr>"

definition sender_send_with_header ::
    "externals \<Rightarrow> crypto_static \<Rightarrow> KeyPair \<Rightarrow> 'addr \<Rightarrow> u8 \<Rightarrow> Header \<Rightarrow> u8 list \<Rightarrow> token \<Rightarrow>
     ('addr, 's, 'c, 'w) sender \<Rightarrow> ('addr, 's, 'c, 'w) sender may_panic" where
  "sender_send_with_header E st key_pair address hv hdr data complete_tx ss =
     rbind (build_frame E st key_pair hv hdr data)
       (\<lambda>serialized_message.
          Inr (ss\<lparr>ss_send_channel := ss_send_channel ss @ [(address, serialized_message, complete_tx)]\<rparr>))"

text \<open>One frame for all addresses; \<open>zip\<close> stops at the shorter of the two vectors.\<close>

definition sender_multi_send_with_header ::
    "externals \<Rightarrow> crypto_static \<Rightarrow> KeyPair \<Rightarrow> 'addr list \<Rightarrow> u8 \<Rightarrow> Header \<Rightarrow> u8 list \<Rightarrow> token list \<Rightarrow>
     ('addr, 's, 'c, 'w) sender \<Rightarrow> ('addr, 's, 'c, 'w) sender may_panic" where
  "sender_multi_send_with_header E st key_pair addresses hv hdr data senders ss =
     rbind (build_frame E st key_pair hv hdr data)
       (\<lambda>serialized_message.
          Inr (ss\<lparr>ss_send_channel := ss_send_channel ss @
                    map (\<lambda>(address, tx). (address, serialized_message, tx)) (zip addresses senders)\<rparr>))"

definition sender_evict_socket ::
    "'addr \<Rightarrow> ('addr, 's, 'c, 'w) sender \<Rightarrow> ('addr, 's, 'c, 'w) sender" where
  "sender_evict_socket address ss = ss\<lparr>ss_evict_channel := ss_evict_channel ss @ [address]\<rparr>"

section \<open>The tasks\<close>

text \<open>
  \<open>spawn_sender\<close>: take the next item off the channel, look the connection up under the lock
  of the cache, spawn a task for the send.
\<close>

definition dispatch_next ::
    "('addr, 's, 'c) cache_ops \<Rightarrow> ('addr, 's, 'c, 'w) sender \<Rightarrow> ('addr, 's, 'c, 'w) sender option" where
  "dispatch_next C ss =
     (case ss_send_channel ss of
        [] \<Rightarrow> None
      | (address, data, complete_tx) # rest \<Rightarrow>
          (case cc_get_or_insert C address (ss_connections ss) (ss_heap ss) of
             (connection, connections', heap') \<Rightarrow>
               Some (ss\<lparr>ss_send_channel := rest, ss_connections := connections', ss_heap := heap',
                        ss_tasks := ss_tasks ss @ [(connection, data, complete_tx)]\<rparr>)))"

text \<open>
  The spawned task: send on the connection under its lock, then notify the oneshot.  The
  tasks are not ordered among themselves, so any of them may be the next to run.  The step is
  the task's last, when all operations of its send have answered; a task of a stalled connection
  never makes it.
\<close>

definition run_task ::
    "('addr, 's, 'w) tcp \<Rightarrow> nat \<Rightarrow> ('addr, 's, 'c, 'w) sender \<Rightarrow> ('addr, 's, 'c, 'w) sender option" where
  "run_task T k ss =
     (if k < length (ss_tasks ss) then
        (case ss_tasks ss ! k of (connection, data, complete_tx) \<Rightarrow>
           if connection \<in> ss_stalled ss then None else
           (case h_conns (ss_heap ss) connection of
              None \<Rightarrow> None
            | Some conn \<Rightarrow>
                (case connection_send T conn data (ss_world ss) of (result, conn', w') \<Rightarrow>
                   Some (ss\<lparr>ss_tasks := take k (ss_tasks ss) @ drop (Suc k) (ss_tasks ss),
                            ss_heap := (ss_heap ss)\<lparr>h_conns := (h_conns (ss_heap ss))(connection \<mapsto> conn')\<rparr>,
                            ss_notified := ss_notified ss @ [(complete_tx, result)],
                            ss_world := w'\<rparr>))))
      else None)"

text \<open>\<open>spawn_evictor\<close>: take the next address off its channel and remove it from the cache.\<close>

definition evict_next ::
    "('addr, 's, 'c) cache_ops \<Rightarrow> ('addr, 's, 'c, 'w) sender \<Rightarrow> ('addr, 's, 'c, 'w) sender option" where
  "evict_next C ss =
     (case ss_evict_channel ss of
        [] \<Rightarrow> None
      | address # rest \<Rightarrow>
          Some (ss\<lparr>ss_evict_channel := rest,
                   ss_connections := snd (cc_remove C address (ss_connections ss))\<rparr>))"

text \<open>
  \<open>Drop\<close>: a connection that neither the cache (\<open>cached\<close>) nor a task refers to any more is
  freed, and its stream is shut down.
\<close>

definition drop_unreferenced ::
    "('c \<Rightarrow> arc \<Rightarrow> bool) \<Rightarrow> arc \<Rightarrow> ('addr, 's, 'c, 'w) sender \<Rightarrow> ('addr, 's, 'c, 'w) sender option" where
  "drop_unreferenced cached i ss =
     (case h_conns (ss_heap ss) i of
        None \<Rightarrow> None
      | Some conn \<Rightarrow>
          if cached (ss_connections ss) i \<or> i \<in> fst ` set (ss_tasks ss) then None
          else Some (ss\<lparr>ss_heap := (ss_heap ss)\<lparr>h_conns := (h_conns (ss_heap ss))(i := None)\<rparr>,
                        ss_shutdown := ss_shutdown ss @
                          (case connection_drop conn of None \<Rightarrow> [] | Some s \<Rightarrow> [s])\<rparr>))"

text \<open>
  A peer stops answering: from now on an operation of one of the tasks pends, on a connection
  the task holds.  Bytes that the pending write has got out count as carried when it answers.
\<close>

definition stall_connection :: "arc \<Rightarrow> ('addr, 's, 'c, 'w) sender \<Rightarrow> ('addr, 's, 'c, 'w) sender option" where
  "stall_connection i ss =
     (if i \<in> fst ` set (ss_tasks ss) then Some (ss\<lparr>ss_stalled := insert i (ss_stalled ss)\<rparr>) else None)"

text \<open>
  The steps of a sender: a caller hands in an item or an eviction, a connection stalls, or one of
  the tasks moves.  The event carries what the step does for the outside.
\<close>

datatype 'addr sender_event = Submit "'addr send_item" | Evict_request 'addr | Stall | Internal

inductive sender_step ::
    "('addr, 's, 'c) cache_ops \<Rightarrow> ('c \<Rightarrow> arc \<Rightarrow> bool) \<Rightarrow> ('addr, 's, 'w) tcp \<Rightarrow>
     ('addr, 's, 'c, 'w) sender \<Rightarrow> 'addr sender_event \<Rightarrow> ('addr, 's, 'c, 'w) sender \<Rightarrow> bool"
  for C cached T where
  submit: "sender_step C cached T ss (Submit item)
     (ss\<lparr>ss_send_channel := ss_send_channel ss @ [item]\<rparr>)"
| evict_request: "sender_step C cached T ss (Evict_request a) (sender_evict_socket a ss)"
| stall: "stall_connection i ss = Some ss' \<Longrightarrow> sender_step C cached T ss Stall ss'"
| dispatch: "dispatch_next C ss = Some ss' \<Longrightarrow> sender_step C cached T ss Internal ss'"
| run: "run_task T k ss = Some ss' \<Longrightarrow> sender_step C cached T ss Internal ss'"
| evict: "evict_next C ss = Some ss' \<Longrightarrow> sender_step C cached T ss Internal ss'"
| dropped: "drop_unreferenced cached i ss = Some ss' \<Longrightarrow> sender_step C cached T ss Internal ss'"

inductive_cases sender_step_cases [consumes 1, case_names submit evict_request stall dispatch run evict dropped]:
  "sender_step C cached T ss e ss'"

text \<open>A run from \<open>ss\<close>: the items handed in on the way, in order, and the state it ends in.\<close>

inductive sender_run ::
    "('addr, 's, 'c) cache_ops \<Rightarrow> ('c \<Rightarrow> arc \<Rightarrow> bool) \<Rightarrow> ('addr, 's, 'w) tcp \<Rightarrow>
     ('addr, 's, 'c, 'w) sender \<Rightarrow> 'addr send_item list \<Rightarrow> ('addr, 's, 'c, 'w) sender \<Rightarrow> bool"
  for C cached T ss where
  nil: "sender_run C cached T ss [] ss"
| snoc: "sender_run C cached T ss items ss1 \<Longrightarrow> sender_step C cached T ss1 e ss2 \<Longrightarrow>
     sender_run C cached T ss (items @ (case e of Submit item \<Rightarrow> [item] | _ \<Rightarrow> [])) ss2"

section \<open>The operations as steps\<close>

lemma sender_send_is_submit:
  "sender_step C cached T ss (Submit (a, into_bytes d, t)) (sender_send a d t ss)"
  unfolding sender_send_def by (rule sender_step.submit)

lemma sender_send_with_header_is_submit:
  assumes "sender_send_with_header E st kp a hv hdr d t ss = Inr ss'"
  shows "\<exists>frame. build_frame E st kp hv hdr d = Inr frame \<and>
    sender_step C cached T ss (Submit (a, frame, t)) ss'"
  using assms by (auto simp: sender_send_with_header_def rust_simps intro: sender_step.submit)

lemma sender_run_submit_all:
  "sender_run C cached T ss0 xs ss \<Longrightarrow>
   sender_run C cached T ss0 (xs @ items) (ss\<lparr>ss_send_channel := ss_send_channel ss @ items\<rparr>)"
proof (induction items rule: rev_induct)
  case Nil
  then show ?case by simp
next
  case (snoc x items)
  have "sender_step C cached T (ss\<lparr>ss_send_channel := ss_send_channel ss @ items\<rparr>) (Submit x)
     (ss\<lparr>ss_send_channel := ss_send_channel ss @ items @ [x]\<rparr>)"
    using sender_step.submit [of C cached T "ss\<lparr>ss_send_channel := ss_send_channel ss @ items\<rparr>" x]
    by simp
  from sender_run.snoc [OF snoc.IH [OF snoc.prems] this] show ?case by simp
qed

lemma sender_run_trans:
  "sender_run C cached T ss1 ys ss2 \<Longrightarrow> sender_run C cached T ss xs ss1 \<Longrightarrow>
   sender_run C cached T ss (xs @ ys) ss2"
proof (induction rule: sender_run.induct)
  case (snoc items ss2 e ss3)
  from sender_run.snoc [OF snoc.IH [OF snoc.prems] snoc.hyps(2)] show ?case by simp
qed simp

lemma sender_run_internal:
  "sender_step C cached T ss Internal ss' \<Longrightarrow> sender_run C cached T ss [] ss'"
  using sender_run.snoc [OF sender_run.nil, of C cached T ss Internal ss'] by simp

section \<open>Where the tokens are\<close>

lemma distinct_subseteq_mset:
  assumes "distinct ys" "mset xs \<subseteq># mset ys"
  shows "distinct xs"
proof -
  have le: "count (mset xs) x \<le> count (mset ys) x" for x
    using assms(2) by (rule mset_subset_eq_count)
  have "count (mset ys) x \<le> 1" for x
    using assms(1) by (simp add: distinct_count_atmost_1)
  with le have one: "count (mset xs) x \<le> 1" for x by (metis le_trans)
  have "count (mset xs) x = (if x \<in> set xs then 1 else 0)" for x
  proof (cases "x \<in> set xs")
    case True
    then have "0 < count (mset xs) x" by (simp only: count_greater_zero_iff set_mset_mset)
    with one [of x] True show ?thesis by (simp del: count_greater_zero_iff)
  qed (simp add: count_eq_zero_iff)
  then show ?thesis by (simp add: distinct_count_atmost_1)
qed

text \<open>Every token handed in is in the channel, with a task, or notified, and in one of them.\<close>

definition channel_tokens :: "('addr, 's, 'c, 'w) sender \<Rightarrow> token multiset" where
  "channel_tokens ss = mset (map (\<lambda>(a, d, t). t) (ss_send_channel ss))"

definition task_tokens :: "('addr, 's, 'c, 'w) sender \<Rightarrow> token multiset" where
  "task_tokens ss = mset (map (\<lambda>(i, d, t). t) (ss_tasks ss))"

definition notified_tokens :: "('addr, 's, 'c, 'w) sender \<Rightarrow> token multiset" where
  "notified_tokens ss = mset (map fst (ss_notified ss))"

definition all_tokens :: "('addr, 's, 'c, 'w) sender \<Rightarrow> token multiset" where
  "all_tokens ss = channel_tokens ss + task_tokens ss + notified_tokens ss"

lemmas token_defs = all_tokens_def channel_tokens_def task_tokens_def notified_tokens_def

lemma mset_remove_nth:
  "k < length xs \<Longrightarrow> mset xs = mset (take k xs @ drop (Suc k) xs) + {#xs ! k#}"
  by (metis add_mset_add_single id_take_nth_drop mset.simps(2) mset_append union_mset_add_mset_right)

lemma dispatch_tokens: "dispatch_next C ss = Some ss' \<Longrightarrow> all_tokens ss' = all_tokens ss"
  by (auto simp: dispatch_next_def token_defs split: list.splits prod.splits)

lemma run_task_tokens:
  assumes "run_task T k ss = Some ss'"
  shows "all_tokens ss' = all_tokens ss"
proof -
  have k: "k < length (ss_tasks ss)" using assms by (auto simp: run_task_def split: if_splits)
  obtain i d t where nth: "ss_tasks ss ! k = (i, d, t)" by (metis prod_cases3)
  have "ss_tasks ss' = take k (ss_tasks ss) @ drop (Suc k) (ss_tasks ss)"
    "notified_tokens ss' = add_mset t (notified_tokens ss)"
    "channel_tokens ss' = channel_tokens ss"
    using assms k nth
    by (auto simp: run_task_def notified_tokens_def channel_tokens_def split: option.splits prod.splits if_splits)
  moreover have "task_tokens ss = image_mset (\<lambda>(i, d, t). t) (mset (take k (ss_tasks ss) @ drop (Suc k) (ss_tasks ss))) + {#t#}"
    using mset_remove_nth [OF k] nth by (simp add: task_tokens_def)
  ultimately show ?thesis by (simp add: all_tokens_def task_tokens_def)
qed

lemma evict_tokens: "evict_next C ss = Some ss' \<Longrightarrow> all_tokens ss' = all_tokens ss"
  by (auto simp: evict_next_def token_defs split: list.splits)

lemma drop_tokens: "drop_unreferenced cached i ss = Some ss' \<Longrightarrow> all_tokens ss' = all_tokens ss"
  by (auto simp: drop_unreferenced_def token_defs split: option.splits if_splits)

lemma stall_keeps:
  assumes "stall_connection i ss = Some ss'"
  shows "ss' = ss\<lparr>ss_stalled := insert i (ss_stalled ss)\<rparr>" "i \<in> fst ` set (ss_tasks ss)"
  using assms by (auto simp: stall_connection_def split: if_splits)

lemma stall_tokens: "stall_connection i ss = Some ss' \<Longrightarrow> all_tokens ss' = all_tokens ss"
  by (auto dest: stall_keeps simp: token_defs)

lemma sender_step_tokens:
  "sender_step C cached T ss e ss' \<Longrightarrow>
   all_tokens ss' = all_tokens ss + (case e of Submit (a, d, t) \<Rightarrow> {#t#} | _ \<Rightarrow> {#})"
  by (cases rule: sender_step.cases)
    (auto simp: stall_tokens dispatch_tokens run_task_tokens evict_tokens drop_tokens,
     auto simp: token_defs sender_evict_socket_def)

lemma sender_run_tokens:
  "sender_run C cached T ss items ss' \<Longrightarrow>
   all_tokens ss' = all_tokens ss + mset (map (\<lambda>(a, d, t). t) items)"
proof (induction rule: sender_run.induct)
  case (snoc items ss1 e ss2)
  then show ?case
    using sender_step_tokens [OF snoc.hyps(2)]
    by (cases e) (auto split: prod.splits)
qed simp

section \<open>The sender on a cache that keeps its contract\<close>

context connection_cache
begin

text \<open>
  Cache and heap agree, every task holds a connection of the heap, every socket in the heap is
  an open stream that carries whole frames or is broken, and no two connections share one.
\<close>

definition tasks_ok :: "('addr, 's, 'c, 'w) sender \<Rightarrow> bool" where
  "tasks_ok ss \<longleftrightarrow> (\<forall>(i, d, t) \<in> set (ss_tasks ss). h_conns (ss_heap ss) i \<noteq> None)"

definition sockets_ok :: "('s, 'w) observe \<Rightarrow> ('addr, 's, 'c, 'w) sender \<Rightarrow> bool" where
  "sockets_ok V ss \<longleftrightarrow>
     (\<forall>i conn. h_conns (ss_heap ss) i = Some conn \<longrightarrow> conn_inv V (ss_world ss) conn) \<and>
     (\<forall>i j conn conn' s. h_conns (ss_heap ss) i = Some conn \<longrightarrow> h_conns (ss_heap ss) j = Some conn' \<longrightarrow>
        c_socket conn = Some s \<longrightarrow> c_socket conn' = Some s \<longrightarrow> i = j)"

definition sender_inv :: "('s, 'w) observe \<Rightarrow> ('addr, 's, 'c, 'w) sender \<Rightarrow> bool" where
  "sender_inv V ss \<longleftrightarrow>
     coherent (ss_connections ss) (ss_heap ss) \<and> tasks_ok ss \<and> sockets_ok V ss"

text \<open>The connections the cache refers to.\<close>

definition holds :: "'c \<Rightarrow> arc \<Rightarrow> bool" where
  "holds c i \<longleftrightarrow> (\<exists>a. view c a = Some i)"

lemma sender_inv_new:
  assumes "invar c" "view c = Map.empty"
  shows "sender_inv V (sender_new c w)"
  using assms by (simp add: sender_inv_def sender_new_def coherent_def tasks_ok_def sockets_ok_def heap_empty_def heap_ok_def)

lemma get_or_insert_new_or_old:
  assumes "coherent c h" "cc_get_or_insert ops a c h = (i, c', h')" "h_conns h' j = Some conn"
  shows "h_conns h j = Some conn \<or> conn = connection_new a"
proof (cases "view c a")
  case (Some k)
  then show ?thesis using hit [of c a k h i c' h'] assms by (auto simp: coherent_def)
next
  case None
  then show ?thesis
    using miss [of c a h i c' h'] assms by (auto simp: coherent_def heap_alloc_def split: if_splits)
qed

lemma dispatch_inv:
  assumes inv: "sender_inv V ss" and step: "dispatch_next ops ss = Some ss'"
  shows "sender_inv V ss'"
proof -
  obtain a d t rest where ch: "ss_send_channel ss = (a, d, t) # rest"
    using step by (auto simp: dispatch_next_def split: list.splits)
  obtain i c' h' where g: "cc_get_or_insert ops a (ss_connections ss) (ss_heap ss) = (i, c', h')"
    by (metis prod_cases3)
  have ss': "ss' = ss\<lparr>ss_send_channel := rest, ss_connections := c', ss_heap := h',
      ss_tasks := ss_tasks ss @ [(i, d, t)]\<rparr>"
    using step ch g by (simp add: dispatch_next_def)
  have coh: "coherent (ss_connections ss) (ss_heap ss)" using inv by (simp add: sender_inv_def)
  note ret = get_or_insert_returns [OF coh g]
  have "tasks_ok ss'"
    using inv ret(3,4) unfolding sender_inv_def tasks_ok_def ss' by fastforce
  moreover have "sockets_ok V ss'"
    unfolding sockets_ok_def
  proof (intro conjI allI impI)
    fix j conn assume "h_conns (ss_heap ss') j = Some conn"
    then have "h_conns (ss_heap ss) j = Some conn \<or> conn = connection_new a"
      using get_or_insert_new_or_old [OF coh g] ss' by simp
    then show "conn_inv V (ss_world ss') conn"
      using inv ss' by (auto simp: sender_inv_def sockets_ok_def)
  next
    fix j k conn conn' s
    assume "h_conns (ss_heap ss') j = Some conn" "h_conns (ss_heap ss') k = Some conn'"
      and s: "c_socket conn = Some s" "c_socket conn' = Some s"
    then have "h_conns (ss_heap ss) j = Some conn" "h_conns (ss_heap ss) k = Some conn'"
      using get_or_insert_new_or_old [OF coh g, of j conn]
        get_or_insert_new_or_old [OF coh g, of k conn'] ss'
      by (auto simp: connection_new_def)
    with s show "j = k" using inv unfolding sender_inv_def sockets_ok_def by blast
  qed
  ultimately show ?thesis using ret(1) by (simp add: sender_inv_def ss')
qed


lemma run_task_inv:
  assumes T: "tcp_lawful V T" and inv: "sender_inv V ss" and step: "run_task T k ss = Some ss'"
  shows "sender_inv V ss'"
proof -
  obtain i d t where nth: "ss_tasks ss ! k = (i, d, t)" by (metis prod_cases3)
  obtain conn where conn: "h_conns (ss_heap ss) i = Some conn"
    using step nth by (auto simp: run_task_def split: if_splits option.splits)
  obtain r conn' w' where send: "connection_send T conn d (ss_world ss) = (r, conn', w')"
    by (metis prod_cases3)
  have ss': "ss' = ss\<lparr>ss_tasks := take k (ss_tasks ss) @ drop (Suc k) (ss_tasks ss),
      ss_heap := (ss_heap ss)\<lparr>h_conns := (h_conns (ss_heap ss))(i \<mapsto> conn')\<rparr>,
      ss_notified := ss_notified ss @ [(t, r)], ss_world := w'\<rparr>"
    using step nth conn send by (auto simp: run_task_def split: if_splits)
  have addr: "c_address conn' = c_address conn" using send by simp
  have ci: "conn_inv V (ss_world ss) conn" using inv conn by (simp add: sender_inv_def sockets_ok_def)
  have share: "x = y" if "h_conns (ss_heap ss) x = Some cx" "h_conns (ss_heap ss) y = Some cy"
    "c_socket cx = Some s" "c_socket cy = Some s" for x y cx cy s
    using inv that unfolding sender_inv_def sockets_ok_def by blast
  have opened: "s \<in> o_opened V (ss_world ss)"
    if "h_conns (ss_heap ss) x = Some cx" "c_socket cx = Some s" for x cx s
    using inv that unfolding sender_inv_def sockets_ok_def conn_inv_def by fastforce
  have "coherent (ss_connections ss') (ss_heap ss')"
    using inv conn addr by (fastforce simp: sender_inv_def coherent_def heap_ok_def ss')
  moreover have "tasks_ok ss'"
    using inv by (auto simp: sender_inv_def tasks_ok_def ss' dest!: in_set_takeD in_set_dropD)
  moreover have "sockets_ok V ss'"
    unfolding sockets_ok_def
  proof (intro conjI allI impI)
    fix j cj assume j: "h_conns (ss_heap ss') j = Some cj"
    show "conn_inv V (ss_world ss') cj"
    proof (cases "j = i")
      case True
      with j show ?thesis using connection_send_inv [OF T send ci] by (simp add: ss')
    next
      case False
      with j have cj: "h_conns (ss_heap ss) j = Some cj" by (simp add: ss')
      with inv have "conn_inv V (ss_world ss) cj" by (simp add: sender_inv_def sockets_ok_def)
      moreover have "set_option (c_socket cj) \<inter> set_option (c_socket conn) = {}"
        using share [OF cj conn] False by auto
      ultimately show ?thesis
        using conn_inv_untouched [OF connection_send_untouched [OF T send]] by (simp add: ss')
    qed
  next
    fix j l cj cl s
    assume jl: "h_conns (ss_heap ss') j = Some cj" "h_conns (ss_heap ss') l = Some cl"
      "c_socket cj = Some s" "c_socket cl = Some s"
    have own: "c_socket conn = Some s \<or> s \<notin> o_opened V (ss_world ss)"
      if "c_socket conn' = Some s"
      using connection_send_socket [OF T send that] .
    have mixed: "False" if "x \<noteq> i" "h_conns (ss_heap ss) x = Some cx" "c_socket cx = Some s"
      "c_socket conn' = Some s" for x cx
      using own [OF that(4)] share [OF that(2) conn that(3)] opened [OF that(2,3)] that(1) by blast
    show "j = l"
      using jl share [of j cj l cl s] mixed [of j cj] mixed [of l cl]
      by (auto simp: ss' split: if_splits)
  qed
  ultimately show ?thesis by (simp add: sender_inv_def)
qed

lemma evict_inv:
  assumes inv: "sender_inv V ss" and step: "evict_next ops ss = Some ss'"
  shows "sender_inv V ss'"
proof -
  obtain a rest where ch: "ss_evict_channel ss = a # rest"
    using step by (auto simp: evict_next_def split: list.splits)
  obtain r c' where rem: "cc_remove ops a (ss_connections ss) = (r, c')" by fastforce
  have ss': "ss' = ss\<lparr>ss_evict_channel := rest, ss_connections := c'\<rparr>"
    using step ch rem by (simp add: evict_next_def)
  show ?thesis
    using inv remove_coherent [OF _ rem, of "ss_heap ss"]
    by (simp add: sender_inv_def tasks_ok_def sockets_ok_def ss')
qed

lemma drop_inv:
  assumes inv: "sender_inv V ss" and step: "drop_unreferenced cached i ss = Some ss'"
    and cached: "\<And>c i. holds c i \<Longrightarrow> cached c i"
  shows "sender_inv V ss'"
proof -
  obtain conn where conn: "h_conns (ss_heap ss) i = Some conn"
    and free: "\<not> cached (ss_connections ss) i" "i \<notin> fst ` set (ss_tasks ss)"
    and ss': "ss' = ss\<lparr>ss_heap := (ss_heap ss)\<lparr>h_conns := (h_conns (ss_heap ss))(i := None)\<rparr>,
      ss_shutdown := ss_shutdown ss @ (case connection_drop conn of None \<Rightarrow> [] | Some s \<Rightarrow> [s])\<rparr>"
    using step by (auto simp: drop_unreferenced_def split: option.splits if_splits)
  have "\<not> holds (ss_connections ss) i" using free(1) cached by blast
  then have "coherent (ss_connections ss') (ss_heap ss')"
    using inv by (auto simp: sender_inv_def coherent_def heap_ok_def holds_def ss')
  moreover have "tasks_ok ss'"
    using inv free(2) by (force simp: sender_inv_def tasks_ok_def ss')
  moreover have "sockets_ok V ss'"
    using inv unfolding sender_inv_def sockets_ok_def ss' by (auto split: if_splits)
  ultimately show ?thesis by (simp add: sender_inv_def)
qed

lemma sender_step_inv:
  assumes "tcp_lawful V T" "\<And>c i. holds c i \<Longrightarrow> cached c i"
  shows "sender_step ops cached T ss e ss' \<Longrightarrow> sender_inv V ss \<Longrightarrow> sender_inv V ss'"
proof (induction rule: sender_step.induct)
  case (submit ss item)
  then show ?case by (simp add: sender_inv_def tasks_ok_def sockets_ok_def)
next
  case (evict_request ss a)
  then show ?case by (simp add: sender_evict_socket_def sender_inv_def tasks_ok_def sockets_ok_def)
next
  case (stall i ss ss')
  from stall_keeps(1) [OF stall.hyps] stall.prems show ?case
    by (simp add: sender_inv_def tasks_ok_def sockets_ok_def)
qed (use assms dispatch_inv run_task_inv evict_inv drop_inv in blast)+

lemma sender_run_inv:
  assumes "tcp_lawful V T" "\<And>c i. holds c i \<Longrightarrow> cached c i"
  shows "sender_run ops cached T ss items ss' \<Longrightarrow> sender_inv V ss \<Longrightarrow> sender_inv V ss'"
proof (induction rule: sender_run.induct)
  case (snoc items ss1 e ss2)
  then show ?case using sender_step_inv [of V T cached, OF assms] by blast
qed

text \<open>
  A task is stuck only where its connection is stalled.
\<close>

lemma run_task_possible:
  assumes "sender_inv V ss" "k < length (ss_tasks ss)" "fst (ss_tasks ss ! k) \<notin> ss_stalled ss"
  shows "\<exists>ss'. run_task T k ss = Some ss' \<and> length (ss_tasks ss') = length (ss_tasks ss) - 1 \<and>
    ss_send_channel ss' = ss_send_channel ss"
proof -
  obtain i d t where nth: "ss_tasks ss ! k = (i, d, t)" by (metis prod_cases3)
  then have "(i, d, t) \<in> set (ss_tasks ss)" using assms(2) by (metis nth_mem)
  then obtain conn where "h_conns (ss_heap ss) i = Some conn"
    using assms(1) by (auto simp: sender_inv_def tasks_ok_def)
  with nth assms(2,3) show ?thesis by (auto simp: run_task_def split: prod.splits)
qed

end

text \<open>What the hash map holds, and what an LRU cache holds.\<close>

definition hashmap_cached :: "('addr \<rightharpoonup> arc) \<Rightarrow> arc \<Rightarrow> bool" where
  "hashmap_cached m i \<longleftrightarrow> i \<in> ran m"

lemma hm_holds: "hm.holds m i \<longleftrightarrow> hashmap_cached m i"
  by (simp add: hm.holds_def hashmap_cached_def ran_def)

section \<open>Items go to their addresses\<close>

context connection_cache
begin

text \<open>
  Where data ends up: a connection's stream, as long as no write on it has failed, carries
  frames of items handed in for the connection's address, and nothing else.  \<open>routed\<close> says so
  of all connections, and that tasks hold connections to the addresses of their items and
  errors name the addresses of theirs.
\<close>

definition carries :: "('s, 'w) observe \<Rightarrow> 'addr send_item list \<Rightarrow> 'w \<Rightarrow> ('addr, 's) Connection \<Rightarrow> bool" where
  "carries V items w conn \<longleftrightarrow>
     (\<forall>s. c_socket conn = Some s \<longrightarrow> s \<notin> o_broken V w \<longrightarrow>
        (\<exists>ds. o_wire V w s = concat (map wire_frame ds) \<and>
           (\<forall>d \<in> set ds. \<exists>t. (c_address conn, d, t) \<in> set items)))"

definition routed :: "('s, 'w) observe \<Rightarrow> 'addr send_item list \<Rightarrow> ('addr, 's, 'c, 'w) sender \<Rightarrow> bool" where
  "routed V items ss \<longleftrightarrow>
     set (ss_send_channel ss) \<subseteq> set items \<and>
     (\<forall>(i, d, t) \<in> set (ss_tasks ss). \<exists>conn. h_conns (ss_heap ss) i = Some conn \<and>
        (c_address conn, d, t) \<in> set items) \<and>
     (\<forall>(t, r) \<in> set (ss_notified ss). \<forall>err. r = Inl err \<longrightarrow> (\<exists>d. (error_address err, d, t) \<in> set items)) \<and>
     (\<forall>i conn. h_conns (ss_heap ss) i = Some conn \<longrightarrow> carries V items (ss_world ss) conn)"

lemma carries_new [simp]: "carries V items w (connection_new a)"
  by (simp add: carries_def connection_new_def)

lemma carries_mono: "carries V items w conn \<Longrightarrow> set items \<subseteq> set items' \<Longrightarrow> carries V items' w conn"
  unfolding carries_def by blast

lemma routed_mono:
  assumes r: "routed V items ss" and sub: "set items \<subseteq> set items'"
  shows "routed V items' ss"
proof -
  have "carries V items' w conn" if "carries V items w conn" for w conn
    using that sub by (rule carries_mono)
  with r sub show ?thesis unfolding routed_def by fast
qed

lemma carries_send:
  assumes T: "tcp_lawful V T" and send: "connection_send T conn d w = (r, conn', w')"
    and own: "set_option (c_socket conn) \<subseteq> o_opened V w"
    and c: "carries V items w conn" and d: "(c_address conn, d, t) \<in> set items"
  shows "carries V items w' conn'"
proof (cases r)
  case (Inr u)
  from connection_send_Ok [OF T send [unfolded Inr] own] obtain s where s:
    "c_socket conn' = Some s" "c_socket conn = Some s \<longrightarrow> s \<notin> o_broken V w"
    "o_wire V w' s = (if c_socket conn = Some s then o_wire V w s else []) @ wire_frame d" by blast
  have "\<exists>ds. o_wire V w' s = concat (map wire_frame ds) \<and>
      (\<forall>x \<in> set ds. \<exists>t. (c_address conn, x, t) \<in> set items)"
  proof (cases "c_socket conn = Some s")
    case True
    with c s(2) obtain ds where "o_wire V w s = concat (map wire_frame ds)"
      "\<forall>x \<in> set ds. \<exists>t. (c_address conn, x, t) \<in> set items"
      unfolding carries_def by blast
    with s(3) True d show ?thesis by (intro exI [of _ "ds @ [d]"]) auto
  next
    case False
    with s(3) d show ?thesis by (intro exI [of _ "[d]"]) auto
  qed
  with s(1) send show ?thesis by (simp add: carries_def)
next
  case (Inl e)
  from send show ?thesis
  proof (cases rule: connection_send_cases)
    case (failed_twice s w1 e w2 s' w3 error)
    with write_broken [OF T failed_twice(4)] show ?thesis by (simp add: carries_def)
  qed (use Inl in \<open>auto simp: carries_def\<close>)
qed

lemma carries_untouched:
  assumes "untouched V own w w'" "carries V items w conn" "conn_inv V w conn"
    and "set_option (c_socket conn) \<inter> own = {}"
  shows "carries V items w' conn"
  using assms by (cases "c_socket conn") (auto simp: carries_def untouched_def conn_inv_def)

lemma routed_dispatch:
  assumes inv: "sender_inv V ss" and r: "routed V items ss" and step: "dispatch_next ops ss = Some ss'"
  shows "routed V items ss'"
proof -
  obtain a d t rest where ch: "ss_send_channel ss = (a, d, t) # rest"
    using step by (auto simp: dispatch_next_def split: list.splits)
  obtain i c' h' where g: "cc_get_or_insert ops a (ss_connections ss) (ss_heap ss) = (i, c', h')"
    by (metis prod_cases3)
  have ss': "ss' = ss\<lparr>ss_send_channel := rest, ss_connections := c', ss_heap := h',
      ss_tasks := ss_tasks ss @ [(i, d, t)]\<rparr>"
    using step ch g by (simp add: dispatch_next_def)
  have coh: "coherent (ss_connections ss) (ss_heap ss)" using inv by (simp add: sender_inv_def)
  note ret = get_or_insert_returns [OF coh g]
  have "(a, d, t) \<in> set items" using r ch by (simp add: routed_def)
  moreover have "carries V items (ss_world ss) conn" if "h_conns h' j = Some conn" for j conn
    using get_or_insert_new_or_old [OF coh g that] r by (auto simp: routed_def)
  moreover have "\<exists>conn. h_conns h' i = Some conn \<and> c_address conn = a" by (rule ret(3))
  moreover have "\<exists>conn. h_conns h' j = Some conn \<and> (c_address conn, e, u) \<in> set items"
    if "(j, e, u) \<in> set (ss_tasks ss)" for j e u
    using r that ret(4) unfolding routed_def by fast
  ultimately show ?thesis using r ch unfolding routed_def ss' by auto
qed

lemma routed_run_task:
  assumes T: "tcp_lawful V T" and inv: "sender_inv V ss" and r: "routed V items ss"
    and step: "run_task T k ss = Some ss'"
  shows "routed V items ss'"
proof -
  obtain i d t where nth: "ss_tasks ss ! k = (i, d, t)" by (metis prod_cases3)
  obtain conn where conn: "h_conns (ss_heap ss) i = Some conn" and k: "k < length (ss_tasks ss)"
    using step nth by (auto simp: run_task_def split: if_splits option.splits)
  obtain res conn' w' where send: "connection_send T conn d (ss_world ss) = (res, conn', w')"
    by (metis prod_cases3)
  have ss': "ss' = ss\<lparr>ss_tasks := take k (ss_tasks ss) @ drop (Suc k) (ss_tasks ss),
      ss_heap := (ss_heap ss)\<lparr>h_conns := (h_conns (ss_heap ss))(i \<mapsto> conn')\<rparr>,
      ss_notified := ss_notified ss @ [(t, res)], ss_world := w'\<rparr>"
    using step nth conn send by (auto simp: run_task_def split: if_splits)
  have addr: "c_address conn' = c_address conn" using send by simp
  have "(i, d, t) \<in> set (ss_tasks ss)" using nth k by (metis nth_mem)
  then have item: "(c_address conn, d, t) \<in> set items"
    using r conn unfolding routed_def by fastforce
  have "conn_inv V (ss_world ss) conn" using inv conn by (simp add: sender_inv_def sockets_ok_def)
  then have own: "set_option (c_socket conn) \<subseteq> o_opened V (ss_world ss)"
    by (auto simp: conn_inv_def split: option.splits)
  have c1: "carries V items w' conn'"
    using carries_send [OF T send own _ item] r conn by (simp add: routed_def)
  have c2: "carries V items w' cj" if "j \<noteq> i" "h_conns (ss_heap ss) j = Some cj" for j cj
  proof (rule carries_untouched [OF connection_send_untouched [OF T send]])
    show "carries V items (ss_world ss) cj" using r that by (simp add: routed_def)
    show "conn_inv V (ss_world ss) cj" using inv that by (simp add: sender_inv_def sockets_ok_def)
    show "set_option (c_socket cj) \<inter> set_option (c_socket conn) = {}"
      using inv that conn unfolding sender_inv_def sockets_ok_def by fastforce
  qed
  have tasks: "\<exists>c. (h_conns (ss_heap ss)) j = Some c \<and> (c_address c, e, u) \<in> set items"
    if "(j, e, u) \<in> set (ss_tasks ss)" for j e u
    using r that unfolding routed_def by fast
  have "\<exists>c. ((h_conns (ss_heap ss))(i \<mapsto> conn')) j = Some c \<and> (c_address c, e, u) \<in> set items"
    if "(j, e, u) \<in> set (ss_tasks ss)" for j e u
    using tasks [OF that] addr conn by auto
  moreover have "\<exists>d. (error_address err, d, t) \<in> set items" if "res = Inl err" for err
    using connection_send_error_address [OF send [unfolded that]] item by auto
  ultimately show ?thesis
    using r c1 c2 unfolding routed_def ss'
    by (auto dest!: in_set_takeD in_set_dropD)
qed

lemma routed_step:
  assumes T: "tcp_lawful V T" and inv: "sender_inv V ss" and r: "routed V items ss"
    and step: "sender_step ops cached T ss e ss'"
  shows "routed V (items @ (case e of Submit item \<Rightarrow> [item] | _ \<Rightarrow> [])) ss'"
  using step
proof (cases rule: sender_step_cases)
  case (submit item)
  have "routed V (items @ [item]) ss" using r by (rule routed_mono) auto
  with submit show ?thesis by (simp add: routed_def)
next
  case (evict_request a)
  with r show ?thesis by (simp add: routed_def sender_evict_socket_def)
next
  case (stall i)
  from stall_keeps(1) [OF stall(2)] r stall(1) show ?thesis by (simp add: routed_def)
next
  case dispatch
  with routed_dispatch [OF inv r] show ?thesis by simp
next
  case (run k)
  with routed_run_task [OF T inv r] show ?thesis by simp
next
  case evict
  then have "ss_tasks ss' = ss_tasks ss" "ss_send_channel ss' = ss_send_channel ss"
    "ss_notified ss' = ss_notified ss" "ss_world ss' = ss_world ss" "ss_heap ss' = ss_heap ss"
    by (auto simp: evict_next_def split: list.splits)
  with r evict(1) show ?thesis by (simp add: routed_def)
next
  case (dropped i)
  then have "ss_tasks ss' = ss_tasks ss" "ss_send_channel ss' = ss_send_channel ss"
    "ss_notified ss' = ss_notified ss" "ss_world ss' = ss_world ss" "i \<notin> fst ` set (ss_tasks ss)"
    "h_conns (ss_heap ss') = (h_conns (ss_heap ss))(i := None)"
    by (auto simp: drop_unreferenced_def split: option.splits if_splits)
  note same = this
  have "\<exists>c. h_conns (ss_heap ss') j = Some c \<and> (c_address c, e, u) \<in> set items"
    if "(j, e, u) \<in> set (ss_tasks ss)" for j e u
  proof -
    have "j \<noteq> i" using that same(5) by force
    moreover have "\<exists>c. h_conns (ss_heap ss) j = Some c \<and> (c_address c, e, u) \<in> set items"
      using r that unfolding routed_def by fast
    ultimately show ?thesis using same(6) by simp
  qed
  with r dropped(1) same show ?thesis by (auto simp: routed_def split: if_splits)
qed

lemma routed_new: "routed V [] (sender_new c w)"
  by (simp add: routed_def sender_new_def heap_empty_def)

lemma sender_run_routed:
  assumes T: "tcp_lawful V T" and cached: "\<And>c i. holds c i \<Longrightarrow> cached c i"
  shows "sender_run ops cached T ss items ss' \<Longrightarrow> sender_inv V ss \<Longrightarrow> routed V [] ss \<Longrightarrow>
    routed V items ss' \<and> sender_inv V ss'"
proof (induction rule: sender_run.induct)
  case nil
  then show ?case by simp
next
  case (snoc items ss1 e ss2)
  then have IH: "routed V items ss1" "sender_inv V ss1" by auto
  have "sender_inv V ss2" using sender_step_inv [of V T cached, OF T cached snoc.hyps(2) IH(2)] .
  with routed_step [OF T IH(2,1) snoc.hyps(2)] show ?case by blast
qed

end

text \<open>\<open>cached\<close> knows of every connection that the cache, read by \<open>view\<close>, refers to.\<close>

definition covers :: "('c \<Rightarrow> 'addr \<rightharpoonup> arc) \<Rightarrow> ('c \<Rightarrow> arc \<Rightarrow> bool) \<Rightarrow> bool" where
  "covers view cached \<longleftrightarrow> (\<forall>c a i. view c a = Some i \<longrightarrow> cached c i)"

lemma hashmap_covers: "covers (\<lambda>m. m) hashmap_cached"
  by (auto simp: covers_def hashmap_cached_def ran_def)

section \<open>A small run\<close>

text \<open>One item for address 1, handed in, dispatched and sent.\<close>

definition sample_start :: "(nat, nat, nat \<rightharpoonup> arc, sample_world) sender" where
  "sample_start = sender_new Map.empty []"

definition sample_done :: "(nat, nat, nat \<rightharpoonup> arc, sample_world) sender" where
  "sample_done =
     \<lparr>ss_send_channel = [], ss_evict_channel = [], ss_connections = [1 \<mapsto> 0],
      ss_heap = \<lparr>h_next = 1, h_conns = [0 \<mapsto> \<lparr>c_address = 1, c_socket = Some 0\<rparr>]\<rparr>,
      ss_tasks = [], ss_notified = [(7, Inr ())], ss_shutdown = [], ss_stalled = {},
      ss_world = [(wire_frame [65], Good)]\<rparr>"

lemma sample_run: "sender_run hashmap_cache hashmap_cached sample_tcp sample_start [(1, [65], 7)] sample_done"
proof -
  let ?C = "hashmap_cache :: (nat, nat, nat \<rightharpoonup> arc) cache_ops"
  define s1 where "s1 = sample_start\<lparr>ss_send_channel := [(1, [65], 7)]\<rparr>"
  define s2 where "s2 = s1\<lparr>ss_send_channel := [], ss_connections := [1 \<mapsto> 0],
    ss_heap := \<lparr>h_next = 1, h_conns = [0 \<mapsto> connection_new 1]\<rparr>, ss_tasks := [(0, [65], 7)]\<rparr>"
  have "sender_step ?C hashmap_cached sample_tcp sample_start (Submit (1, [65], 7)) s1"
    using sender_step.submit [of ?C hashmap_cached sample_tcp sample_start "(1, [65], 7)"]
    by (simp add: s1_def sample_start_def sender_new_def)
  from sender_run.snoc [OF sender_run.nil this]
  have 1: "sender_run ?C hashmap_cached sample_tcp sample_start [(1, [65], 7)] s1" by simp
  have "dispatch_next ?C s1 = Some s2"
    by (simp add: dispatch_next_def hashmap_cache_def hashmap_get_or_insert_def heap_alloc_def
        heap_empty_def s1_def s2_def sample_start_def sender_new_def)
  note 2 = sender_run_internal [OF sender_step.dispatch [OF this], of hashmap_cached sample_tcp]
  have send: "connection_send sample_tcp (connection_new 1) [65] [] =
      (Inr (), \<lparr>c_address = 1, c_socket = Some 0\<rparr>, [(wire_frame [65], Good)])"
    by (simp add: connection_send_def connection_new_def write_data_to_stream_def sample_tcp_def
        sample_write_def connect_and_set_socket_if_none_def wire_frame_def)
  have "run_task sample_tcp 0 s2 = Some sample_done"
    using send by (simp add: run_task_def s2_def s1_def sample_start_def sender_new_def sample_done_def)
  note 3 = sender_run_internal [OF sender_step.run [OF this], of ?C hashmap_cached]
  from sender_run_trans [OF 3 sender_run_trans [OF 2 1]] show ?thesis by simp
qed

section \<open>Properties\<close>

text \<open>
  C11. No send is lost and none is answered twice: at every moment of every run of a new sender,
  each oneshot handed in is in exactly one place - with its item in the channel, with its task,
  or among the notified - so once channel and tasks are empty, exactly the oneshots handed in
  have been notified, each once.
\<close>

theorem sends_answered_once:
  assumes "sender_run C cached T (sender_new c w) items ss"
  shows "mset (map (\<lambda>(a, d, t). t) items) =
      mset (map (\<lambda>(a, d, t). t) (ss_send_channel ss)) + mset (map (\<lambda>(i, d, t). t) (ss_tasks ss)) +
      mset (map fst (ss_notified ss)) \<and>
    (distinct (map (\<lambda>(a, d, t). t) items) \<longrightarrow> distinct (map fst (ss_notified ss))) \<and>
    (ss_send_channel ss = [] \<longrightarrow> ss_tasks ss = [] \<longrightarrow>
      mset (map fst (ss_notified ss)) = mset (map (\<lambda>(a, d, t). t) items))"
proof -
  have all: "mset (map (\<lambda>(a, d, t). t) items) =
      mset (map (\<lambda>(a, d, t). t) (ss_send_channel ss)) + mset (map (\<lambda>(i, d, t). t) (ss_tasks ss)) +
      mset (map fst (ss_notified ss))"
    using sender_run_tokens [OF assms] by (simp add: token_defs sender_new_def)
  moreover have "distinct (map fst (ss_notified ss))" if "distinct (map (\<lambda>(a, d, t). t) items)"
  proof -
    have "mset (map fst (ss_notified ss)) \<subseteq># mset (map (\<lambda>(a, d, t). t) items)"
      unfolding all by (rule mset_subset_eq_add_right)
    with that show ?thesis by (rule distinct_subseteq_mset)
  qed
  ultimately show ?thesis by auto
qed

theorem sends_answered_once_witness:
  "mset (map fst (ss_notified sample_done)) = {#7#} \<and> distinct (map fst (ss_notified sample_done))"
  using sends_answered_once [OF sample_run [unfolded sample_start_def]] by (simp add: sample_done_def)

text \<open>
  C10. Items go where they were sent: in every run of a new sender, on any cache that keeps its
  contract and any stream layer that keeps its documentation, a task holds a connection to the
  address of its item, an error names the address of its item, and the stream of a connection,
  as long as no write on it has failed, carries the frames of items for the connection's
  address, one after the other, and nothing else.
\<close>

theorem items_reach_their_addresses:
  assumes T: "tcp_lawful V T" and C: "connection_cache C view invar"
    and c: "invar c" "view c = Map.empty" "covers view cached"
    and run: "sender_run C cached T (sender_new c w) items ss"
  shows "(\<forall>(i, d, t) \<in> set (ss_tasks ss). \<exists>conn. h_conns (ss_heap ss) i = Some conn \<and>
      (c_address conn, d, t) \<in> set items) \<and>
    (\<forall>t err. (t, Inl err) \<in> set (ss_notified ss) \<longrightarrow> (\<exists>d. (error_address err, d, t) \<in> set items)) \<and>
    (\<forall>i conn s. h_conns (ss_heap ss) i = Some conn \<longrightarrow> c_socket conn = Some s \<longrightarrow>
      s \<notin> o_broken V (ss_world ss) \<longrightarrow>
      (\<exists>ds. o_wire V (ss_world ss) s = concat (map wire_frame ds) \<and>
        (\<forall>d \<in> set ds. \<exists>t. (c_address conn, d, t) \<in> set items)))"
proof -
  have cached: "\<And>c i. connection_cache.holds view c i \<Longrightarrow> cached c i"
    using c(3) by (auto simp: covers_def connection_cache.holds_def [OF C])
  note inv = connection_cache.sender_inv_new [OF C c(1,2)]
  have "connection_cache.routed V items ss"
    using connection_cache.sender_run_routed [OF C, of V T cached, OF T cached run inv connection_cache.routed_new [OF C]]
    by blast
  then show ?thesis
    unfolding connection_cache.routed_def [OF C] connection_cache.carries_def [OF C] by fast
qed

theorem items_reach_their_addresses_witness:
  "\<exists>ds. o_wire sample_view (ss_world sample_done) 0 = concat (map wire_frame ds) \<and>
     (\<forall>d \<in> set ds. \<exists>t. (1, d, t) \<in> {(1 :: nat, [65 :: u8], 7 :: nat)})"
proof -
  have "h_conns (ss_heap sample_done) 0 = Some \<lparr>c_address = 1, c_socket = Some 0\<rparr>"
    "0 \<notin> o_broken sample_view (ss_world sample_done)"
    by (simp_all add: sample_done_def sample_view_def)
  with items_reach_their_addresses [OF sample_tcp_lawful hm.connection_cache_axioms TrueI refl hashmap_covers
      sample_run [unfolded sample_start_def]] show ?thesis by fastforce
qed

text \<open>
  C12. Connections are isolated: in every run of a new sender, no two connections share a
  stream, every stream of a connection is one that was opened, a task's connection is never
  freed under it, and what the cache holds for an address is a live connection to that address.
\<close>

theorem connections_isolated:
  assumes T: "tcp_lawful V T" and C: "connection_cache C view invar"
    and c: "invar c" "view c = Map.empty" "covers view cached"
    and run: "sender_run C cached T (sender_new c w) items ss"
  shows "(\<forall>i j conn conn' s. h_conns (ss_heap ss) i = Some conn \<longrightarrow> h_conns (ss_heap ss) j = Some conn' \<longrightarrow>
      c_socket conn = Some s \<longrightarrow> c_socket conn' = Some s \<longrightarrow> i = j) \<and>
    (\<forall>i conn s. h_conns (ss_heap ss) i = Some conn \<longrightarrow> c_socket conn = Some s \<longrightarrow>
      s \<in> o_opened V (ss_world ss)) \<and>
    (\<forall>(i, d, t) \<in> set (ss_tasks ss). h_conns (ss_heap ss) i \<noteq> None) \<and>
    (\<forall>a i. view (ss_connections ss) a = Some i \<longrightarrow>
      (\<exists>conn. h_conns (ss_heap ss) i = Some conn \<and> c_address conn = a))"
proof -
  have cached: "\<And>c i. connection_cache.holds view c i \<Longrightarrow> cached c i"
    using c(3) by (auto simp: covers_def connection_cache.holds_def [OF C])
  have inv: "connection_cache.sender_inv view invar V ss"
    using connection_cache.sender_run_inv [OF C, of V T cached, OF T cached run
        connection_cache.sender_inv_new [OF C c(1,2)]] .
  note defs = connection_cache.sender_inv_def [OF C] connection_cache.tasks_ok_def [OF C]
    connection_cache.sockets_ok_def [OF C] connection_cache.coherent_def [OF C]
  have opened: "\<forall>i conn s. h_conns (ss_heap ss) i = Some conn \<longrightarrow> c_socket conn = Some s \<longrightarrow>
      s \<in> o_opened V (ss_world ss)"
    using inv unfolding defs conn_inv_def by fastforce
  with inv show ?thesis unfolding defs by blast
qed

theorem connections_isolated_witness:
  "\<exists>i conn. ss_connections sample_done 1 = Some i \<and> h_conns (ss_heap sample_done) i = Some conn \<and>
     c_address conn = 1 \<and> c_socket conn = Some 0 \<and> 0 \<in> o_opened sample_view (ss_world sample_done)"
proof -
  have "ss_connections sample_done 1 = Some 0" "\<exists>conn. h_conns (ss_heap sample_done) 0 = Some conn \<and>
      c_socket conn = Some 0"
    by (simp_all add: sample_done_def)
  with connections_isolated [OF sample_tcp_lawful hm.connection_cache_axioms TrueI refl hashmap_covers
      sample_run [unfolded sample_start_def]] show ?thesis by fastforce
qed

end
