(* ===== verification/Ring_Buffer.thy ===== *)
theory Ring_Buffer
  imports Net_Prelude "HOL-Library.Multiset"
begin

text \<open>
  \<open>shardus_net/src/ring_buffer.rs\<close>: a buffer of the last values put and the extremes of all
  of them.  The element type is Rust's \<open>T: Ord + Copy + Default + Sum\<close>: the order is Isabelle's
  \<open>linorder\<close>, the default and the sum are parameters, given here for \<open>usize\<close> and for
  \<open>Duration\<close>, the two types the program uses.
\<close>

section \<open>Durations\<close>

text \<open>Rust's \<open>Duration\<close>, whose derived order compares the seconds first.\<close>

datatype Duration = Duration (dur_secs: u64) (dur_nanos: u32)

instantiation Duration :: linorder
begin

definition less_eq_Duration :: "Duration \<Rightarrow> Duration \<Rightarrow> bool" where
  "less_eq_Duration a b \<longleftrightarrow>
     dur_secs a < dur_secs b \<or> (dur_secs a = dur_secs b \<and> dur_nanos a \<le> dur_nanos b)"

definition less_Duration :: "Duration \<Rightarrow> Duration \<Rightarrow> bool" where
  "less_Duration a b \<longleftrightarrow>
     dur_secs a < dur_secs b \<or> (dur_secs a = dur_secs b \<and> dur_nanos a < dur_nanos b)"

instance
  by standard (auto simp: less_eq_Duration_def less_Duration_def Duration.expand)

end

definition as_nanos :: "Duration \<Rightarrow> nat" where
  "as_nanos d = unat (dur_secs d) * 1000000000 + unat (dur_nanos d)"

definition as_millis :: "Duration \<Rightarrow> nat" where
  "as_millis d = unat (dur_secs d) * 1000 + unat (dur_nanos d) div 1000000"

definition duration_ok :: "Duration \<Rightarrow> bool" where
  "duration_ok d \<longleftrightarrow> unat (dur_nanos d) < 1000000000"

definition duration_of_nanos :: "nat \<Rightarrow> Duration" where
  "duration_of_nanos n =
     Duration (word_of_nat (n div 1000000000)) (word_of_nat (n mod 1000000000))"

section \<open>Sums\<close>

text \<open>
  The \<open>Sum\<close> of a \<open>usize\<close> iterator: an overflow panics in a build with overflow checks and
  wraps in one without.  The \<open>Sum\<close> of durations panics when the seconds overflow.
\<close>

definition usize_sum :: "bool \<Rightarrow> usize list \<Rightarrow> usize may_panic" where
  "usize_sum overflow_checks xs =
     (let tot = sum_list (map unat xs)
      in if overflow_checks \<and> 2 ^ 64 \<le> tot then Inl (Panic ''attempt to add with overflow'')
         else Inr (word_of_nat tot))"

definition duration_sum :: "Duration list \<Rightarrow> Duration may_panic" where
  "duration_sum xs =
     (let tot = sum_list (map as_nanos xs)
      in if 2 ^ 64 \<le> tot div 1000000000
         then Inl (Panic ''overflow in iter::sum over durations'')
         else Inr (duration_of_nanos tot))"

section \<open>The buffer\<close>

record 'a RingBuffer =
  rb_index :: nat
  rb_size :: nat
  rb_buffer :: "'a list"
  rb_long_term_max :: "'a option"
  rb_long_term_min :: "'a option"

record 'a RingBufferStats =
  st_long_term_max :: 'a
  st_long_term_min :: 'a
  st_min :: 'a
  st_max :: 'a
  st_total :: 'a
  st_count :: nat

definition ring_buffer_new :: "nat \<Rightarrow> 'a RingBuffer" where
  "ring_buffer_new sz =
     \<lparr>rb_index = 0, rb_size = sz, rb_buffer = [], rb_long_term_max = None, rb_long_term_min = None\<rparr>"

text \<open>\<open>Option::get_or_insert\<close> and \<open>Option::unwrap_or_default\<close>.\<close>

definition get_or_insert :: "'a \<Rightarrow> 'a option \<Rightarrow> 'a" where
  "get_or_insert v x = (case x of None \<Rightarrow> v | Some y \<Rightarrow> y)"

text \<open>Writing past the end of the buffer is the index panic of the source.\<close>

definition ring_buffer_put :: "'a :: linorder \<Rightarrow> 'a RingBuffer \<Rightarrow> 'a RingBuffer may_panic" where
  "ring_buffer_put v rb =
     (let idx = (if rb_index rb = rb_size rb then 0 else rb_index rb) in
      rbind (if idx = length (rb_buffer rb) then Inr (rb_buffer rb @ [v])
             else if idx < length (rb_buffer rb) then Inr ((rb_buffer rb)[idx := v])
             else Inl (Panic ''index out of bounds''))
        (\<lambda>buf. Inr \<lparr>rb_index = idx + 1, rb_size = rb_size rb, rb_buffer = buf,
                    rb_long_term_max = Some (max (get_or_insert v (rb_long_term_max rb)) v),
                    rb_long_term_min = Some (min (get_or_insert v (rb_long_term_min rb)) v)\<rparr>))"

definition list_max :: "'a :: linorder list \<Rightarrow> 'a option" where
  "list_max xs = (case xs of [] \<Rightarrow> None | y # ys \<Rightarrow> Some (fold max ys y))"

definition list_min :: "'a :: linorder list \<Rightarrow> 'a option" where
  "list_min xs = (case xs of [] \<Rightarrow> None | y # ys \<Rightarrow> Some (fold min ys y))"

definition ring_buffer_get_stats ::
    "('a list \<Rightarrow> 'a may_panic) \<Rightarrow> 'a \<Rightarrow> 'a :: linorder RingBuffer \<Rightarrow> 'a RingBufferStats may_panic" where
  "ring_buffer_get_stats summation dflt rb =
     rbind (summation (rb_buffer rb))
       (\<lambda>tot. Inr
          \<lparr>st_long_term_max = get_or_insert dflt (rb_long_term_max rb),
           st_long_term_min = get_or_insert dflt (rb_long_term_min rb),
           st_min = get_or_insert dflt (list_min (rb_buffer rb)),
           st_max = get_or_insert dflt (list_max (rb_buffer rb)),
           st_total = tot,
           st_count = length (rb_buffer rb)\<rparr>)"

text \<open>Putting a list of values, one after the other.\<close>

fun put_all :: "'a :: linorder list \<Rightarrow> 'a RingBuffer \<Rightarrow> 'a RingBuffer may_panic" where
  "put_all [] rb = Inr rb"
| "put_all (v # vs) rb = rbind (ring_buffer_put v rb) (\<lambda>rb. put_all vs rb)"

section \<open>The abstract buffer\<close>

text \<open>
  The buffer promises the last \<open>size\<close> values in the order they were put, and the extremes of
  all of them.  \<open>window\<close> reads the concrete buffer as that list: from the write position to the
  end, then from the start.
\<close>

definition window :: "'a RingBuffer \<Rightarrow> 'a list" where
  "window rb = (if length (rb_buffer rb) < rb_size rb then rb_buffer rb
                else drop (rb_index rb) (rb_buffer rb) @ take (rb_index rb) (rb_buffer rb))"

definition push_window :: "nat \<Rightarrow> 'a list \<Rightarrow> 'a \<Rightarrow> 'a list" where
  "push_window sz w v = (if length w < sz then w @ [v] else tl w @ [v])"

definition last_n :: "nat \<Rightarrow> 'a list \<Rightarrow> 'a list" where
  "last_n n xs = drop (length xs - n) xs"

definition ring_inv :: "'a RingBuffer \<Rightarrow> bool" where
  "ring_inv rb \<longleftrightarrow> 0 < rb_size rb \<and> length (rb_buffer rb) \<le> rb_size rb \<and> rb_index rb \<le> rb_size rb \<and>
     (length (rb_buffer rb) < rb_size rb \<longrightarrow> rb_index rb = length (rb_buffer rb))"

lemma ring_inv_new: "0 < sz \<Longrightarrow> ring_inv (ring_buffer_new sz)"
  by (simp add: ring_inv_def ring_buffer_new_def)

lemma mset_window: "mset (window rb) = mset (rb_buffer rb)"
  by (simp add: window_def flip: mset_append) (metis append_take_drop_id mset_append union_commute)

lemma set_window: "set (window rb) = set (rb_buffer rb)"
  using mset_window [of rb] by (metis set_mset_mset)

lemma length_window: "length (window rb) = length (rb_buffer rb)"
  using mset_window [of rb] by (metis size_mset)

lemma ring_buffer_put_ok:
  assumes "ring_inv rb"
  shows "\<exists>rb'. ring_buffer_put v rb = Inr rb' \<and> ring_inv rb' \<and> rb_size rb' = rb_size rb \<and>
    window rb' = push_window (rb_size rb) (window rb) v \<and>
    rb_long_term_max rb' = Some (max (get_or_insert v (rb_long_term_max rb)) v) \<and>
    rb_long_term_min rb' = Some (min (get_or_insert v (rb_long_term_min rb)) v)"
proof -
  define n idx where "n = rb_size rb" and "idx = (if rb_index rb = n then 0 else rb_index rb)"
  show ?thesis
  proof (cases "length (rb_buffer rb) < n")
    case True
    with assms have "idx = length (rb_buffer rb)" by (auto simp: ring_inv_def idx_def n_def)
    with True assms show ?thesis
      by (auto simp: ring_buffer_put_def Let_def idx_def n_def ring_inv_def window_def push_window_def)
  next
    case False
    with assms have len: "length (rb_buffer rb) = n" and "idx < n"
      by (auto simp: ring_inv_def idx_def n_def)
    have "tl (drop (rb_index rb) (rb_buffer rb) @ take (rb_index rb) (rb_buffer rb)) =
        drop (Suc idx) (rb_buffer rb) @ take idx (rb_buffer rb)"
    proof (cases "rb_index rb = n")
      case True
      with len show ?thesis by (simp add: idx_def drop_Suc)
    next
      case False
      with len \<open>idx < n\<close> have i: "idx = rb_index rb" "rb_index rb < length (rb_buffer rb)"
        by (simp_all add: idx_def)
      then show ?thesis by (simp add: Cons_nth_drop_Suc [symmetric])
    qed
    moreover have "drop (Suc idx) ((rb_buffer rb)[idx := v]) @ take (Suc idx) ((rb_buffer rb)[idx := v]) =
        drop (Suc idx) (rb_buffer rb) @ take idx (rb_buffer rb) @ [v]"
      using len \<open>idx < n\<close> by (simp add: take_Suc_conv_app_nth)
    ultimately show ?thesis
      using assms len \<open>idx < n\<close>
      by (auto simp: ring_buffer_put_def Let_def idx_def [symmetric] n_def [symmetric] ring_inv_def
          window_def push_window_def)
  qed
qed

lemma push_window_last_n:
  "0 < n \<Longrightarrow> push_window n (last_n n xs) v = last_n n (xs @ [v])"
  by (auto simp: push_window_def last_n_def Suc_diff_le tl_drop drop_Suc not_less min_def)

lemma list_max_Max: "xs \<noteq> [] \<Longrightarrow> list_max xs = Some (Max (set xs))"
  by (cases xs) (simp_all add: list_max_def Max.set_eq_fold del: list.set)

lemma list_min_Min: "xs \<noteq> [] \<Longrightarrow> list_min xs = Some (Min (set xs))"
  by (cases xs) (simp_all add: list_min_def Min.set_eq_fold del: list.set)

text \<open>What the buffer knows of the values put so far.\<close>

definition represents :: "'a :: linorder RingBuffer \<Rightarrow> 'a list \<Rightarrow> bool" where
  "represents rb xs \<longleftrightarrow> ring_inv rb \<and> window rb = last_n (rb_size rb) xs \<and>
     rb_long_term_max rb = list_max xs \<and> rb_long_term_min rb = list_min xs"

lemma represents_new: "0 < sz \<Longrightarrow> represents (ring_buffer_new sz) []"
  using ring_inv_new [of sz]
  by (auto simp: represents_def window_def last_n_def ring_buffer_new_def list_max_def list_min_def)

lemma list_max_snoc: "list_max (xs @ [v]) = Some (max (get_or_insert v (list_max xs)) v)"
  by (cases xs) (simp_all add: list_max_def get_or_insert_def max.commute)

lemma list_min_snoc: "list_min (xs @ [v]) = Some (min (get_or_insert v (list_min xs)) v)"
  by (cases xs) (simp_all add: list_min_def get_or_insert_def min.commute)

lemma represents_put:
  assumes "represents rb xs"
  obtains rb' where "ring_buffer_put v rb = Inr rb'" "represents rb' (xs @ [v])"
    "rb_size rb' = rb_size rb"
proof -
  obtain rb' where put: "ring_buffer_put v rb = Inr rb'" "ring_inv rb'" "rb_size rb' = rb_size rb"
    and w: "window rb' = push_window (rb_size rb) (window rb) v"
    and ext: "rb_long_term_max rb' = Some (max (get_or_insert v (rb_long_term_max rb)) v)"
      "rb_long_term_min rb' = Some (min (get_or_insert v (rb_long_term_min rb)) v)"
    using ring_buffer_put_ok assms unfolding represents_def by blast
  have "0 < rb_size rb" using assms by (simp add: represents_def ring_inv_def)
  then have "represents rb' (xs @ [v])"
    using put w ext assms by (simp add: represents_def push_window_last_n list_max_snoc list_min_snoc)
  with put that show thesis by blast
qed

lemma represents_put_all:
  "represents rb xs \<Longrightarrow>
   \<exists>rb'. put_all vs rb = Inr rb' \<and> represents rb' (xs @ vs) \<and> rb_size rb' = rb_size rb"
proof (induction vs arbitrary: rb xs)
  case Nil
  then show ?case by simp
next
  case (Cons v vs)
  obtain rb1 where 1: "ring_buffer_put v rb = Inr rb1" "represents rb1 (xs @ [v])"
    "rb_size rb1 = rb_size rb"
    using represents_put [OF Cons.prems] by blast
  from Cons.IH [OF 1(2)] 1 show ?case by simp
qed

section \<open>Statistics\<close>

text \<open>
  The contract of \<open>Sum\<close> that the statistics rest on: a sum depends on the values summed and
  not on their order, so the order in the buffer does not matter.
\<close>

locale summable =
  fixes summation :: "'a :: linorder list \<Rightarrow> 'a may_panic"
  assumes sum_perm: "mset xs = mset ys \<Longrightarrow> summation xs = summation ys"
begin

lemma stats_of_window:
  assumes "represents rb xs" "xs \<noteq> []" "summation (last_n (rb_size rb) xs) = Inr tot"
  shows "ring_buffer_get_stats summation dflt rb = Inr
    \<lparr>st_long_term_max = Max (set xs), st_long_term_min = Min (set xs),
     st_min = Min (set (last_n (rb_size rb) xs)), st_max = Max (set (last_n (rb_size rb) xs)),
     st_total = tot, st_count = min (length xs) (rb_size rb)\<rparr>"
proof -
  have w: "window rb = last_n (rb_size rb) xs" and pos: "0 < rb_size rb"
    using assms(1) by (auto simp: represents_def ring_inv_def)
  have len: "length (rb_buffer rb) = min (length xs) (rb_size rb)"
    using length_window [of rb] w by (simp add: last_n_def)
  then have "0 < length (rb_buffer rb)" using assms(2) pos by simp
  then have "rb_buffer rb \<noteq> []" by simp
  moreover have "summation (rb_buffer rb) = Inr tot"
    using sum_perm [OF mset_window, of rb] assms(3) w by simp
  moreover have "set (rb_buffer rb) = set (last_n (rb_size rb) xs)"
    using set_window [of rb] w by simp
  moreover note len
  moreover have "rb_long_term_max rb = Some (Max (set xs))" "rb_long_term_min rb = Some (Min (set xs))"
    using assms(1,2) by (simp_all add: represents_def list_max_Max list_min_Min)
  ultimately show ?thesis
    by (simp add: ring_buffer_get_stats_def list_max_Max list_min_Min get_or_insert_def)
qed

end

lemma sum_list_map_mset: "mset xs = mset ys \<Longrightarrow> sum_list (map f xs) = sum_list (map f ys)"
  for f :: "'a \<Rightarrow> nat"
  by (metis mset_map sum_mset_sum_list)

interpretation usize_sum: summable "usize_sum overflow_checks"
  for overflow_checks
proof unfold_locales
  fix xs ys :: "usize list" assume "mset xs = mset ys"
  then have "sum_list (map unat xs) = sum_list (map unat ys)" by (rule sum_list_map_mset)
  then show "usize_sum overflow_checks xs = usize_sum overflow_checks ys"
    by (simp only: usize_sum_def)
qed

interpretation duration_sum: summable duration_sum
proof unfold_locales
  fix xs ys :: "Duration list" assume "mset xs = mset ys"
  then have "sum_list (map as_nanos xs) = sum_list (map as_nanos ys)" by (rule sum_list_map_mset)
  then show "duration_sum xs = duration_sum ys" by (simp only: duration_sum_def)
qed

text \<open>A sum that fits is the sum.\<close>

lemma usize_sum_small:
  assumes "sum_list (map unat xs) < 2 ^ 64"
  shows "\<exists>t. usize_sum oc xs = Inr t \<and> unat t = sum_list (map unat xs)"
  using assms by (simp add: usize_sum_def Let_def unsigned_of_nat take_bit_nat_eq_self)

lemma duration_sum_nanos:
  assumes "duration_sum xs = Inr d"
  shows "as_nanos d = sum_list (map as_nanos xs)"
proof -
  define n where "n = sum_list (map as_nanos xs)"
  have 1: "n div 1000000000 < 2 ^ 64" "d = duration_of_nanos n"
    using assms by (auto simp: duration_sum_def Let_def n_def not_le split: if_splits)
  have "n mod 1000000000 < 2 ^ 32" by (rule less_trans [of _ 1000000000]) simp_all
  with 1 have "as_nanos d = n div 1000000000 * 1000000000 + n mod 1000000000"
    by (simp add: as_nanos_def duration_of_nanos_def unsigned_of_nat take_bit_nat_eq_self)
  then show ?thesis by (simp add: n_def)
qed

section \<open>Properties\<close>

text \<open>
  C33. The ring buffer implements its abstraction: putting values never panics, the buffer read
  from its write position holds the last \<open>size\<close> of them in order, and the long-term extremes
  are those of all values ever put.
\<close>

theorem ring_buffer_keeps_last_values:
  assumes "0 < sz"
  shows "\<exists>rb. put_all vs (ring_buffer_new sz) = Inr rb \<and> ring_inv rb \<and> rb_size rb = sz \<and>
    window rb = last_n sz vs \<and>
    rb_long_term_max rb = (if vs = [] then None else Some (Max (set vs))) \<and>
    rb_long_term_min rb = (if vs = [] then None else Some (Min (set vs)))"
proof -
  obtain rb where rb: "put_all vs (ring_buffer_new sz) = Inr rb" "represents rb ([] @ vs)"
    "rb_size rb = rb_size (ring_buffer_new sz :: 'a RingBuffer)"
    using represents_put_all [OF represents_new [OF assms]] by blast
  have sz: "rb_size rb = sz" using rb(3) by (simp add: ring_buffer_new_def)
  have ends: "list_max vs = (if vs = [] then None else Some (Max (set vs)))"
    "list_min vs = (if vs = [] then None else Some (Min (set vs)))"
    using list_max_Max [of vs] list_min_Min [of vs] by (auto simp: list_max_def list_min_def)
  from rb(2) have "ring_inv rb" "window rb = last_n sz vs" "rb_long_term_max rb = list_max vs"
    "rb_long_term_min rb = list_min vs"
    unfolding represents_def append_Nil sz by blast+
  with rb(1) sz ends show ?thesis by metis
qed

theorem ring_buffer_keeps_last_values_witness:
  "\<exists>rb. put_all [5, 1, 9, 2 :: nat] (ring_buffer_new 3) = Inr rb \<and> window rb = [1, 9, 2] \<and>
     rb_long_term_max rb = Some 9 \<and> rb_long_term_min rb = Some 1"
  using ring_buffer_keeps_last_values [of 3 "[5, 1, 9, 2 :: nat]"] by (auto simp: last_n_def)

text \<open>
  C34. The statistics of a buffer of counts: after any values, the total is the sum of the last
  \<open>size\<close> values in every build as long as that fits, the extremes are theirs and those of all
  values, and the count is how many there are.
\<close>

theorem ring_buffer_stats_exact:
  assumes "put_all vs (ring_buffer_new sz) = Inr rb" "0 < sz" "vs \<noteq> []"
    and "sum_list (map unat (last_n sz vs)) < 2 ^ 64"
  shows "\<exists>st. ring_buffer_get_stats (usize_sum overflow_checks) 0 rb = Inr st \<and>
    unat (st_total st) = sum_list (map unat (last_n sz vs)) \<and>
    st_count st = min (length vs) sz \<and>
    st_max st = Max (set (last_n sz vs)) \<and> st_min st = Min (set (last_n sz vs)) \<and>
    st_long_term_max st = Max (set vs) \<and> st_long_term_min st = Min (set vs)"
proof -
  have rb: "represents rb vs" "rb_size rb = sz"
    using represents_put_all [OF represents_new [OF assms(2)], of vs] assms(1)
    by (auto simp: ring_buffer_new_def)
  obtain t where t: "usize_sum overflow_checks (last_n sz vs) = Inr t"
    "unat t = sum_list (map unat (last_n sz vs))"
    using usize_sum_small [OF assms(4)] by blast
  from usize_sum.stats_of_window [OF rb(1) assms(3), of overflow_checks t 0] rb(2) t
  show ?thesis by simp
qed

theorem ring_buffer_stats_exact_witness:
  "\<exists>rb st. put_all [5, 1, 9, 2 :: usize] (ring_buffer_new 3) = Inr rb \<and>
     ring_buffer_get_stats (usize_sum True) 0 rb = Inr st \<and> unat (st_total st) = 12 \<and> st_count st = 3"
proof -
  have p: "put_all [5, 1, 9, 2 :: usize] (ring_buffer_new 3) = Inr
      \<lparr>rb_index = 1, rb_size = 3, rb_buffer = [2, 1, 9], rb_long_term_max = Some 9, rb_long_term_min = Some 1\<rparr>"
    by (simp add: ring_buffer_put_def ring_buffer_new_def Let_def get_or_insert_def max_def min_def
        word_le_nat_alt)
  have s: "sum_list (map unat (last_n 3 [5, 1, 9, 2 :: usize])) = 12" by (simp add: last_n_def)
  then have "sum_list (map unat (last_n 3 [5, 1, 9, 2 :: usize])) < 2 ^ 64" by simp
  from ring_buffer_stats_exact [OF p _ _ this, of True] obtain st where
    "ring_buffer_get_stats (usize_sum True) 0
       \<lparr>rb_index = 1, rb_size = 3, rb_buffer = [2, 1, 9], rb_long_term_max = Some 9, rb_long_term_min = Some 1\<rparr> = Inr st"
    "unat (st_total st) = 12" "st_count st = min 4 3"
    unfolding s by auto
  with p show ?thesis by (intro exI conjI) simp_all
qed

text \<open>
  The total of the recorded durations is exact: when their sum does not overflow, it has as
  many nanoseconds as the durations together, carrying nanoseconds into seconds; it is refused
  exactly when the seconds do not fit.
\<close>

theorem duration_total_exact:
  "(case duration_sum ds of
      Inr d \<Rightarrow> as_nanos d = sum_list (map as_nanos ds) \<and> duration_ok d
    | Inl _ \<Rightarrow> 2 ^ 64 * 1000000000 \<le> sum_list (map as_nanos ds))"
proof (cases "duration_sum ds")
  case (Inl p)
  then have "2 ^ 64 \<le> sum_list (map as_nanos ds) div 1000000000"
    by (auto simp: duration_sum_def Let_def split: if_splits)
  then have "2 ^ 64 * 1000000000 \<le> sum_list (map as_nanos ds)"
    by (simp add: less_eq_div_iff_mult_less_eq)
  with Inl show ?thesis by simp
next
  case (Inr d)
  have "sum_list (map as_nanos ds) mod 1000000000 < 2 ^ 32"
    by (rule less_trans [of _ 1000000000]) simp_all
  moreover have "d = duration_of_nanos (sum_list (map as_nanos ds))"
    using Inr by (auto simp: duration_sum_def Let_def split: if_splits)
  ultimately have "duration_ok d"
    by (simp add: duration_ok_def duration_of_nanos_def unsigned_of_nat take_bit_nat_eq_self)
  with Inr duration_sum_nanos [OF Inr] show ?thesis by simp
qed

end
