(* ===== verification/Net_Stats.thy ===== *)
theory Net_Stats
  imports Ring_Buffer
begin

text \<open>
  \<open>shardus_net/src/stats.rs\<close> and the conversion of its results to JavaScript in \<open>lib.rs\<close>: the
  two shared counters of sends and receives under way, and the ring buffers that record them.
  The counters are atomics that \<open>Stats\<close> and \<open>Incrementers\<close> share, so one record holds both.
  An operation that panics has still changed the counter, so it returns the state as well.
\<close>

definition RING_BUFFER_SIZE :: nat where
  "RING_BUFFER_SIZE = 100"

record Stats =
  outstanding_sends_buffer :: "usize RingBuffer"
  outstanding_receives_buffer :: "usize RingBuffer"
  receive_elapsed_buffer :: "Duration RingBuffer"
  outstanding_sends :: usize
  outstanding_receives :: usize

record StatsResult =
  sr_outstanding_sends :: "usize RingBufferStats"
  sr_outstanding_receives :: "usize RingBufferStats"
  sr_receive_elapsed :: "Duration RingBufferStats"

definition stats_new :: Stats where
  "stats_new =
     \<lparr>outstanding_sends_buffer = ring_buffer_new RING_BUFFER_SIZE,
      outstanding_receives_buffer = ring_buffer_new RING_BUFFER_SIZE,
      receive_elapsed_buffer = ring_buffer_new RING_BUFFER_SIZE,
      outstanding_sends = 0, outstanding_receives = 0\<rparr>"

section \<open>Operations\<close>

text \<open>\<open>fetch_add\<close> and \<open>fetch_sub\<close> wrap; the subtraction on the value read is checked or not.\<close>

definition increment_outstanding_sends :: "Stats \<Rightarrow> Stats" where
  "increment_outstanding_sends st = st\<lparr>outstanding_sends := outstanding_sends st + 1\<rparr>"

definition increment_outstanding_receives :: "Stats \<Rightarrow> Stats" where
  "increment_outstanding_receives st = st\<lparr>outstanding_receives := outstanding_receives st + 1\<rparr>"

definition usize_sub :: "bool \<Rightarrow> usize \<Rightarrow> usize \<Rightarrow> usize may_panic" where
  "usize_sub overflow_checks a b =
     (if overflow_checks \<and> a < b then Inl (Panic ''attempt to subtract with overflow'') else Inr (a - b))"

definition decrement_outstanding_sends :: "bool \<Rightarrow> Stats \<Rightarrow> unit may_panic \<times> Stats" where
  "decrement_outstanding_sends overflow_checks st =
     (let st' = st\<lparr>outstanding_sends := outstanding_sends st - 1\<rparr> in
      case rbind (usize_sub overflow_checks (outstanding_sends st) 1)
             (\<lambda>outstanding. ring_buffer_put outstanding (outstanding_sends_buffer st)) of
        Inl p \<Rightarrow> (Inl p, st')
      | Inr buf \<Rightarrow> (Inr (), st'\<lparr>outstanding_sends_buffer := buf\<rparr>))"

definition decrement_outstanding_receives :: "bool \<Rightarrow> Stats \<Rightarrow> unit may_panic \<times> Stats" where
  "decrement_outstanding_receives overflow_checks st =
     (let st' = st\<lparr>outstanding_receives := outstanding_receives st - 1\<rparr> in
      case rbind (usize_sub overflow_checks (outstanding_receives st) 1)
             (\<lambda>outstanding. ring_buffer_put outstanding (outstanding_receives_buffer st)) of
        Inl p \<Rightarrow> (Inl p, st')
      | Inr buf \<Rightarrow> (Inr (), st'\<lparr>outstanding_receives_buffer := buf\<rparr>))"

definition put_elapsed_receive :: "Duration \<Rightarrow> Stats \<Rightarrow> unit may_panic \<times> Stats" where
  "put_elapsed_receive elapsed st =
     (case ring_buffer_put elapsed (receive_elapsed_buffer st) of
        Inl p \<Rightarrow> (Inl p, st)
      | Inr buf \<Rightarrow> (Inr (), st\<lparr>receive_elapsed_buffer := buf\<rparr>))"

definition stats_get_stats :: "bool \<Rightarrow> Stats \<Rightarrow> StatsResult may_panic" where
  "stats_get_stats overflow_checks st =
     rbind (ring_buffer_get_stats (usize_sum overflow_checks) 0 (outstanding_sends_buffer st))
       (\<lambda>sends. rbind (ring_buffer_get_stats (usize_sum overflow_checks) 0 (outstanding_receives_buffer st))
         (\<lambda>receives. rbind (ring_buffer_get_stats duration_sum (Duration 0 0) (receive_elapsed_buffer st))
           (\<lambda>elapsed. Inr \<lparr>sr_outstanding_sends = sends, sr_outstanding_receives = receives,
                           sr_receive_elapsed = elapsed\<rparr>)))"

section \<open>Results as JavaScript objects\<close>

text \<open>
  The double-precision arithmetic is a parameter: the conversion of an integer and the
  division, each with its rounding.
\<close>

record 'f f64_ops =
  f64_of :: "nat \<Rightarrow> 'f"
  f64_div :: "'f \<Rightarrow> 'f \<Rightarrow> 'f"

record 'f stats_object =
  js_long_term_max :: 'f
  js_long_term_min :: 'f
  js_min :: 'f
  js_max :: 'f
  js_total :: 'f
  js_count :: 'f
  js_average :: 'f

definition to_stats_object ::
    "'f f64_ops \<Rightarrow> 'f \<Rightarrow> 'f \<Rightarrow> 'f \<Rightarrow> 'f \<Rightarrow> 'f \<Rightarrow> nat \<Rightarrow> 'f stats_object" where
  "to_stats_object F long_term_max long_term_min mn mx tot cnt =
     \<lparr>js_long_term_max = long_term_max, js_long_term_min = long_term_min, js_min = mn, js_max = mx,
      js_total = tot, js_count = f64_of F cnt,
      js_average = (if cnt > 0 then f64_div F tot (f64_of F cnt) else f64_of F 0)\<rparr>"

definition usize_stats_to_object :: "'f f64_ops \<Rightarrow> usize RingBufferStats \<Rightarrow> 'f stats_object" where
  "usize_stats_to_object F s =
     to_stats_object F (f64_of F (unat (st_long_term_max s))) (f64_of F (unat (st_long_term_min s)))
       (f64_of F (unat (st_min s))) (f64_of F (unat (st_max s))) (f64_of F (unat (st_total s))) (st_count s)"

definition duration_stats_to_object :: "'f f64_ops \<Rightarrow> Duration RingBufferStats \<Rightarrow> 'f stats_object" where
  "duration_stats_to_object F s =
     to_stats_object F (f64_of F (as_millis (st_long_term_max s))) (f64_of F (as_millis (st_long_term_min s)))
       (f64_of F (as_millis (st_min s))) (f64_of F (as_millis (st_max s)))
       (f64_of F (as_millis (st_total s))) (st_count s)"

record 'f stats_result_object =
  jo_outstanding_receives :: "'f stats_object"
  jo_outstanding_sends :: "'f stats_object"
  jo_receive_elapsed :: "'f stats_object"

definition stats_result_to_object :: "'f f64_ops \<Rightarrow> StatsResult \<Rightarrow> 'f stats_result_object" where
  "stats_result_to_object F r =
     \<lparr>jo_outstanding_receives = usize_stats_to_object F (sr_outstanding_receives r),
      jo_outstanding_sends = usize_stats_to_object F (sr_outstanding_sends r),
      jo_receive_elapsed = duration_stats_to_object F (sr_receive_elapsed r)\<rparr>"

section \<open>Lemmas\<close>

definition stats_inv :: "Stats \<Rightarrow> bool" where
  "stats_inv st \<longleftrightarrow> ring_inv (outstanding_sends_buffer st) \<and>
     ring_inv (outstanding_receives_buffer st) \<and> ring_inv (receive_elapsed_buffer st)"

lemma stats_inv_new [simp]: "stats_inv stats_new"
  by (simp add: stats_inv_def stats_new_def ring_inv_new RING_BUFFER_SIZE_def)

lemma unat_increment: "unat (w :: usize) + 1 < 2 ^ 64 \<Longrightarrow> unat (w + 1) = unat w + 1"
  by (simp add: unat_word_ariths)

lemma unat_decrement: "0 < unat (w :: usize) \<Longrightarrow> unat (w - 1) = unat w - 1"
  by (metis One_nat_def Suc_leI unat_1 unat_sub word_le_nat_alt)

lemma increment_inv [simp]:
  "stats_inv (increment_outstanding_sends st) = stats_inv st"
  "stats_inv (increment_outstanding_receives st) = stats_inv st"
  by (simp_all add: stats_inv_def increment_outstanding_sends_def increment_outstanding_receives_def)

lemma usize_sub_pos: "0 < unat a \<Longrightarrow> usize_sub oc a 1 = Inr (a - 1)"
  by (simp add: usize_sub_def word_less_nat_alt)

text \<open>With a send under way a decrement counts it off and records the new count, in any build.\<close>

lemma decrement_sends_ok:
  assumes "stats_inv st" "0 < unat (outstanding_sends st)"
  shows "\<exists>buf. ring_buffer_put (outstanding_sends st - 1) (outstanding_sends_buffer st) = Inr buf \<and>
    decrement_outstanding_sends oc st =
      (Inr (), st\<lparr>outstanding_sends := outstanding_sends st - 1, outstanding_sends_buffer := buf\<rparr>) \<and>
    stats_inv (st\<lparr>outstanding_sends := outstanding_sends st - 1, outstanding_sends_buffer := buf\<rparr>)"
  using assms ring_buffer_put_ok [of "outstanding_sends_buffer st" "outstanding_sends st - 1"]
  by (auto simp: decrement_outstanding_sends_def usize_sub_pos stats_inv_def)

lemma decrement_receives_ok:
  assumes "stats_inv st" "0 < unat (outstanding_receives st)"
  shows "\<exists>buf. ring_buffer_put (outstanding_receives st - 1) (outstanding_receives_buffer st) = Inr buf \<and>
    decrement_outstanding_receives oc st =
      (Inr (), st\<lparr>outstanding_receives := outstanding_receives st - 1, outstanding_receives_buffer := buf\<rparr>) \<and>
    stats_inv (st\<lparr>outstanding_receives := outstanding_receives st - 1, outstanding_receives_buffer := buf\<rparr>)"
  using assms ring_buffer_put_ok [of "outstanding_receives_buffer st" "outstanding_receives st - 1"]
  by (auto simp: decrement_outstanding_receives_def usize_sub_pos stats_inv_def)

lemma put_elapsed_ok:
  assumes "stats_inv st"
  shows "\<exists>buf. ring_buffer_put d (receive_elapsed_buffer st) = Inr buf \<and>
    put_elapsed_receive d st = (Inr (), st\<lparr>receive_elapsed_buffer := buf\<rparr>) \<and>
    stats_inv (st\<lparr>receive_elapsed_buffer := buf\<rparr>)"
  using assms ring_buffer_put_ok [of "receive_elapsed_buffer st" d]
  by (auto simp: put_elapsed_receive_def stats_inv_def)

subsection \<open>Runs of counter operations\<close>

text \<open>
  The program increments before an operation and decrements after it.  A trace is \<open>balanced\<close>
  when no decrement comes without an increment before it.
\<close>

datatype stats_event = Send_started | Send_finished | Receive_started | Receive_finished Duration

definition stats_step :: "bool \<Rightarrow> stats_event \<Rightarrow> Stats \<Rightarrow> unit may_panic \<times> Stats" where
  "stats_step oc e st =
     (case e of
        Send_started \<Rightarrow> (Inr (), increment_outstanding_sends st)
      | Send_finished \<Rightarrow> decrement_outstanding_sends oc st
      | Receive_started \<Rightarrow> (Inr (), increment_outstanding_receives st)
      | Receive_finished d \<Rightarrow>
          (case decrement_outstanding_receives oc st of
             (Inl p, st') \<Rightarrow> (Inl p, st')
           | (Inr _, st') \<Rightarrow> put_elapsed_receive d st'))"

fun stats_run :: "bool \<Rightarrow> stats_event list \<Rightarrow> Stats \<Rightarrow> unit may_panic \<times> Stats" where
  "stats_run oc [] st = (Inr (), st)"
| "stats_run oc (e # es) st =
     (case stats_step oc e st of (Inl p, st') \<Rightarrow> (Inl p, st') | (Inr _, st') \<Rightarrow> stats_run oc es st')"

fun balanced :: "nat \<Rightarrow> nat \<Rightarrow> stats_event list \<Rightarrow> bool" where
  "balanced s r [] \<longleftrightarrow> s < 2 ^ 64 \<and> r < 2 ^ 64"
| "balanced s r (Send_started # es) \<longleftrightarrow> s + 1 < 2 ^ 64 \<and> balanced (s + 1) r es"
| "balanced s r (Send_finished # es) \<longleftrightarrow> 0 < s \<and> balanced (s - 1) r es"
| "balanced s r (Receive_started # es) \<longleftrightarrow> r + 1 < 2 ^ 64 \<and> balanced s (r + 1) es"
| "balanced s r (Receive_finished d # es) \<longleftrightarrow> 0 < r \<and> balanced s (r - 1) es"

text \<open>The counts recorded at the decrements, and what is left at the end.\<close>

fun send_counts :: "nat \<Rightarrow> stats_event list \<Rightarrow> nat list" where
  "send_counts s [] = []"
| "send_counts s (Send_started # es) = send_counts (s + 1) es"
| "send_counts s (Send_finished # es) = (s - 1) # send_counts (s - 1) es"
| "send_counts s (_ # es) = send_counts s es"

fun sends_left :: "nat \<Rightarrow> stats_event list \<Rightarrow> nat" where
  "sends_left s [] = s"
| "sends_left s (Send_started # es) = sends_left (s + 1) es"
| "sends_left s (Send_finished # es) = sends_left (s - 1) es"
| "sends_left s (_ # es) = sends_left s es"

lemma stats_run_balanced:
  assumes "stats_inv st" "balanced s r es" "unat (outstanding_sends st) = s"
    "unat (outstanding_receives st) = r" "represents (outstanding_sends_buffer st) xs"
  shows "\<exists>st'. stats_run oc es st = (Inr (), st') \<and> stats_inv st' \<and>
    unat (outstanding_sends st') = sends_left s es \<and>
    represents (outstanding_sends_buffer st') (xs @ map word_of_nat (send_counts s es)) \<and>
    rb_size (outstanding_sends_buffer st') = rb_size (outstanding_sends_buffer st)"
  using assms
proof (induction es arbitrary: st s r xs)
  case Nil
  then show ?case by simp
next
  case (Cons e es)
  show ?case
  proof (cases e)
    case Send_started
    let ?st = "increment_outstanding_sends st"
    have "unat (outstanding_sends ?st) = s + 1"
      using Cons.prems Send_started by (simp add: increment_outstanding_sends_def unat_increment)
    with Cons.IH [of ?st "s + 1" r xs] Cons.prems Send_started show ?thesis
      by (simp add: stats_step_def) (simp add: increment_outstanding_sends_def)
  next
    case Send_finished
    have pos: "0 < unat (outstanding_sends st)" using Cons.prems Send_finished by simp
    obtain buf where buf: "ring_buffer_put (outstanding_sends st - 1) (outstanding_sends_buffer st) = Inr buf"
      and dec: "decrement_outstanding_sends oc st =
        (Inr (), st\<lparr>outstanding_sends := outstanding_sends st - 1, outstanding_sends_buffer := buf\<rparr>)"
      and inv: "stats_inv (st\<lparr>outstanding_sends := outstanding_sends st - 1, outstanding_sends_buffer := buf\<rparr>)"
      using decrement_sends_ok [OF Cons.prems(1) pos] by blast
    have rep: "represents buf (xs @ [outstanding_sends st - 1])"
      and sz: "rb_size buf = rb_size (outstanding_sends_buffer st)"
      using represents_put [OF Cons.prems(5), of "outstanding_sends st - 1"] buf by auto
    have u: "unat (outstanding_sends st - 1) = s - 1"
      using pos Cons.prems(3) by (simp add: unat_decrement)
    then have w: "outstanding_sends st - 1 = word_of_nat (s - 1)"
      unfolding u [symmetric] by simp
    with Cons.IH [OF inv, of "s - 1" r "xs @ [outstanding_sends st - 1]"] Cons.prems Send_finished dec rep u sz
    show ?thesis by (simp add: stats_step_def)
  next
    case Receive_started
    let ?st = "increment_outstanding_receives st"
    have "unat (outstanding_receives ?st) = r + 1"
      using Cons.prems Receive_started by (simp add: increment_outstanding_receives_def unat_increment)
    with Cons.IH [of ?st s "r + 1" xs] Cons.prems Receive_started show ?thesis
      by (simp add: stats_step_def) (simp add: increment_outstanding_receives_def)
  next
    case (Receive_finished d)
    have pos: "0 < unat (outstanding_receives st)" using Cons.prems Receive_finished by simp
    obtain buf where
      dec: "decrement_outstanding_receives oc st =
        (Inr (), st\<lparr>outstanding_receives := outstanding_receives st - 1, outstanding_receives_buffer := buf\<rparr>)"
      and inv: "stats_inv (st\<lparr>outstanding_receives := outstanding_receives st - 1, outstanding_receives_buffer := buf\<rparr>)"
      using decrement_receives_ok [OF Cons.prems(1) pos] by blast
    obtain eb where
      put: "put_elapsed_receive d (st\<lparr>outstanding_receives := outstanding_receives st - 1, outstanding_receives_buffer := buf\<rparr>) =
        (Inr (), st\<lparr>outstanding_receives := outstanding_receives st - 1, outstanding_receives_buffer := buf,
           receive_elapsed_buffer := eb\<rparr>)"
      and inv': "stats_inv (st\<lparr>outstanding_receives := outstanding_receives st - 1, outstanding_receives_buffer := buf,
           receive_elapsed_buffer := eb\<rparr>)"
      using put_elapsed_ok [OF inv] by auto
    have "unat (outstanding_receives st - 1) = r - 1"
      using pos Cons.prems(4) by (simp add: unat_decrement)
    with Cons.IH [OF inv', of s "r - 1" xs] Cons.prems Receive_finished dec put
    show ?thesis by (simp add: stats_step_def)
  qed
qed

section \<open>Properties\<close>

text \<open>
  C35. The counters record what is under way: on new statistics, any trace that increments
  before it decrements runs without a panic in every build, the counter ends at the number of
  sends still under way, and the buffer holds the last hundred counts that the decrements left.
\<close>

theorem counters_record_outstanding:
  assumes "balanced 0 0 es"
  shows "\<exists>st. stats_run oc es stats_new = (Inr (), st) \<and>
    unat (outstanding_sends st) = sends_left 0 es \<and>
    window (outstanding_sends_buffer st) = last_n 100 (map word_of_nat (send_counts 0 es))"
proof -
  have rep: "represents (outstanding_sends_buffer stats_new) []"
    using represents_new [of RING_BUFFER_SIZE] by (simp add: stats_new_def RING_BUFFER_SIZE_def)
  have zero: "unat (outstanding_sends stats_new) = 0" "unat (outstanding_receives stats_new) = 0"
    by (simp_all add: stats_new_def)
  obtain st where st: "stats_run oc es stats_new = (Inr (), st)" "unat (outstanding_sends st) = sends_left 0 es"
    "represents (outstanding_sends_buffer st) (map word_of_nat (send_counts 0 es))"
    "rb_size (outstanding_sends_buffer st) = rb_size (outstanding_sends_buffer stats_new)"
    using stats_run_balanced [OF stats_inv_new assms zero rep] by auto
  then show ?thesis by (auto simp: represents_def stats_new_def ring_buffer_new_def RING_BUFFER_SIZE_def)
qed

theorem counters_record_outstanding_witness:
  "\<exists>st. stats_run True [Send_started, Send_started, Send_finished, Receive_started, Send_started,
         Send_finished] stats_new = (Inr (), st) \<and>
     unat (outstanding_sends st) = 1 \<and> window (outstanding_sends_buffer st) = [1, 1]"
proof -
  have "balanced 0 0 [Send_started, Send_started, Send_finished, Receive_started, Send_started, Send_finished]"
    by simp
  from counters_record_outstanding [OF this, of True] show ?thesis by (simp add: last_n_def)
qed

text \<open>
  A decrement that no increment precedes: the counter wraps to the largest number in every
  build; a build with overflow checks panics and records nothing, a build without records that
  number as a count of sends under way.
\<close>

theorem unmatched_decrement_wraps:
  assumes "outstanding_sends st = 0" "stats_inv st"
  shows "decrement_outstanding_sends True st =
      (Inl (Panic ''attempt to subtract with overflow''), st\<lparr>outstanding_sends := - 1\<rparr>) \<and>
    (\<exists>st'. decrement_outstanding_sends False st = (Inr (), st') \<and>
      unat (outstanding_sends st') = 2 ^ 64 - 1 \<and> stats_inv st' \<and>
      (\<exists>n. rb_long_term_max (outstanding_sends_buffer st') = Some n \<and> unat n = 2 ^ 64 - 1))"
proof -
  obtain buf where buf: "ring_buffer_put (- 1) (outstanding_sends_buffer st) = Inr buf" "ring_inv buf"
    "rb_long_term_max buf =
      Some (max (get_or_insert (- 1) (rb_long_term_max (outstanding_sends_buffer st))) (- 1))"
    using ring_buffer_put_ok [of "outstanding_sends_buffer st" "- 1"] assms(2)
    by (auto simp: stats_inv_def)
  have "max x (- 1) = - 1" for x :: usize by (simp add: max_def word_order.extremum_unique)
  moreover have "unat (- 1 :: usize) = 2 ^ 64 - 1" by (simp add: unsigned_minus_1_eq_mask mask_eq_exp_minus_1)
  moreover have "(0 :: usize) < 1" by (simp add: word_less_nat_alt)
  ultimately show ?thesis
    using assms buf by (simp add: decrement_outstanding_sends_def usize_sub_def stats_inv_def)
qed

theorem unmatched_decrement_wraps_witness:
  "\<exists>st'. decrement_outstanding_sends False stats_new = (Inr (), st') \<and>
     unat (outstanding_sends st') = 2 ^ 64 - 1"
proof -
  have "outstanding_sends stats_new = 0" by (simp add: stats_new_def)
  from unmatched_decrement_wraps [OF this stats_inv_new] show ?thesis by blast
qed

end
