(* ===== verification/Net_Api.thy ===== *)
theory Net_Api
  imports Complex_Main Net_Sender Net_Stats
begin

text \<open>
  \<open>shardus_net/src/lib.rs\<close>: the functions JavaScript calls, on one object that holds the
  sender, the statistics and the oneshot channels of the sends under way.  A call returns,
  throws a JavaScript error, or panics, and in each case leaves a new state.  Name resolution,
  the socket addresses' text form and the elapsed times are parameters.
\<close>

section \<open>JavaScript values\<close>

text \<open>A double, with \<open>as\<close> casts to unsigned integers: truncated, and clamped to the range.\<close>

datatype js_number = NaN | Pos_infinity | Neg_infinity | Finite rat

definition as_unsigned :: "nat \<Rightarrow> js_number \<Rightarrow> nat" where
  "as_unsigned width x =
     (case x of
        NaN \<Rightarrow> 0
      | Neg_infinity \<Rightarrow> 0
      | Pos_infinity \<Rightarrow> 2 ^ width - 1
      | Finite q \<Rightarrow> if q \<le> 0 then 0 else min (nat \<lfloor>q\<rfloor>) (2 ^ width - 1))"

definition as_u16 :: "js_number \<Rightarrow> u16" where
  "as_u16 x = word_of_nat (as_unsigned 16 x)"

definition as_u8 :: "js_number \<Rightarrow> u8" where
  "as_u8 x = word_of_nat (as_unsigned 8 x)"

datatype js_value = Js_string string | Js_number nat | Js_null

datatype js_error = Js_type_error string | Js_plain_error string

datatype 'a js_outcome = Js_return 'a | Js_throw js_error | Js_panic panic

section \<open>State and parameters\<close>

text \<open>
  \<open>n_waiters\<close>: the tasks that await a oneshot, with the flag that says whether they process
  the result.  \<open>n_callbacks\<close>: the calls of \<open>complete_cb\<close>, with the error text or nothing.
  \<open>n_aborted\<close>: the tasks that panicked because their sender was dropped unused.
\<close>

record ('addr, 's, 'c, 'w) shardus_net =
  n_sender :: "('addr, 's, 'c, 'w) sender"
  n_key_pair :: KeyPair
  n_stats :: Stats
  n_next_token :: token
  n_waiters :: "(token \<times> bool) list"
  n_callbacks :: "(token \<times> string option) list"
  n_aborted :: "token list"

record 'addr net_params =
  p_externals :: externals
  p_crypto :: crypto_static
  p_serde :: "string \<Rightarrow> HeaderFields option"
  p_resolve :: "string \<Rightarrow> u16 \<Rightarrow> 'addr list option"
  p_ip_string :: "'addr \<Rightarrow> string"
  p_port :: "'addr \<Rightarrow> u16"
  p_error_debug :: "'addr SenderError \<Rightarrow> string"
  p_overflow_checks :: bool

text \<open>The constructor, after the listener's address resolved and the key pair was made.\<close>

definition shardus_net_new ::
    "KeyPair \<Rightarrow> 'c \<Rightarrow> 'w \<Rightarrow> ('addr, 's, 'c, 'w) shardus_net" where
  "shardus_net_new key_pair connections w =
     \<lparr>n_sender = sender_new connections w, n_key_pair = key_pair, n_stats = stats_new,
      n_next_token = 0, n_waiters = [], n_callbacks = [], n_aborted = []\<rparr>"

text \<open>\<open>ShardusNetListener::new\<close>: the first address the name resolves to, or an error.\<close>

definition listener_new :: "'addr net_params \<Rightarrow> string \<Rightarrow> u16 \<Rightarrow> unit + 'addr" where
  "listener_new P host port =
     (case p_resolve P host port of
        None \<Rightarrow> Inl ()
      | Some [] \<Rightarrow> Inl ()
      | Some (address # _) \<Rightarrow> Inr address)"

definition create_shardus_net_listener ::
    "'addr net_params \<Rightarrow> js_number \<Rightarrow> string \<Rightarrow> 'addr js_outcome" where
  "create_shardus_net_listener P port host =
     (case listener_new P host (as_u16 port) of
        Inr net \<Rightarrow> Js_return net
      | Inl _ \<Rightarrow> Js_throw (Js_type_error ''The provided address is not valid''))"

text \<open>
  The constructor: the process-wide crypto instance, the key pair of the signing key, the
  listener's address, and a sender on the cache that was asked for.  \<open>mk_lru\<close> and
  \<open>mk_hashmap\<close> make the two caches.
\<close>

definition create_shardus_net_sender ::
    "(nat \<Rightarrow> 'c) \<Rightarrow> 'c \<Rightarrow> bool \<Rightarrow> nat \<Rightarrow> KeyPair \<Rightarrow> 'w \<Rightarrow> ('addr, 's, 'c, 'w) shardus_net" where
  "create_shardus_net_sender mk_lru mk_hashmap use_lru lru_size key_pair w =
     (let connections = (if use_lru then mk_lru lru_size else mk_hashmap)
      in shardus_net_new key_pair connections w)"

text \<open>The part after the crypto instance was initialised, and the whole.\<close>

definition create_after_init ::
    "'addr net_params \<Rightarrow> (nat \<Rightarrow> 'c) \<Rightarrow> 'c \<Rightarrow> 'w \<Rightarrow> js_number \<Rightarrow> string \<Rightarrow> bool \<Rightarrow> js_number \<Rightarrow>
     string \<Rightarrow> crypto_static \<Rightarrow> ('addr \<times> ('addr, 's, 'c, 'w) shardus_net) js_outcome" where
  "create_after_init P mk_lru mk_hashmap w port host use_lru lru_size hex_signing_sk st =
     (case rbind (get_shardus_crypto_instance st)
             (\<lambda>_. get_key_pair_using_sk (x_sodium (p_externals P)) (Hex hex_signing_sk)) of
        Inl p \<Rightarrow> Js_panic p
      | Inr key_pair \<Rightarrow>
          (case create_shardus_net_listener P port host of
             Js_throw e \<Rightarrow> Js_throw e
           | Js_panic p \<Rightarrow> Js_panic p
           | Js_return address \<Rightarrow>
               if as_unsigned 64 lru_size = 0 then Js_panic (Panic option_unwrap_msg)
               else Js_return (address,
                      create_shardus_net_sender mk_lru mk_hashmap use_lru
                        (as_unsigned 64 lru_size) key_pair w)))"

definition create_shardus_net ::
    "'addr net_params \<Rightarrow> (nat \<Rightarrow> 'c) \<Rightarrow> 'c \<Rightarrow> 'w \<Rightarrow> js_number \<Rightarrow> string \<Rightarrow> bool \<Rightarrow> js_number \<Rightarrow>
     string \<Rightarrow> string \<Rightarrow> crypto_static \<Rightarrow>
     ('addr \<times> ('addr, 's, 'c, 'w) shardus_net) js_outcome \<times> crypto_static" where
  "create_shardus_net P mk_lru mk_hashmap w port host use_lru lru_size hex_key hex_signing_sk st =
     (case initialize_shardus_crypto_instance (x_sodium (p_externals P)) hex_key st of
        (Inl p, st) \<Rightarrow> (Js_panic p, st)
      | (Inr _, st) \<Rightarrow>
          (create_after_init P mk_lru mk_hashmap w port host use_lru lru_size hex_signing_sk st, st))"

section \<open>Oneshots\<close>

text \<open>\<open>oneshot::channel\<close>: a fresh token.\<close>

definition new_token :: "('addr, 's, 'c, 'w) shardus_net \<Rightarrow> token \<times> ('addr, 's, 'c, 'w) shardus_net" where
  "new_token n = (n_next_token n, n\<lparr>n_next_token := n_next_token n + 1\<rparr>)"

text \<open>Spawning the task that awaits it.\<close>

definition spawn_waiter ::
    "token \<Rightarrow> bool \<Rightarrow> ('addr, 's, 'c, 'w) shardus_net \<Rightarrow> ('addr, 's, 'c, 'w) shardus_net" where
  "spawn_waiter t await_processing n = n\<lparr>n_waiters := n_waiters n @ [(t, await_processing)]\<rparr>"

text \<open>
  A sender that is dropped unused makes the \<open>expect\<close> of the task that awaits it panic: the
  task is gone, and neither the statistics nor the callback hear of it.
\<close>

definition drop_senders ::
    "token list \<Rightarrow> ('addr, 's, 'c, 'w) shardus_net \<Rightarrow> ('addr, 's, 'c, 'w) shardus_net" where
  "drop_senders ts n =
     n\<lparr>n_waiters := filter (\<lambda>(t, _). t \<notin> set ts) (n_waiters n),
       n_aborted := n_aborted n @ map fst (filter (\<lambda>(t, _). t \<in> set ts) (n_waiters n))\<rparr>"

definition modify_stats ::
    "(Stats \<Rightarrow> Stats) \<Rightarrow> ('addr, 's, 'c, 'w) shardus_net \<Rightarrow> ('addr, 's, 'c, 'w) shardus_net" where
  "modify_stats f n = n\<lparr>n_stats := f (n_stats n)\<rparr>"

section \<open>Sending\<close>

definition api_send ::
    "'addr net_params \<Rightarrow> js_number \<Rightarrow> string \<Rightarrow> string \<Rightarrow> ('addr, 's, 'c, 'w) shardus_net \<Rightarrow>
     unit js_outcome \<times> ('addr, 's, 'c, 'w) shardus_net" where
  "api_send P port host data n =
     (let (complete_tx, n) = new_token n;
          n = modify_stats increment_outstanding_sends n;
          n = spawn_waiter complete_tx True n
      in case p_resolve P host (as_u16 port) of
           Some [] \<Rightarrow> (Js_panic (Panic ''Expected at least one address''), drop_senders [complete_tx] n)
         | Some (address # _) \<Rightarrow>
             (Js_return (), n\<lparr>n_sender := sender_send address data complete_tx (n_sender n)\<rparr>)
         | None \<Rightarrow>
             (Js_throw (Js_type_error ''The provided address is not valid''), drop_senders [complete_tx] n))"

definition api_send_with_header ::
    "'addr net_params \<Rightarrow> js_number \<Rightarrow> string \<Rightarrow> js_number \<Rightarrow> string \<Rightarrow> string \<Rightarrow>
     ('addr, 's, 'c, 'w) shardus_net \<Rightarrow> unit js_outcome \<times> ('addr, 's, 'c, 'w) shardus_net" where
  "api_send_with_header P port host header_version header_js_string data_js_string n =
     (let (complete_tx, n) = new_token n;
          n = modify_stats increment_outstanding_sends n
      in case header_from_json_string (p_serde P) header_js_string (as_u8 header_version) of
           None \<Rightarrow> (Js_throw (Js_plain_error ''Failed to parse header''), drop_senders [complete_tx] n)
         | Some hdr \<Rightarrow>
             (let data = into_bytes data_js_string;
                  n = spawn_waiter complete_tx True n
              in case p_resolve P host (as_u16 port) of
                   Some [] \<Rightarrow>
                     (Js_panic (Panic ''Expected at least one address''), drop_senders [complete_tx] n)
                 | Some (address # _) \<Rightarrow>
                     (case sender_send_with_header (p_externals P) (p_crypto P) (n_key_pair n) address
                             (as_u8 header_version) hdr data complete_tx (n_sender n) of
                        Inl p \<Rightarrow> (Js_panic p, drop_senders [complete_tx] n)
                      | Inr ss \<Rightarrow> (Js_return (), n\<lparr>n_sender := ss\<rparr>))
                 | None \<Rightarrow>
                     (Js_throw (Js_type_error ''The provided address is not valid''),
                      drop_senders [complete_tx] n)))"

text \<open>The addresses of the zipped hosts and ports, or the throw of the first that fails.\<close>

fun resolve_all :: "'addr net_params \<Rightarrow> (string \<times> u16) list \<Rightarrow> 'addr list js_outcome" where
  "resolve_all P [] = Js_return []"
| "resolve_all P ((host, port) # rest) =
     (case p_resolve P host port of
        None \<Rightarrow> Js_throw (Js_type_error
                 (''The provided address '' @ host @ '':'' @ fmt_dec (unat port) @ '' is not valid''))
      | Some [] \<Rightarrow> Js_panic (Panic ''Expected at least one address'')
      | Some (address # _) \<Rightarrow>
          (case resolve_all P rest of
             Js_return addresses \<Rightarrow> Js_return (address # addresses)
           | Js_throw e \<Rightarrow> Js_throw e
           | Js_panic p \<Rightarrow> Js_panic p))"

fun new_tokens :: "nat \<Rightarrow> ('addr, 's, 'c, 'w) shardus_net \<Rightarrow> token list \<times> ('addr, 's, 'c, 'w) shardus_net" where
  "new_tokens 0 n = ([], n)"
| "new_tokens (Suc k) n =
     (let (t, n) = new_token n; (ts, n) = new_tokens k n in (t # ts, n))"

definition api_multi_send_with_header ::
    "'addr net_params \<Rightarrow> js_number list \<Rightarrow> string list \<Rightarrow> js_number \<Rightarrow> string \<Rightarrow> string \<Rightarrow> bool \<Rightarrow>
     ('addr, 's, 'c, 'w) shardus_net \<Rightarrow> unit js_outcome \<times> ('addr, 's, 'c, 'w) shardus_net" where
  "api_multi_send_with_header P js_ports hosts header_version header_js_string data_js_string
       await_processing n =
     (let ports = map as_u16 js_ports;
          n = modify_stats (increment_outstanding_sends ^^ length ports) n
      in case header_from_json_string (p_serde P) header_js_string (as_u8 header_version) of
           None \<Rightarrow> (Js_throw (Js_plain_error ''Failed to parse header''), n)
         | Some hdr \<Rightarrow>
             (let data = into_bytes data_js_string;
                  (senders, n) = new_tokens (length hosts) n;
                  n = fold (\<lambda>t. spawn_waiter t await_processing) senders n
              in case resolve_all P (zip hosts ports) of
                   Js_throw e \<Rightarrow> (Js_throw e, drop_senders senders n)
                 | Js_panic p \<Rightarrow> (Js_panic p, drop_senders senders n)
                 | Js_return addresses \<Rightarrow>
                     if addresses = [] then
                       (Js_throw (Js_type_error ''No valid addresses provided''), drop_senders senders n)
                     else
                       (case sender_multi_send_with_header (p_externals P) (p_crypto P) (n_key_pair n)
                               addresses (as_u8 header_version) hdr data senders (n_sender n) of
                          Inl p \<Rightarrow> (Js_panic p, drop_senders senders n)
                        | Inr ss \<Rightarrow>
                            (Js_return (),
                             drop_senders (drop (length addresses) senders) (n\<lparr>n_sender := ss\<rparr>)))))"

section \<open>Completion of a send\<close>

text \<open>
  The sender has notified a oneshot (the \<open>k\<close>-th notification): its task takes the result.
  With the flag set, the JavaScript thread decrements the counter and calls the callback;
  without it, the task ends.
\<close>

definition complete_send ::
    "'addr net_params \<Rightarrow> nat \<Rightarrow> ('addr, 's, 'c, 'w) shardus_net \<Rightarrow> ('addr, 's, 'c, 'w) shardus_net option" where
  "complete_send P k n =
     (if k < length (ss_notified (n_sender n)) then
        (case ss_notified (n_sender n) ! k of (t, result) \<Rightarrow>
           (case map_of (n_waiters n) t of
              None \<Rightarrow> None
            | Some await_processing \<Rightarrow>
                (let n = n\<lparr>n_waiters := filter (\<lambda>(u, _). u \<noteq> t) (n_waiters n),
                           n_sender := (n_sender n)\<lparr>ss_notified :=
                             take k (ss_notified (n_sender n)) @ drop (Suc k) (ss_notified (n_sender n))\<rparr>\<rparr>
                 in if await_processing then
                      (case decrement_outstanding_sends (p_overflow_checks P) (n_stats n) of
                         (Inl p, st) \<Rightarrow> Some (n\<lparr>n_stats := st\<rparr>)
                       | (Inr _, st) \<Rightarrow>
                           Some (n\<lparr>n_stats := st,
                                   n_callbacks := n_callbacks n @
                                     [(t, case result of Inl err \<Rightarrow> Some (p_error_debug P err) | Inr _ \<Rightarrow> None)]\<rparr>))
                    else Some n)))
      else None)"

section \<open>Receiving\<close>

text \<open>What the user's callback is called with.\<close>

record js_listen_args =
  arg_message :: js_value
  arg_remote_ip :: js_value
  arg_remote_port :: js_value
  arg_header_version :: js_value
  arg_header_json :: js_value
  arg_sign_json :: js_value

definition listen_args :: "'addr net_params \<Rightarrow> 'addr delivery \<Rightarrow> js_listen_args" where
  "listen_args P d =
     (case d of (msg, remote_address, optional_request_metadata) \<Rightarrow>
        \<lparr>arg_message = Js_string msg,
         arg_remote_ip = Js_string (p_ip_string P remote_address),
         arg_remote_port = Js_number (unat (p_port P remote_address)),
         arg_header_version =
           (case optional_request_metadata of None \<Rightarrow> Js_null | Some m \<Rightarrow> Js_number (unat (rm_version m))),
         arg_header_json =
           (case optional_request_metadata of None \<Rightarrow> Js_null | Some m \<Rightarrow> Js_string (rm_header_json_string m)),
         arg_sign_json =
           (case optional_request_metadata of None \<Rightarrow> Js_null | Some m \<Rightarrow> Js_string (rm_sign_json_string m))\<rparr>)"

text \<open>Taking a message off the listener's channel counts it; the JavaScript thread then counts
  it off, records the time it took and calls the callback.\<close>

definition listen_take :: "('addr, 's, 'c, 'w) shardus_net \<Rightarrow> ('addr, 's, 'c, 'w) shardus_net" where
  "listen_take n = modify_stats increment_outstanding_receives n"

definition listen_callback ::
    "'addr net_params \<Rightarrow> Duration \<Rightarrow> 'addr delivery \<Rightarrow> ('addr, 's, 'c, 'w) shardus_net \<Rightarrow>
     js_listen_args may_panic \<times> ('addr, 's, 'c, 'w) shardus_net" where
  "listen_callback P elapsed d n =
     (case decrement_outstanding_receives (p_overflow_checks P) (n_stats n) of
        (Inl p, st) \<Rightarrow> (Inl p, n\<lparr>n_stats := st\<rparr>)
      | (Inr _, st) \<Rightarrow>
          (case put_elapsed_receive elapsed st of
             (Inl p, st) \<Rightarrow> (Inl p, n\<lparr>n_stats := st\<rparr>)
           | (Inr _, st) \<Rightarrow> (Inr (listen_args P d), n\<lparr>n_stats := st\<rparr>)))"

section \<open>Statistics and eviction\<close>

definition api_get_stats ::
    "'addr net_params \<Rightarrow> 'f f64_ops \<Rightarrow> ('addr, 's, 'c, 'w) shardus_net \<Rightarrow> 'f stats_result_object js_outcome" where
  "api_get_stats P F n =
     (case stats_get_stats (p_overflow_checks P) (n_stats n) of
        Inl p \<Rightarrow> Js_panic p
      | Inr r \<Rightarrow> Js_return (stats_result_to_object F r))"

definition api_evict_socket ::
    "'addr net_params \<Rightarrow> js_number \<Rightarrow> string \<Rightarrow> ('addr, 's, 'c, 'w) shardus_net \<Rightarrow>
     unit js_outcome \<times> ('addr, 's, 'c, 'w) shardus_net" where
  "api_evict_socket P port host n =
     (case p_resolve P host (as_u16 port) of
        Some [] \<Rightarrow> (Js_panic (Panic ''Expected at least one address''), n)
      | Some (address # _) \<Rightarrow>
          (Js_return (), n\<lparr>n_sender := sender_evict_socket address (n_sender n)\<rparr>)
      | None \<Rightarrow> (Js_throw (Js_type_error ''The provided address is not valid''), n))"

end
