(* ===== verification/Api_Invariants.thy ===== *)
theory Api_Invariants
  imports Net_Api
begin

text \<open>
  The bookkeeping of the JavaScript object: which oneshots are under way, and what the counter
  of outstanding sends says about them.  \<open>api_step\<close> is one call or one task moving, labelled
  with the increments it makes and with those of them that nothing will ever take back.
\<close>

section \<open>The invariant\<close>

text \<open>
  Every waiting task's oneshot is in exactly one place of the sender, and the sender holds no
  other; tokens are never reused; the counter covers the waiting tasks that will decrement it.
\<close>

definition live :: "('addr, 's, 'c, 'w) shardus_net \<Rightarrow> nat" where
  "live n = length (filter snd (n_waiters n))"

definition sends_count :: "('addr, 's, 'c, 'w) shardus_net \<Rightarrow> nat" where
  "sends_count n = unat (outstanding_sends (n_stats n))"

definition tokens_ok :: "('addr, 's, 'c, 'w) shardus_net \<Rightarrow> bool" where
  "tokens_ok n \<longleftrightarrow> distinct (map fst (n_waiters n)) \<and>
     (\<forall>t \<in> fst ` set (n_waiters n). t < n_next_token n) \<and>
     all_tokens (n_sender n) = mset (map fst (n_waiters n))"

definition api_inv :: "('addr, 's, 'c, 'w) shardus_net \<Rightarrow> bool" where
  "api_inv n \<longleftrightarrow> stats_inv (n_stats n) \<and> tokens_ok n \<and> live n \<le> sends_count n"

lemma all_tokens_new [simp]: "all_tokens (sender_new c w) = {#}"
  by (simp add: token_defs sender_new_def)

lemma api_inv_new: "api_inv (shardus_net_new kp c w)"
  by (simp add: api_inv_def tokens_ok_def live_def shardus_net_new_def)

section \<open>Effects of the building blocks\<close>

named_theorems api_simps \<open>projections of the building blocks\<close>

lemma all_tokens_submit [api_simps]:
  "all_tokens (ss\<lparr>ss_send_channel := ss_send_channel ss @ items\<rparr>) =
     all_tokens ss + mset (map (\<lambda>(a, d, t). t) items)"
  by (simp add: token_defs)

lemma all_tokens_sender_send [api_simps]:
  "all_tokens (sender_send a d t ss) = add_mset t (all_tokens ss)"
  by (simp add: sender_send_def all_tokens_submit)

lemma all_tokens_evict [api_simps]: "all_tokens (sender_evict_socket a ss) = all_tokens ss"
  by (simp add: token_defs sender_evict_socket_def)

lemma all_tokens_with_header [api_simps]:
  "sender_send_with_header E st kp a hv hdr d t ss = Inr ss' \<Longrightarrow>
     all_tokens ss' = add_mset t (all_tokens ss)"
  by (auto simp: sender_send_with_header_def rust_simps all_tokens_submit)

lemma map_zip_tokens: "map (\<lambda>(a, d, t). t) (map (\<lambda>(a, t). (a, d, t)) (zip as ts)) =
    take (length as) ts"
  by (induction as arbitrary: ts) (auto simp: zip_Cons1 split: list.splits)

lemma all_tokens_multi [api_simps]:
  "sender_multi_send_with_header E st kp as hv hdr d ts ss = Inr ss' \<Longrightarrow>
     all_tokens ss' = all_tokens ss + mset (take (length as) ts)"
  by (auto simp: sender_multi_send_with_header_def rust_simps all_tokens_submit map_zip_tokens
      simp del: map_map)

lemma new_tokens_spec:
  "new_tokens k n = (ts, n') \<Longrightarrow>
     ts = [n_next_token n..<n_next_token n + k] \<and> n' = n\<lparr>n_next_token := n_next_token n + k\<rparr>"
proof (induction k arbitrary: n ts n')
  case 0
  then show ?case by simp
next
  case (Suc k)
  obtain us n1 where us: "new_tokens k (n\<lparr>n_next_token := n_next_token n + 1\<rparr>) = (us, n1)"
    by fastforce
  have "[n_next_token n..<n_next_token n + Suc k] =
      n_next_token n # [Suc (n_next_token n)..<Suc (n_next_token n) + k]"
    by (simp add: upt_conv_Cons del: upt_Suc)
  with us Suc.IH [OF us] Suc.prems show ?case
    by (auto simp: new_token_def simp del: upt_Suc)
qed

lemma fold_spawn:
  "fold (\<lambda>t. spawn_waiter t f) ts n = n\<lparr>n_waiters := n_waiters n @ map (\<lambda>t. (t, f)) ts\<rparr>"
  by (induction ts arbitrary: n) (simp_all add: spawn_waiter_def)

lemma length_resolve_all:
  "resolve_all P hps = Js_return as \<Longrightarrow> length as = length hps"
  by (induction P hps arbitrary: as rule: resolve_all.induct)
    (auto split: option.splits list.splits js_outcome.splits)

lemma increments_stats:
  "stats_inv ((increment_outstanding_sends ^^ k) st) = stats_inv st"
  by (induction k) simp_all

lemma increments_count:
  "unat (outstanding_sends st) + k < 2 ^ 64 \<Longrightarrow>
     unat (outstanding_sends ((increment_outstanding_sends ^^ k) st)) = unat (outstanding_sends st) + k"
  by (induction k) (simp_all add: increment_outstanding_sends_def unat_increment)

section \<open>Calls\<close>

definition returned :: "'a js_outcome \<Rightarrow> bool" where
  "returned r \<longleftrightarrow> (case r of Js_return _ \<Rightarrow> True | _ \<Rightarrow> False)"

lemma returned_simps [simp]: "returned (Js_return x)" "\<not> returned (Js_throw e)" "\<not> returned (Js_panic p)"
  by (simp_all add: returned_def)

text \<open>
  What a call of \<open>send\<close> does, in one of two ways: its token is with the sender and waited for,
  or it is aborted and nothing else but the counter has changed.
\<close>

definition call_effect ::
    "nat \<Rightarrow> nat list \<Rightarrow> bool \<Rightarrow> ('addr, 's, 'c, 'w) shardus_net \<Rightarrow> ('addr, 's, 'c, 'w) shardus_net \<Rightarrow> bool" where
  "call_effect k kept await n n' \<longleftrightarrow>
     n_stats n' = (increment_outstanding_sends ^^ k) (n_stats n) \<and>
     n_waiters n' = n_waiters n @ map (\<lambda>t. (t, await)) kept \<and>
     n_next_token n \<le> n_next_token n' \<and>
     (\<forall>t \<in> set kept. n_next_token n \<le> t \<and> t < n_next_token n') \<and> distinct kept \<and>
     all_tokens (n_sender n') = all_tokens (n_sender n) + mset kept"

lemma fresh_tokens: "tokens_ok n \<Longrightarrow> n_next_token n \<le> t \<Longrightarrow> t \<notin> fst ` set (n_waiters n)"
  by (auto simp: tokens_ok_def)

lemma filter_fresh:
  assumes "\<forall>t \<in> set ts. t \<notin> fst ` set ws"
  shows "filter (\<lambda>(t, b). t \<notin> set ts) ws = ws"
  using assms by (auto simp: filter_id_conv)

lemma call_effect_inv:
  assumes inv: "api_inv n" and eff: "call_effect k kept await n n'"
    and bound: "sends_count n + k < 2 ^ 64" and enough: "length kept \<le> k"
  shows "api_inv n' \<and> sends_count n' = sends_count n + k \<and>
    live n' = live n + (if await then length kept else 0)"
proof -
  have lv: "live n' = live n + (if await then length kept else 0)"
    using eff by (simp add: call_effect_def live_def comp_def filter_empty_conv)
  have cnt: "sends_count n' = sends_count n + k"
    using eff bound by (simp add: call_effect_def sends_count_def increments_count)
  have "tokens_ok n'"
    using inv eff fresh_tokens [of n]
    by (auto simp: api_inv_def call_effect_def tokens_ok_def comp_def)
  moreover have "stats_inv (n_stats n')"
    using inv eff by (simp add: api_inv_def call_effect_def increments_stats)
  ultimately show ?thesis using inv lv cnt enough by (auto simp: api_inv_def)
qed

lemma api_send_effect:
  assumes "tokens_ok n" "api_send P port host data n = (r, n')"
  shows "call_effect 1 (if returned r then [n_next_token n] else []) True n n'"
proof -
  note fresh = filter_fresh [of "[n_next_token n]" "n_waiters n"] fresh_tokens [OF assms(1), of "n_next_token n"]
  show ?thesis
    using assms(2) fresh
    by (auto simp: api_send_def new_token_def modify_stats_def spawn_waiter_def drop_senders_def
        call_effect_def Let_def api_simps split: option.splits list.splits)
qed

lemma api_send_with_header_effect:
  assumes "tokens_ok n" "api_send_with_header P port host hv hs ds n = (r, n')"
  shows "call_effect 1 (if returned r then [n_next_token n] else []) True n n'"
proof -
  note fresh = filter_fresh [of "[n_next_token n]" "n_waiters n"] fresh_tokens [OF assms(1), of "n_next_token n"]
  show ?thesis
    using assms(2) fresh
    by (auto simp: api_send_with_header_def new_token_def modify_stats_def spawn_waiter_def
        drop_senders_def call_effect_def Let_def api_simps
        split: option.splits list.splits sum.splits)
qed


lemma filter_all_fresh:
  assumes "\<forall>t \<in> set ts. t \<notin> fst ` set ws" "distinct ts"
  shows "filter (\<lambda>(t, b). t \<notin> set (drop k ts)) (ws @ map (\<lambda>t. (t, f)) ts) =
    ws @ map (\<lambda>t. (t, f)) (take k ts)"
proof -
  have "filter (\<lambda>(t, b). t \<notin> set (drop k ts)) ws = ws"
    using assms(1) by (fastforce simp: filter_id_conv dest: in_set_dropD)
  moreover have "filter (\<lambda>(t, b). t \<notin> set (drop k ts)) (map (\<lambda>t. (t, f)) ts) =
      map (\<lambda>t. (t, f)) (filter (\<lambda>t. t \<notin> set (drop k ts)) ts)"
    by (simp add: filter_map comp_def)
  moreover have "filter (\<lambda>t. t \<notin> set (drop k ts)) (take k ts @ drop k ts) = take k ts"
    using assms(2) set_take_disj_set_drop_if_distinct [of ts k k]
    by (auto simp: filter_id_conv filter_empty_conv simp del: append_take_drop_id)
  ultimately show ?thesis by simp
qed

lemma drop_some_effect:
  assumes "tokens_ok n" and ts: "ts = [n_next_token n..<n_next_token n + h]"
    and n1: "n_waiters n1 = n_waiters n @ map (\<lambda>t. (t, f)) ts"
      "n_stats n1 = (increment_outstanding_sends ^^ p) (n_stats n)"
      "n_next_token n1 = n_next_token n + h"
      "all_tokens (n_sender n1) = all_tokens (n_sender n) + mset (take k ts)"
  shows "call_effect p (take k ts) f n (drop_senders (drop k ts) n1)"
proof -
  have "\<forall>t \<in> set ts. t \<notin> fst ` set (n_waiters n)" "distinct ts"
    using fresh_tokens [OF assms(1)] ts by auto
  from filter_all_fresh [OF this, of k f] n1 show ?thesis
    by (auto simp: call_effect_def drop_senders_def ts dest: in_set_takeD)
qed

lemma api_multi_effect:
  assumes "tokens_ok n"
    and "api_multi_send_with_header P js_ports hosts hv hs ds await n = (r, n')"
  shows "call_effect (length js_ports)
    (if returned r then take (min (length hosts) (length js_ports))
       [n_next_token n..<n_next_token n + length hosts] else []) await n n'"
proof (cases "header_from_json_string (p_serde P) hs (as_u8 hv)")
  case None
  with assms(2) show ?thesis
    by (auto simp: api_multi_send_with_header_def call_effect_def modify_stats_def Let_def)
next
  case (Some hdr)
  let ?m = "modify_stats (increment_outstanding_sends ^^ length js_ports) n"
  obtain ts n1 where nt: "new_tokens (length hosts) ?m = (ts, n1)" by fastforce
  have ts: "ts = [n_next_token n..<n_next_token n + length hosts]"
    and n1: "n1 = ?m\<lparr>n_next_token := n_next_token n + length hosts\<rparr>"
    using new_tokens_spec [OF nt] by (auto simp: modify_stats_def)
  define n2 where "n2 = n1\<lparr>n_waiters := n_waiters n1 @ map (\<lambda>t. (t, await)) ts\<rparr>"
  have n2: "n_waiters n2 = n_waiters n @ map (\<lambda>t. (t, await)) ts"
    "n_stats n2 = (increment_outstanding_sends ^^ length js_ports) (n_stats n)"
    "n_next_token n2 = n_next_token n + length hosts" "n_sender n2 = n_sender n"
    "n_key_pair n1 = n_key_pair n" "n_sender n1 = n_sender n"
    by (simp_all add: n2_def n1 modify_stats_def)
  have n2': "n1\<lparr>n_waiters := n_waiters n1 @ map (\<lambda>t. (t, await)) ts, n_sender := ss\<rparr> = n2\<lparr>n_sender := ss\<rparr>" for ss
    by (simp add: n2_def)
  have none: "call_effect (length js_ports) [] await n (drop_senders ts n2)"
    using drop_some_effect [OF assms(1) ts n2(1-3), of 0] n2(4) by simp
  note unfold = api_multi_send_with_header_def Let_def Some nt fold_spawn n2' n2_def [symmetric]
  show ?thesis
  proof (cases "resolve_all P (zip hosts (map as_u16 js_ports))")
    case (Js_throw e)
    with assms(2) none show ?thesis by (auto simp: unfold)
  next
    case (Js_panic p)
    with assms(2) none show ?thesis by (auto simp: unfold)
  next
    case (Js_return as)
    have len: "length as = min (length hosts) (length js_ports)"
      using length_resolve_all [OF Js_return] by simp
    show ?thesis
    proof (cases "as = []")
      case True
      with Js_return assms(2) none show ?thesis by (auto simp: unfold)
    next
      case False
      show ?thesis
      proof (cases "sender_multi_send_with_header (p_externals P) (p_crypto P) (n_key_pair n) as
          (as_u8 hv) hdr (into_bytes ds) ts (n_sender n)")
        case (Inl p)
        with False Js_return assms(2) none n2 show ?thesis by (auto simp: unfold)
      next
        case (Inr ss)
        have "call_effect (length js_ports) (take (length as) ts) await n
            (drop_senders (drop (length as) ts) (n2\<lparr>n_sender := ss\<rparr>))"
          by (rule drop_some_effect [OF assms(1) ts])
            (simp_all add: n2 all_tokens_multi [OF Inr])
        with Inr False Js_return assms(2) n2 len show ?thesis
          unfolding ts [symmetric] by (auto simp: unfold)
      qed
    qed
  qed
qed

section \<open>Completions\<close>

lemma complete_send_effect:
  assumes inv: "api_inv n" and step: "complete_send P k n = Some n'"
  shows "api_inv n' \<and> sends_count n' - live n' = sends_count n - live n \<and>
    sends_count n' \<le> sends_count n"
proof -
  obtain t result where nth: "ss_notified (n_sender n) ! k = (t, result)" by fastforce
  have k: "k < length (ss_notified (n_sender n))"
    using step by (auto simp: complete_send_def split: if_splits)
  obtain f where f: "map_of (n_waiters n) t = Some f"
    using step k nth by (auto simp: complete_send_def split: option.splits)
  have dist: "distinct (map fst (n_waiters n))" using inv by (simp add: api_inv_def tokens_ok_def)
  define ws where "ws = filter (\<lambda>(u, _). u \<noteq> t) (n_waiters n)"
  obtain xs ys where split: "n_waiters n = xs @ (t, f) # ys"
    using f by (metis map_of_SomeD split_list)
  with dist have t: "t \<notin> fst ` set xs" "t \<notin> fst ` set ys" by auto
  then have "filter (\<lambda>(u, _). u \<noteq> t) xs = xs" "filter (\<lambda>(u, _). u \<noteq> t) ys = ys"
    by (force simp: filter_id_conv)+
  with split have ws: "ws = xs @ ys" by (simp add: ws_def)
  define ss where "ss = (n_sender n)\<lparr>ss_notified :=
    take k (ss_notified (n_sender n)) @ drop (Suc k) (ss_notified (n_sender n))\<rparr>"
  have "notified_tokens (n_sender n) = add_mset t (notified_tokens ss)"
    using arg_cong [OF mset_remove_nth [OF k], of "image_mset fst"] nth
    by (simp add: notified_tokens_def ss_def)
  then have "all_tokens (n_sender n) = add_mset t (all_tokens ss)"
    by (simp add: all_tokens_def channel_tokens_def task_tokens_def ss_def)
  moreover have "all_tokens (n_sender n) = mset (map fst (n_waiters n))"
    using inv by (simp add: api_inv_def tokens_ok_def)
  ultimately have all: "all_tokens ss = mset (map fst ws)" by (simp add: split ws)
  define n1 where "n1 = n\<lparr>n_waiters := ws, n_sender := ss\<rparr>"
  have "tokens_ok (n1\<lparr>n_stats := st, n_callbacks := cb\<rparr>)" for st cb
    using inv all dist by (auto simp: tokens_ok_def api_inv_def n1_def split ws)
  note tok = this
  have lv: "live n = live n1 + (if f then 1 else 0)"
    by (simp add: live_def n1_def split ws)
  show ?thesis
  proof (cases f)
    case False
    have "n' = n1"
      using step k nth f False by (simp add: complete_send_def n1_def ws_def ss_def Let_def)
    with tok [where st = "n_stats n1" and cb = "n_callbacks n1"] lv False inv show ?thesis
      by (simp add: api_inv_def sends_count_def n1_def)
  next
    case True
    have "0 < live n" using lv True by simp
    then have pos: "0 < unat (outstanding_sends (n_stats n))"
      using inv by (simp add: api_inv_def sends_count_def)
    obtain buf where dec: "decrement_outstanding_sends (p_overflow_checks P) (n_stats n) =
        (Inr (), (n_stats n)\<lparr>outstanding_sends := outstanding_sends (n_stats n) - 1, outstanding_sends_buffer := buf\<rparr>)"
      and sinv: "stats_inv ((n_stats n)\<lparr>outstanding_sends := outstanding_sends (n_stats n) - 1, outstanding_sends_buffer := buf\<rparr>)"
      using decrement_sends_ok [OF _ pos] inv by (auto simp: api_inv_def)
    obtain cb where n': "n' = n1\<lparr>n_stats := (n_stats n)\<lparr>outstanding_sends := outstanding_sends (n_stats n) - 1,
        outstanding_sends_buffer := buf\<rparr>, n_callbacks := cb\<rparr>"
      using step k nth f True dec by (auto simp: complete_send_def n1_def ws_def ss_def Let_def)
    have "sends_count n' = sends_count n - 1"
      using n' pos by (simp add: sends_count_def unat_decrement)
    moreover have "live n' = live n - 1"
      using n' lv True by (simp add: live_def n1_def)
    moreover have "tokens_ok n'" "stats_inv (n_stats n')" using n' tok sinv by simp_all
    moreover have "0 < sends_count n" "live n \<le> sends_count n"
      using pos inv by (simp_all add: sends_count_def api_inv_def)
    ultimately show ?thesis using \<open>0 < live n\<close> by (auto simp: api_inv_def)
  qed
qed

section \<open>Steps of the object\<close>

text \<open>
  The label of a step: how often it increments the counter of outstanding sends, and how many
  of these increments no waiting task will decrement.
\<close>

inductive api_step ::
    "'addr net_params \<Rightarrow> ('addr, 's, 'c) cache_ops \<Rightarrow> ('c \<Rightarrow> arc \<Rightarrow> bool) \<Rightarrow> ('addr, 's, 'w) tcp \<Rightarrow>
     ('addr, 's, 'c, 'w) shardus_net \<Rightarrow> nat \<times> nat \<Rightarrow> ('addr, 's, 'c, 'w) shardus_net \<Rightarrow> bool"
  for P C cached T where
  call_send: "api_send P port host data n = (r, n') \<Longrightarrow>
     api_step P C cached T n (1, if returned r then 0 else 1) n'"
| call_send_with_header: "api_send_with_header P port host hv hs ds n = (r, n') \<Longrightarrow>
     api_step P C cached T n (1, if returned r then 0 else 1) n'"
| call_multi_send: "api_multi_send_with_header P ports hosts hv hs ds await n = (r, n') \<Longrightarrow>
     api_step P C cached T n
       (length ports, if returned r \<and> await then length ports - min (length hosts) (length ports)
                      else length ports) n'"
| call_evict: "api_evict_socket P port host n = (r, n') \<Longrightarrow> api_step P C cached T n (0, 0) n'"
| sender_task: "sender_step C cached T (n_sender n) e ss \<Longrightarrow> e = Internal \<or> e = Stall \<Longrightarrow>
     api_step P C cached T n (0, 0) (n\<lparr>n_sender := ss\<rparr>)"
| complete: "complete_send P k n = Some n' \<Longrightarrow> api_step P C cached T n (0, 0) n'"

inductive_cases api_step_cases [consumes 1, case_names send header multi evict task complete]:
  "api_step P C cached T n l n'"

text \<open>A run: the increments made and the increments lost on the way.\<close>

inductive api_run ::
    "'addr net_params \<Rightarrow> ('addr, 's, 'c) cache_ops \<Rightarrow> ('c \<Rightarrow> arc \<Rightarrow> bool) \<Rightarrow> ('addr, 's, 'w) tcp \<Rightarrow>
     ('addr, 's, 'c, 'w) shardus_net \<Rightarrow> nat \<Rightarrow> nat \<Rightarrow> ('addr, 's, 'c, 'w) shardus_net \<Rightarrow> bool"
  for P C cached T n where
  start: "api_run P C cached T n 0 0 n"
| step: "api_run P C cached T n incs lost n1 \<Longrightarrow> api_step P C cached T n1 (i, l) n2 \<Longrightarrow>
     api_run P C cached T n (incs + i) (lost + l) n2"

lemma stats_same_inv:
  assumes "api_inv n" "n_stats n' = n_stats n" "n_waiters n' = n_waiters n"
    "n_next_token n' = n_next_token n" "all_tokens (n_sender n') = all_tokens (n_sender n)"
  shows "api_inv n' \<and> sends_count n' = sends_count n \<and> live n' = live n"
  using assms by (simp add: api_inv_def tokens_ok_def live_def sends_count_def)

lemma call_effect_step:
  assumes inv: "api_inv n" and eff: "call_effect k kept await n n'"
    and bound: "sends_count n + k < 2 ^ 64" and enough: "length kept \<le> k"
  shows "api_inv n' \<and> sends_count n' - live n' =
    sends_count n - live n + (k - (if await then length kept else 0)) \<and> sends_count n' \<le> sends_count n + k"
  using call_effect_inv [OF assms] inv enough by (auto simp: api_inv_def)

lemma api_step_effect:
  assumes inv: "api_inv n" and bound: "sends_count n + i < 2 ^ 64"
    and step: "api_step P C cached T n (i, l) n'"
  shows "api_inv n' \<and> sends_count n' - live n' = sends_count n - live n + l \<and>
    sends_count n' \<le> sends_count n + i"
proof -
  have tok: "tokens_ok n" using inv by (simp add: api_inv_def)
  from step show ?thesis
  proof (cases rule: api_step_cases)
    case (send port host data r)
    have "length (if returned r then [n_next_token n] else []) \<le> i" using send by simp
    with call_effect_step [OF inv api_send_effect [OF tok send(2)]] bound send(1)
    show ?thesis by (auto split: if_splits)
  next
    case (header port host hv hs ds r)
    with call_effect_step [OF inv api_send_with_header_effect [OF tok header(2)]] bound
    show ?thesis by (auto split: if_splits)
  next
    case (multi ports hosts hv hs ds await r)
    with call_effect_step [OF inv api_multi_effect [OF tok multi(2)]] bound
    show ?thesis by (auto split: if_splits)
  next
    case (evict port host r)
    then have "n_stats n' = n_stats n" "n_waiters n' = n_waiters n" "n_next_token n' = n_next_token n"
      "all_tokens (n_sender n') = all_tokens (n_sender n)"
      by (auto simp: api_evict_socket_def all_tokens_evict split: option.splits list.splits)
    from stats_same_inv [OF inv this] evict(1) show ?thesis by simp
  next
    case (task e ss)
    with stats_same_inv [OF inv, of n'] sender_step_tokens [OF task(3)] show ?thesis by auto
  next
    case (complete k)
    with complete_send_effect [OF inv complete(2)] show ?thesis by simp
  qed
qed

text \<open>
  The counter is, at every moment, the number of sends that a task still waits for and will
  count off, plus the increments that were lost; it never wraps below zero.
\<close>

lemma api_run_accounting:
  assumes "api_run P C cached T n incs lost n'" "api_inv n" "sends_count n + incs < 2 ^ 64"
  shows "api_inv n' \<and> sends_count n' = live n' + (sends_count n - live n) + lost \<and>
    sends_count n' \<le> sends_count n + incs"
  using assms
proof (induction rule: api_run.induct)
  case start
  then show ?case by (auto simp: api_inv_def)
next
  case (step incs lost n1 i l n2)
  then have IH: "api_inv n1" "sends_count n1 = live n1 + (sends_count n - live n) + lost"
    "sends_count n1 \<le> sends_count n + incs" by auto
  with step.prems have "sends_count n1 + i < 2 ^ 64" by simp
  from api_step_effect [OF IH(1) this step.hyps(2)] IH show ?case by (auto simp: api_inv_def)
qed

section \<open>A small instance\<close>

text \<open>
  Parameters to evaluate the calls with: the port is the address, one host name does not
  resolve, one resolves to nothing, and one JSON text is a header.
\<close>

definition sample_fields :: HeaderFields where
  "sample_fields =
     \<lparr>f_uuid = Some (replicate 16 5), f_message_length = None, f_sender_id = Some ''me'',
      f_tracker_id = None, f_verification_data = None, f_compression = None\<rparr>"

definition sample_params :: "nat net_params" where
  "sample_params =
     \<lparr>p_externals = sample_externals, p_crypto = sample_static,
      p_serde = (\<lambda>s. if s = ''header'' then Some sample_fields else None),
      p_resolve = (\<lambda>host port. if host = ''unknown'' then None
                              else if host = ''empty'' then Some [] else Some [unat port]),
      p_ip_string = fmt_dec, p_port = word_of_nat,
      p_error_debug = (\<lambda>err. case err of ConnectionFailedError e _ \<Rightarrow> e | SendFailedError e _ \<Rightarrow> e),
      p_overflow_checks = True\<rparr>"

definition sample_net :: "(nat, nat, nat \<rightharpoonup> arc, sample_world) shardus_net" where
  "sample_net = shardus_net_new sample_keys Map.empty []"

lemma counts_new [simp]:
  "sends_count (shardus_net_new kp c w) = 0" "live (shardus_net_new kp c w) = 0"
  by (simp_all add: sends_count_def live_def shardus_net_new_def stats_new_def)

lemma sample_net_inv: "api_inv sample_net" "sends_count sample_net = 0"
  by (simp_all add: sample_net_def api_inv_new)

definition sample_parsed :: HeaderV1 where
  "sample_parsed =
     \<lparr>uuid = replicate 16 5, message_length = 0, sender_id = ''me'', tracker_id = [],
      verification_data = [], compression = NoCompression\<rparr>"

lemma sample_header_parses:
  "header_from_json_string (p_serde sample_params) ''header'' (as_u8 (Finite 1)) = Some (V1 sample_parsed)"
  by (simp add: sample_parsed_def header_from_json_string_def header_v1_from_json_string_def sample_params_def
      header_v1_of_fields_def sample_fields_def as_u8_def as_unsigned_def or_default_def
      compression_default_def)

lemma sample_frame:
  "\<exists>f. build_frame (p_externals sample_params) (p_crypto sample_params) sample_keys (as_u8 (Finite 1))
     hdr (into_bytes s) = Inr f"
  using build_frame_total [of sample_static sample_crypto sample_externals sample_keys hdr "into_bytes s"]
    sample_hash_key_accepted
  by (auto simp: sample_static_def sample_externals_def sample_params_def as_u8_def as_unsigned_def)

section \<open>Properties\<close>

text \<open>
  C20. The books balance: in every run of a new object, the counter of outstanding sends is the
  number of sends whose waiting task will still count them off, plus the increments that were
  lost in calls that failed, in multi-sends that skip the processing, and in multi-sends with
  more ports than hosts; so once nothing waits, the counter is exactly the number lost, and it
  never wraps.
\<close>

theorem outstanding_sends_accounted:
  assumes "api_run P C cached T (shardus_net_new kp c w) incs lost n" "incs < 2 ^ 64"
  shows "unat (outstanding_sends (n_stats n)) = length (filter snd (n_waiters n)) + lost \<and>
    lost \<le> incs \<and>
    mset (map fst (n_waiters n)) = all_tokens (n_sender n) \<and> distinct (map fst (n_waiters n))"
proof -
  from api_run_accounting [OF assms(1) api_inv_new] assms(2)
  have "api_inv n" "sends_count n = live n + lost" "sends_count n \<le> incs" by auto
  then show ?thesis by (auto simp: api_inv_def tokens_ok_def sends_count_def live_def)
qed

theorem outstanding_sends_accounted_witness:
  "\<exists>n. api_run sample_params hashmap_cache hashmap_cached sample_tcp sample_net 2 1 n \<and>
     unat (outstanding_sends (n_stats n)) = 2 \<and> map fst (n_waiters n) = [1]"
proof -
  obtain r1 n1 where 1: "api_send sample_params (Finite 5) ''unknown'' ''x'' sample_net = (r1, n1)"
    by fastforce
  obtain r2 n2 where 2: "api_send sample_params (Finite 5) ''here'' ''x'' n1 = (r2, n2)"
    by fastforce
  have r: "\<not> returned r1" "returned r2" and w: "n_waiters n2 = [(1, True)]"
    using 1 2 by (auto simp: api_send_def sample_params_def sample_net_def shardus_net_new_def
        new_token_def modify_stats_def spawn_waiter_def drop_senders_def)
  let ?run = "api_run sample_params hashmap_cache hashmap_cached sample_tcp sample_net"
  have "?run (0 + 1) (0 + 1) n1"
    using api_run.step [OF api_run.start api_step.call_send [OF 1]] r(1) by simp
  from api_run.step [OF this api_step.call_send [OF 2]] r(2) have run: "?run 2 1 n2"
    by (simp add: numeral_2_eq_2)
  with outstanding_sends_accounted [OF run [unfolded sample_net_def]] w show ?thesis by auto
qed

text \<open>
  C21. A call that fails leaks: when \<open>send\<close> or \<open>send_with_header\<close> throws or panics - a header that
  does not parse, an address that does not resolve - the counter has gone up by one, nothing
  was handed to the sender, and no task waits that could ever count it off or call back.
\<close>

theorem failed_send_leaks:
  assumes "api_inv n" "sends_count n + 1 < 2 ^ 64" "\<not> returned r"
    and "api_send P port host data n = (r, n') \<or> api_send_with_header P port host hv hs ds n = (r, n')"
  shows "sends_count n' = sends_count n + 1 \<and> n_waiters n' = n_waiters n \<and>
    all_tokens (n_sender n') = all_tokens (n_sender n) \<and> n_callbacks n' = n_callbacks n"
proof -
  have tok: "tokens_ok n" using assms(1) by (simp add: api_inv_def)
  have eff: "call_effect 1 [] True n n'"
    using assms(3,4) api_send_effect [OF tok] api_send_with_header_effect [OF tok] by fastforce
  have "n_callbacks n' = n_callbacks n"
    using assms(4) by (auto simp: api_send_def api_send_with_header_def new_token_def modify_stats_def
        spawn_waiter_def drop_senders_def Let_def split: option.splits list.splits sum.splits)
  with eff call_effect_inv [OF assms(1) eff assms(2)] show ?thesis by (simp add: call_effect_def)
qed

theorem failed_send_leaks_witness:
  "case api_send_with_header sample_params (Finite 5) ''here'' (Finite 2) ''header'' ''x'' sample_net of
     (r, n') \<Rightarrow> \<not> returned r \<and> sends_count n' = 1 \<and> n_waiters n' = []"
proof -
  obtain r n' where c: "api_send_with_header sample_params (Finite 5) ''here'' (Finite 2) ''header'' ''x''
      sample_net = (r, n')" by fastforce
  then have r: "\<not> returned r"
    by (auto simp: api_send_with_header_def header_from_json_string_def as_u8_def as_unsigned_def
        Let_def split: prod.splits)
  have b: "sends_count sample_net + 1 < 2 ^ 64" by (simp add: sample_net_inv)
  from failed_send_leaks [OF sample_net_inv(1) b r disjI2 [OF c]] r c sample_net_inv(2) show ?thesis
    by (simp add: sample_net_def shardus_net_new_def)
qed

text \<open>
  A multi-send that is told not to await the processing leaks every one of its increments:
  it counts all ports as outstanding, hands the frames to the sender, and no task will ever
  count one of them off.
\<close>

theorem multi_send_without_processing_leaks:
  assumes "api_inv n" "sends_count n + length ports < 2 ^ 64"
    and "api_multi_send_with_header P ports hosts hv hs ds False n = (Js_return (), n')"
  shows "sends_count n' = sends_count n + length ports \<and> live n' = live n \<and>
    size (all_tokens (n_sender n')) = size (all_tokens (n_sender n)) + min (length hosts) (length ports)"
proof -
  have tok: "tokens_ok n" using assms(1) by (simp add: api_inv_def)
  note eff = api_multi_effect [OF tok assms(3)]
  have "length (if returned (Js_return ()) then take (min (length hosts) (length ports))
      [n_next_token n..<n_next_token n + length hosts] else []) \<le> length ports" by simp
  from call_effect_inv [OF assms(1) eff assms(2) this] eff show ?thesis
    by (simp add: call_effect_def)
qed

theorem multi_send_without_processing_leaks_witness:
  "\<exists>n'. api_multi_send_with_header sample_params [Finite 5, Finite 6] [''a'', ''b''] (Finite 1) ''header''
       ''x'' False sample_net = (Js_return (), n') \<and> sends_count n' = 2 \<and> live n' = 0"
proof -
  let ?P = "sample_params"
  have res: "resolve_all ?P (zip [''a'', ''b''] (map as_u16 [Finite 5, Finite 6])) = Js_return [5, 6]"
    by (simp add: sample_params_def as_u16_def as_unsigned_def)
  have k: "n_key_pair sample_net = sample_keys" by (simp add: sample_net_def shardus_net_new_def)
  obtain f where f: "build_frame (p_externals sample_params) (p_crypto sample_params) sample_keys
      (as_u8 (Finite 1)) (V1 sample_parsed) (into_bytes ''x'') = Inr f"
    using sample_frame by blast
  obtain r n' where c: "api_multi_send_with_header ?P [Finite 5, Finite 6] [''a'', ''b''] (Finite 1)
      ''header'' ''x'' False sample_net = (r, n')" by fastforce
  then have r: "r = Js_return ()"
    using f sample_header_parses res k
    by (auto simp: api_multi_send_with_header_def sender_multi_send_with_header_def Let_def new_token_def
        modify_stats_def spawn_waiter_def)
  have b: "sends_count sample_net + length [Finite 5, Finite 6] < 2 ^ 64" by (simp add: sample_net_inv)
  have "live sample_net = 0" by (simp add: sample_net_def)
  with multi_send_without_processing_leaks [OF sample_net_inv(1) b c [unfolded r]] c r sample_net_inv(2)
  show ?thesis by simp
qed

text \<open>
  A completed send is counted off and called back: when the sender has notified a oneshot
  whose task processes its result, taking the result removes the waiting task, lowers the
  counter by one, records it, and calls the callback once, with the error's text exactly when
  the send failed.
\<close>

theorem completed_send_calls_back:
  assumes "api_inv n" "k < length (ss_notified (n_sender n))"
    and "ss_notified (n_sender n) ! k = (t, result)" "(t, True) \<in> set (n_waiters n)"
  shows "\<exists>n'. complete_send P k n = Some n' \<and> api_inv n' \<and>
    sends_count n' = sends_count n - 1 \<and> 0 < sends_count n \<and> t \<notin> fst ` set (n_waiters n') \<and>
    n_callbacks n' = n_callbacks n @
      [(t, case result of Inl err \<Rightarrow> Some (p_error_debug P err) | Inr _ \<Rightarrow> None)]"
proof -
  have dist: "distinct (map fst (n_waiters n))" using assms(1) by (simp add: api_inv_def tokens_ok_def)
  then have f: "map_of (n_waiters n) t = Some True" using assms(4) by simp
  have "0 < live n" using assms(4) by (force simp: live_def filter_empty_conv)
  then have pos: "0 < unat (outstanding_sends (n_stats n))"
    using assms(1) by (simp add: api_inv_def sends_count_def)
  have sinv: "stats_inv (n_stats n)" using assms(1) by (simp add: api_inv_def)
  obtain buf where dec: "decrement_outstanding_sends (p_overflow_checks P) (n_stats n) =
      (Inr (), (n_stats n)\<lparr>outstanding_sends := outstanding_sends (n_stats n) - 1, outstanding_sends_buffer := buf\<rparr>)"
    using decrement_sends_ok [OF sinv pos] by blast
  obtain n' where n': "complete_send P k n = Some n'"
    "n_callbacks n' = n_callbacks n @
      [(t, case result of Inl err \<Rightarrow> Some (p_error_debug P err) | Inr _ \<Rightarrow> None)]"
    "n_waiters n' = filter (\<lambda>(u, _). u \<noteq> t) (n_waiters n)"
    "outstanding_sends (n_stats n') = outstanding_sends (n_stats n) - 1"
    using assms(2,3) f dec by (simp add: complete_send_def Let_def)
  with complete_send_effect [OF assms(1) n'(1)] pos show ?thesis
    by (auto simp: sends_count_def unat_decrement)
qed

theorem completed_send_calls_back_witness:
  "\<exists>n'. complete_send sample_params 0
       (sample_net\<lparr>n_stats := increment_outstanding_sends stats_new, n_next_token := 1, n_waiters := [(0, True)],
          n_sender := (n_sender sample_net)\<lparr>ss_notified := [(0, Inl (SendFailedError ''broken pipe'' 5))]\<rparr>\<rparr>) =
     Some n' \<and> sends_count n' = 0 \<and> n_callbacks n' = [(0, Some ''broken pipe'')]"
proof -
  let ?n = "sample_net\<lparr>n_stats := increment_outstanding_sends stats_new, n_next_token := 1,
    n_waiters := [(0, True)],
    n_sender := (n_sender sample_net)\<lparr>ss_notified := [(0, Inl (SendFailedError ''broken pipe'' 5))]\<rparr>\<rparr>"
  have c: "sends_count ?n = 1"
    by (simp add: sends_count_def increment_outstanding_sends_def stats_new_def)
  have "api_inv ?n" unfolding api_inv_def c
    by (simp add: tokens_ok_def live_def token_defs sample_net_def shardus_net_new_def sender_new_def)
  from completed_send_calls_back [OF this, of 0 0 _ sample_params] c show ?thesis
    by (auto simp: sample_params_def sample_net_def shardus_net_new_def)
qed

text \<open>
  A multi-send signs once: when the call returns, it has put one and the same frame into the
  sender's channel for every pair of a host and a port, at the address the pair resolves to,
  each with a oneshot of its own; pairs are formed up to the shorter of the two lists, and
  there is at least one.
\<close>

theorem multi_send_submits_one_frame:
  assumes "api_multi_send_with_header P ports hosts hv hs ds await n = (Js_return (), n')"
  shows "\<exists>hdr as f. header_from_json_string (p_serde P) hs (as_u8 hv) = Some hdr \<and>
    resolve_all P (zip hosts (map as_u16 ports)) = Js_return as \<and> as \<noteq> [] \<and>
    length as = min (length hosts) (length ports) \<and>
    build_frame (p_externals P) (p_crypto P) (n_key_pair n) (as_u8 hv) hdr (into_bytes ds) = Inr f \<and>
    ss_send_channel (n_sender n') = ss_send_channel (n_sender n) @
      map (\<lambda>(a, t). (a, f, t)) (zip as [n_next_token n..<n_next_token n + length hosts])"
proof -
  obtain hdr where hdr: "header_from_json_string (p_serde P) hs (as_u8 hv) = Some hdr"
    using assms by (cases "header_from_json_string (p_serde P) hs (as_u8 hv)")
      (auto simp: api_multi_send_with_header_def Let_def)
  let ?m = "modify_stats (increment_outstanding_sends ^^ length ports) n"
  obtain ts n1 where nt: "new_tokens (length hosts) ?m = (ts, n1)" by fastforce
  have ts: "ts = [n_next_token n..<n_next_token n + length hosts]"
    and n1: "n1 = ?m\<lparr>n_next_token := n_next_token n + length hosts\<rparr>"
    using new_tokens_spec [OF nt] by (auto simp: modify_stats_def)
  have n1': "n_sender n1 = n_sender n" "n_key_pair n1 = n_key_pair n" unfolding n1 modify_stats_def by simp_all
  obtain as where as: "resolve_all P (zip hosts (map as_u16 ports)) = Js_return as" "as \<noteq> []"
    using assms hdr nt by (auto simp: api_multi_send_with_header_def Let_def fold_spawn
        split: js_outcome.splits if_splits)
  obtain ss where ss: "sender_multi_send_with_header (p_externals P) (p_crypto P) (n_key_pair n) as
      (as_u8 hv) hdr (into_bytes ds) ts (n_sender n) = Inr ss" and n': "n_sender n' = ss"
    using assms hdr nt as n1'
    by (auto simp: api_multi_send_with_header_def Let_def fold_spawn drop_senders_def
        split: sum.splits)
  from ss obtain f where f: "build_frame (p_externals P) (p_crypto P) (n_key_pair n) (as_u8 hv) hdr
      (into_bytes ds) = Inr f"
    and ch: "ss_send_channel ss = ss_send_channel (n_sender n) @ map (\<lambda>(a, t). (a, f, t)) (zip as ts)"
    by (auto simp: sender_multi_send_with_header_def rust_simps)
  have "length as = min (length hosts) (length ports)"
    using length_resolve_all [OF as(1)] by simp
  with f ch n' hdr as show ?thesis unfolding ts by blast
qed

theorem multi_send_submits_one_frame_witness:
  "\<exists>n' f. api_multi_send_with_header sample_params [Finite 5, Finite 6, Finite 7] [''a'', ''b'']
       (Finite 1) ''header'' ''x'' True sample_net = (Js_return (), n') \<and>
     ss_send_channel (n_sender n') = [(5, f, 0), (6, f, 1)]"
proof -
  obtain r n' where c: "api_multi_send_with_header sample_params [Finite 5, Finite 6, Finite 7]
      [''a'', ''b''] (Finite 1) ''header'' ''x'' True sample_net = (r, n')" by fastforce
  have res: "resolve_all sample_params (zip [''a'', ''b''] (map as_u16 [Finite 5, Finite 6, Finite 7])) =
      Js_return [5, 6]"
    by (simp add: sample_params_def as_u16_def as_unsigned_def)
  have k: "n_key_pair sample_net = sample_keys" by (simp add: sample_net_def shardus_net_new_def)
  obtain f where f: "build_frame (p_externals sample_params) (p_crypto sample_params) sample_keys
      (as_u8 (Finite 1)) (V1 sample_parsed) (into_bytes ''x'') = Inr f"
    using sample_frame by blast
  have r: "r = Js_return ()"
    using f sample_header_parses res c k
    by (auto simp: api_multi_send_with_header_def sender_multi_send_with_header_def Let_def new_token_def
        modify_stats_def spawn_waiter_def)
  from multi_send_submits_one_frame [OF c [unfolded r]] res c r show ?thesis
    by (auto simp: sample_net_def shardus_net_new_def sender_new_def upt_rec)
qed

text \<open>
  A received message is counted and handed over: taking it off the listener's channel and
  running its callback leaves the counter of receives where it was, records the counter and the
  time it took, and calls back with the text, the peer, and the metadata or nulls.
\<close>

theorem received_message_calls_back:
  assumes "stats_inv (n_stats n)" "unat (outstanding_receives (n_stats n)) + 1 < 2 ^ 64"
  shows "\<exists>n'. listen_callback P elapsed (msg, peer, md) (listen_take n) =
      (Inr (listen_args P (msg, peer, md)), n') \<and>
    outstanding_receives (n_stats n') = outstanding_receives (n_stats n) \<and>
    window (outstanding_receives_buffer (n_stats n')) =
      push_window (rb_size (outstanding_receives_buffer (n_stats n)))
        (window (outstanding_receives_buffer (n_stats n))) (outstanding_receives (n_stats n)) \<and>
    window (receive_elapsed_buffer (n_stats n')) =
      push_window (rb_size (receive_elapsed_buffer (n_stats n)))
        (window (receive_elapsed_buffer (n_stats n))) elapsed \<and>
    arg_message (listen_args P (msg, peer, md)) = Js_string msg \<and>
    (arg_header_json (listen_args P (msg, peer, md)) = Js_null \<longleftrightarrow> md = None) \<and>
    (arg_sign_json (listen_args P (msg, peer, md)) = Js_null \<longleftrightarrow> md = None)"
proof -
  let ?st = "increment_outstanding_receives (n_stats n)"
  have pos: "0 < unat (outstanding_receives ?st)" and undo: "outstanding_receives ?st - 1 = outstanding_receives (n_stats n)"
    using assms(2) by (simp_all add: increment_outstanding_receives_def unat_increment)
  have buf: "outstanding_receives_buffer ?st = outstanding_receives_buffer (n_stats n)"
    "receive_elapsed_buffer ?st = receive_elapsed_buffer (n_stats n)"
    by (simp_all add: increment_outstanding_receives_def)
  obtain b1 where b1: "ring_buffer_put (outstanding_receives (n_stats n)) (outstanding_receives_buffer (n_stats n)) = Inr b1"
    "window b1 = push_window (rb_size (outstanding_receives_buffer (n_stats n)))
        (window (outstanding_receives_buffer (n_stats n))) (outstanding_receives (n_stats n))"
    using ring_buffer_put_ok assms(1) unfolding stats_inv_def by blast
  obtain b2 where b2: "ring_buffer_put elapsed (receive_elapsed_buffer (n_stats n)) = Inr b2"
    "window b2 = push_window (rb_size (receive_elapsed_buffer (n_stats n)))
        (window (receive_elapsed_buffer (n_stats n))) elapsed"
    using ring_buffer_put_ok assms(1) unfolding stats_inv_def by blast
  have dec: "decrement_outstanding_receives (p_overflow_checks P) ?st =
      (Inr (), ?st\<lparr>outstanding_receives := outstanding_receives (n_stats n), outstanding_receives_buffer := b1\<rparr>)"
    by (simp add: decrement_outstanding_receives_def usize_sub_pos [OF pos] undo buf b1(1))
  show ?thesis
    using b1(2) b2 dec
    by (cases md) (simp_all add: listen_callback_def listen_take_def modify_stats_def dec put_elapsed_receive_def
        buf listen_args_def)
qed

theorem received_message_calls_back_witness:
  "\<exists>n'. listen_callback sample_params (Duration 0 7) (''hi'', 3, None) (listen_take sample_net) =
       (Inr (listen_args sample_params (''hi'', 3, None)), n') \<and>
     window (outstanding_receives_buffer (n_stats n')) = [0] \<and>
     window (receive_elapsed_buffer (n_stats n')) = [Duration 0 7]"
proof -
  have "stats_inv (n_stats sample_net)" "unat (outstanding_receives (n_stats sample_net)) + 1 < 2 ^ 64"
    by (simp_all add: sample_net_def shardus_net_new_def) (simp add: stats_new_def)
  from received_message_calls_back [OF this, of sample_params "Duration 0 7" "''hi''" 3 None]
  show ?thesis
    by (auto simp: sample_net_def shardus_net_new_def stats_new_def ring_buffer_new_def window_def
        push_window_def RING_BUFFER_SIZE_def)
qed

text \<open>
  Ports are cast, not checked: a JavaScript number becomes the whole part of itself when
  that is a port, 0 when the number is negative or not a number, and 65535 when it is larger,
  so a call with an impossible port is not refused.
\<close>

theorem port_cast_clamps:
  "unat (as_u16 (Finite (of_nat n + of_nat k / of_nat (Suc (k + m))))) = min n 65535 \<and>
   unat (as_u16 (Finite (- of_nat n))) = 0 \<and> unat (as_u16 NaN) = 0 \<and>
   unat (as_u16 Pos_infinity) = 65535 \<and> unat (as_u16 Neg_infinity) = 0"
proof -
  have "\<lfloor>of_nat n + of_nat k / of_nat (Suc (k + m)) :: rat\<rfloor> = int n"
  proof (rule floor_unique)
    show "of_int (int n) \<le> (of_nat n + of_nat k / of_nat (Suc (k + m)) :: rat)" by simp
    have "(of_nat k / of_nat (Suc (k + m)) :: rat) < 1" by (simp add: divide_less_eq)
    then show "(of_nat n + of_nat k / of_nat (Suc (k + m)) :: rat) < of_int (int n) + 1" by simp
  qed
  moreover have "(0 :: rat) \<le> of_nat k / of_nat (Suc (k + m))" by simp
  moreover have "n = 0 \<and> (of_nat k / of_nat (Suc (k + m)) :: rat) = 0"
    if "of_nat n + of_nat k / of_nat (Suc (k + m)) \<le> (0 :: rat)"
    using that calculation(2) by (metis add_nonneg_eq_0_iff of_nat_0_le_iff of_nat_eq_0_iff antisym add_nonneg_nonneg)
  moreover have "min n 65535 < 2 ^ 16" by simp
  ultimately show ?thesis
    by (auto simp: as_u16_def as_unsigned_def unsigned_of_nat take_bit_nat_eq_self)
qed

text \<open>
  A constructor that returns: the process has a crypto instance, the listener's address is
  the first that host and port resolve to, the object signs with the key pair of the signing
  key, its cache is the kind that was asked for and its books are empty; and the size given for
  the LRU cache was not cast to zero, even when the hash map was asked for.
\<close>

theorem created_object_is_fresh:
  assumes "create_shardus_net P mk_lru mk_hashmap w port host use_lru lru_size key sk st =
    (Js_return (address, n), st')"
  shows "SHARDUS_CRYPTO_INSTANCE st' \<noteq> None \<and>
    (\<exists>rest. p_resolve P host (as_u16 port) = Some (address # rest)) \<and>
    get_key_pair_using_sk (x_sodium (p_externals P)) (Hex sk) = Inr (n_key_pair n) \<and>
    as_unsigned 64 lru_size \<noteq> 0 \<and>
    ss_connections (n_sender n) = (if use_lru then mk_lru (as_unsigned 64 lru_size) else mk_hashmap) \<and>
    api_inv n \<and> sends_count n = 0 \<and> n_waiters n = [] \<and> n_callbacks n = []"
proof -
  obtain kp where n: "n = shardus_net_new kp (if use_lru then mk_lru (as_unsigned 64 lru_size) else mk_hashmap) w"
    and kp: "get_key_pair_using_sk (x_sodium (p_externals P)) (Hex sk) = Inr kp"
    and l: "create_shardus_net_listener P port host = Js_return address" "as_unsigned 64 lru_size \<noteq> 0"
    and i: "SHARDUS_CRYPTO_INSTANCE st' \<noteq> None"
    using assms
    by (auto simp: create_shardus_net_def create_after_init_def create_shardus_net_sender_def Let_def rust_simps
        get_shardus_crypto_instance_def split: prod.splits sum.splits js_outcome.splits if_splits)
  from l(1) have "\<exists>rest. p_resolve P host (as_u16 port) = Some (address # rest)"
    by (auto simp: create_shardus_net_listener_def listener_new_def split: option.splits list.splits)
  moreover have "api_inv n" "sends_count n = 0" unfolding n by (simp_all add: api_inv_new)
  moreover have "ss_connections (n_sender n) = (if use_lru then mk_lru (as_unsigned 64 lru_size) else mk_hashmap)"
    "n_key_pair n = kp" "n_waiters n = []" "n_callbacks n = []"
    unfolding n by (simp_all add: shardus_net_new_def sender_new_def)
  ultimately show ?thesis using kp l(2) i by simp
qed

theorem created_object_is_fresh_witness:
  "\<exists>n st'. create_shardus_net sample_params (\<lambda>_. Map.empty) (Map.empty :: nat \<rightharpoonup> arc) ([] :: sample_world)
       (Finite 5) ''here'' False (Finite 1) ''a'' [CHR 0x09] crypto_static_init =
       (Js_return (5, n :: (nat, nat, nat \<rightharpoonup> arc, sample_world) shardus_net), st') \<and>
     api_inv n \<and> n_key_pair n = sample_keys"
proof -
  have k: "get_key_pair_using_sk sample_sodium (Hex [CHR 0x09]) = Inr sample_keys"
    by (simp add: get_key_pair_using_sk_def sample_sodium_def sample_keys_def expect_def into_bytes_def
        byte_of_def)
  define st1 where "st1 = \<lparr>INIT = Complete, SHARDUS_CRYPTO_INSTANCE = Some \<lparr>hash_key = into_bytes ''a''\<rparr>\<rparr>"
  have i: "initialize_shardus_crypto_instance sample_sodium ''a'' crypto_static_init = (Inr (), st1)"
    by (simp add: crypto_static_init_def initialize_shardus_crypto_instance_def
        shardus_crypto_new_def sample_sodium_def expect_def st1_def)
  have g: "get_shardus_crypto_instance st1 = Inr \<lparr>hash_key = into_bytes ''a''\<rparr>"
    by (simp add: get_shardus_crypto_instance_def st1_def expect_def)
  have l: "create_shardus_net_listener sample_params (Finite 5) ''here'' = Js_return 5"
    by (simp add: create_shardus_net_listener_def listener_new_def sample_params_def as_u16_def
        as_unsigned_def)
  have x: "x_sodium (p_externals sample_params) = sample_sodium"
    by (simp add: sample_params_def sample_externals_def)
  have z: "as_unsigned 64 (Finite 1) = 1" by (simp add: as_unsigned_def)
  obtain n st' where c: "create_shardus_net sample_params (\<lambda>_. Map.empty) (Map.empty :: nat \<rightharpoonup> arc)
      ([] :: sample_world) (Finite 5) ''here'' False (Finite 1) ''a'' [CHR 0x09] crypto_static_init =
       (Js_return (5, n :: (nat, nat, nat \<rightharpoonup> arc, sample_world) shardus_net), st')"
    by (simp add: create_shardus_net_def create_after_init_def i g k l x z)
  from created_object_is_fresh [OF c] c k show ?thesis by (auto simp: x)
qed

end
