(* ===== verification/Sender_To_Listener.thy ===== *)
theory Sender_To_Listener
  imports Api_Invariants Listener
begin

text \<open>
  The two ends of a connection together: frames that \<open>build_frame\<close> of \<open>shardus_net_sender.rs\<close> makes,
  read by the loop of \<open>shardus_net_listener.rs\<close>.
\<close>

section \<open>From sender to listener\<close>

text \<open>
  The metadata that a listener with the same hash key shows for a text sent with a header: the
  header as it was signed, its length filled in, and the signature that the key pair makes for
  header and text.
\<close>

definition shown_metadata ::
    "externals \<Rightarrow> crypto_static \<Rightarrow> KeyPair \<Rightarrow> HeaderV1 \<Rightarrow> string \<Rightarrow> RequestMetadata \<Rightarrow> bool" where
  "shown_metadata E st kp h msg md \<longleftrightarrow>
     (let h' = h\<lparr>message_length := as_u32 (length msg)\<rparr>
      in \<exists>sc m. SHARDUS_CRYPTO_INSTANCE st = Some sc \<and>
           message_sign (x_sodium E) sc kp
             (message_new_unsigned 1 (header_v1_serialize h') (into_bytes msg)) = Inr m \<and>
           md = \<lparr>rm_version = 1,
                 rm_header_json_string = header_to_json_string (x_uuid_fmt E) (V1 h'),
                 rm_sign_json_string = sign_to_json_string (m_sign m)\<rparr>)"

text \<open>Nothing about the metadata is left open.\<close>

lemma shown_metadata_unique:
  "shown_metadata E st kp h msg md \<Longrightarrow> shown_metadata E st kp h msg md' \<Longrightarrow> md' = md"
  by (auto simp: shown_metadata_def Let_def)

text \<open>
  The two ends: signatures of the key pair verify, and both hold an instance with the same hash
  key.
\<close>

definition same_crypto :: "externals \<Rightarrow> crypto_static \<Rightarrow> externals \<Rightarrow> crypto_static \<Rightarrow> KeyPair \<Rightarrow> bool" where
  "same_crypto E st E' st' kp \<longleftrightarrow> sodium_signs (x_sodium E) (secret_key kp) \<and> x_sodium E' = x_sodium E \<and>
     (\<exists>sk. get_key_pair_using_sk (x_sodium E) sk = Inr kp) \<and>
     SHARDUS_CRYPTO_INSTANCE st \<noteq> None \<and> SHARDUS_CRYPTO_INSTANCE st' = SHARDUS_CRYPTO_INSTANCE st"

text \<open>
  Header and text are values of their Rust types: strings are UTF-8 and their lengths fit the
  wire's length fields.
\<close>

definition well_formed :: "HeaderV1 \<times> string \<Rightarrow> bool" where
  "well_formed = (\<lambda>(h, msg). header_v1_ok h \<and> string_ok msg)"

text \<open>The listener reads headers of up to this size; the sender has no such limit.\<close>

definition within_limit :: "HeaderV1 \<Rightarrow> bool" where
  "within_limit h \<longleftrightarrow> length (header_v1_serialize h) \<le> HEADER_SIZE_LIMIT_IN_BYTES"

text \<open>One frame: delivered with the metadata above, or skipped for the size of its header.\<close>

lemma built_frame_handled:
  assumes crypto: "same_crypto E st E' st' kp" and build: "build_frame E st kp hv (V1 h) (into_bytes msg) = Inr f"
    and ok: "well_formed (h, msg)" and len: "length f < 2 ^ 32"
  shows "blob_ok f"
    "within_limit h \<Longrightarrow> \<exists>md. handle_frame E' st' f = Received msg (Some md) \<and> shown_metadata E' st' kp h msg md"
    "\<not> within_limit h \<Longrightarrow> handle_frame E' st' f = Skipped Header_over_limit"
proof -
  let ?h = "h\<lparr>message_length := as_u32 (length msg)\<rparr>"
  let ?m = "message_new_unsigned 1 (header_v1_serialize ?h) (into_bytes msg)"
  obtain sc m where sc: "SHARDUS_CRYPTO_INSTANCE st = Some sc"
    and sign: "message_sign (x_sodium E) sc kp ?m = Inr m" and f: "f = 1 # message_serialize m"
    using build by (auto simp: build_frame_eq_Inr)
  obtain sg where m: "m = ?m\<lparr>m_sign := sign_new (public_key kp) sg\<rparr>"
    using sign by (auto simp: message_sign_eq_Inr)
  obtain sk where sk: "get_key_pair_using_sk (x_sodium E) sk = Inr kp"
    and signs: "sodium_signs (x_sodium E) (secret_key kp)"
    using crypto by (auto simp: same_crypto_def)
  have hl: "length (header_v1_serialize ?h) = length (header_v1_serialize h)"
    by (simp add: length_header_v1_serialize)
  have parts: "length (header_v1_serialize h) + length msg + length (public_key kp) + length sg + 18 < 2 ^ 32"
    using len f m hl by (simp add: length_message_serialize message_new_unsigned_def sign_new_def)
  have mok: "message_ok m"
    using parts hl by (simp add: m message_ok_def unsigned_ok_def sign_ok_def blob_ok_def
        message_new_unsigned_def sign_new_def)
  have small: "unat (message_length ?h) = length msg" using parts by simp
  have fields: "m_header_version m = 1" "m_header m = header_v1_serialize ?h" "m_data m = into_bytes msg"
    by (simp_all add: m message_new_unsigned_def)
  have hok: "header_v1_ok ?h" and str: "string_ok msg" using ok by (simp_all add: well_formed_def header_v1_ok_def)
  have sc': "SHARDUS_CRYPTO_INSTANCE st' = Some sc" and ver: "message_verify (x_sodium E') sc m = Inr True"
    and sign': "message_sign (x_sodium E') sc kp ?m = Inr m"
    using crypto sc sign message_sign_verify [OF signs sk sign] by (simp_all add: same_crypto_def)
  show "blob_ok f" using len by (simp add: blob_ok_def)
  show "\<exists>md. handle_frame E' st' f = Received msg (Some md) \<and> shown_metadata E' st' kp h msg md"
    if "within_limit h"
  proof -
    have lim: "length (m_header m) \<le> HEADER_SIZE_LIMIT_IN_BYTES"
      using that hl by (simp add: fields(2) within_limit_def)
    show ?thesis unfolding f handle_frame_signed [OF mok fields(1,2) hok lim sc' ver fields(3) str small]
      using sc' sign' by (simp add: shown_metadata_def)
  qed
  show "handle_frame E' st' f = Skipped Header_over_limit" if "\<not> within_limit h"
    unfolding f by (rule handle_frame_over_limit [OF mok]) (use that hl in \<open>simp add: fields(2) within_limit_def\<close>)
qed

lemma receive_built_frames:
  assumes crypto: "same_crypto E st E' st' kp" and alive: "\<forall>n. alive n"
  shows "list_all2 (\<lambda>(h, msg) f. build_frame E st kp 1 (V1 h) (into_bytes msg) = Inr f) sends frames \<Longrightarrow>
    \<forall>x \<in> set sends. well_formed x \<Longrightarrow> \<forall>f \<in> set frames. length f < 2 ^ 32 \<Longrightarrow>
    \<exists>mds. list_all2 (\<lambda>(h, msg) md. shown_metadata E' st' kp h msg md) (filter (\<lambda>x. within_limit (fst x)) sends) mds \<and>
      receive E' st' alive ra (concat (map wire_frame frames)) sent =
        (Conn_ok, sent @ map2 (\<lambda>(h, msg) md. (msg, ra, Some md)) (filter (\<lambda>x. within_limit (fst x)) sends) mds)"
proof (induction arbitrary: sent rule: list_all2_induct)
  case Nil
  then show ?case by (intro exI [of _ "[]"]) (simp add: receive_short)
next
  case (Cons s sends f frames)
  obtain h msg where s: "s = (h, msg)" by fastforce
  then have "build_frame E st kp 1 (V1 h) (into_bytes msg) = Inr f" "well_formed (h, msg)" "length f < 2 ^ 32"
    using Cons by simp_all
  note one = built_frame_handled [OF crypto this]
  have alive': "alive (length sent)" using alive by simp
  show ?case
  proof (cases "within_limit h")
    case True
    from one(2) [OF True] obtain md where
      md: "handle_frame E' st' f = Received msg (Some md)" "shown_metadata E' st' kp h msg md" by blast
    from Cons.IH [of "sent @ [(msg, ra, Some md)]"] Cons.prems obtain mds where
      "list_all2 (\<lambda>(h, msg) md. shown_metadata E' st' kp h msg md) (filter (\<lambda>x. within_limit (fst x)) sends) mds"
      "receive E' st' alive ra (concat (map wire_frame frames)) (sent @ [(msg, ra, Some md)]) =
        (Conn_ok, (sent @ [(msg, ra, Some md)]) @
          map2 (\<lambda>(h, msg) md. (msg, ra, Some md)) (filter (\<lambda>x. within_limit (fst x)) sends) mds)"
      by auto
    then show ?thesis using md s True alive' one(1)
      by (intro exI [of _ "md # mds"]) (simp add: receive_wire_frame)
  next
    case False
    with Cons.IH [of sent] Cons.prems one(1) one(3) s show ?thesis by (simp add: receive_wire_frame)
  qed
qed

section \<open>A small instance\<close>

lemma sample_same_crypto:
  "same_crypto sample_externals sample_static sample_externals sample_static sample_keys"
  using sample_sodium_signs sample_key_pair
  by (auto simp: same_crypto_def sample_externals_def sample_static_def)

lemma sample_well_formed: "well_formed (sample_header, ''hi'')"
  using sample_header_ok by (simp add: well_formed_def string_ok_def byte_of_def)

lemma sample_within_limit: "within_limit sample_header"
  by (simp add: within_limit_def HEADER_SIZE_LIMIT_IN_BYTES_def length_header_v1_serialize)
    (simp add: sample_header_def)

lemma sample_instance: "SHARDUS_CRYPTO_INSTANCE sample_static = Some sample_crypto"
  by (simp add: sample_static_def)

lemma sample_accepted: "hash_key_accepted (x_sodium sample_externals) sample_crypto"
  using sample_hash_key_accepted by (simp add: sample_externals_def)

lemma sample_built:
  "\<exists>f. build_frame sample_externals sample_static sample_keys 1 (V1 sample_header) (into_bytes ''hi'') = Inr f \<and>
     length f < 2 ^ 32"
proof -
  obtain f where f: "build_frame sample_externals sample_static sample_keys 1 (V1 sample_header)
      (into_bytes ''hi'') = Inr f"
    using build_frame_total [OF sample_instance sample_accepted] by blast
  then have "length f < 2 ^ 32"
    by (auto simp: build_frame_eq_Inr message_sign_eq_Inr sample_externals_def sample_sodium_def
        sample_static_def sample_keys_def length_message_serialize message_new_unsigned_def sign_new_def
        serialize_unsigned_blobs length_header_v1_serialize sample_header_def)
  with f show ?thesis by blast
qed

end
