(* ===== verification/Sender_Termination.thy ===== *)
theory Sender_Termination
  imports Net_Sender
begin

text \<open>
  The tasks of a sender always come to rest.  Every step that is not a call uses up work: an
  item in the channel is worth three steps - its dispatch, its send and the freeing of the
  connection it may create - a task, an eviction and a connection one each.  A sender at rest
  has answered everything but the sends on stalled connections, and keeps only connections that
  its cache or one of these sends refers to.
\<close>

section \<open>The work left\<close>

definition live_conns :: "('addr, 's) conn_heap \<Rightarrow> arc set" where
  "live_conns h = dom (h_conns h)"

definition work_left :: "('addr, 's, 'c, 'w) sender \<Rightarrow> nat" where
  "work_left ss = 3 * length (ss_send_channel ss) + length (ss_tasks ss) +
     length (ss_evict_channel ss) + card (live_conns (ss_heap ss))"

lemma finite_live_conns: "heap_ok h \<Longrightarrow> finite (live_conns h)"
  by (rule finite_subset [of _ "{..<h_next h}"]) (auto simp: heap_ok_def live_conns_def not_le [symmetric])

abbreviation internal_step where
  "internal_step C cached T ss ss' \<equiv> sender_step C cached T ss Internal ss'"

text \<open>A sender at rest: none of its tasks can move.\<close>

definition at_rest ::
    "('addr, 's, 'c) cache_ops \<Rightarrow> ('c \<Rightarrow> arc \<Rightarrow> bool) \<Rightarrow> ('addr, 's, 'w) tcp \<Rightarrow>
     ('addr, 's, 'c, 'w) sender \<Rightarrow> bool" where
  "at_rest C cached T ss \<longleftrightarrow> (\<forall>ss'. \<not> internal_step C cached T ss ss')"

context connection_cache
begin

lemma get_or_insert_grows:
  assumes "coherent c h" "cc_get_or_insert ops a c h = (i, c', h')"
  shows "card (live_conns h') \<le> card (live_conns h) + 1"
proof (cases "view c a")
  case (Some j)
  with hit [of c a j h i c' h'] assms show ?thesis by (auto simp: coherent_def)
next
  case None
  with miss [of c a h i c' h'] assms have "live_conns h' = insert i (live_conns h)"
    by (auto simp: coherent_def heap_alloc_def live_conns_def)
  then show ?thesis by (simp add: card_insert_le_m1 card_insert_if le_SucI)
qed

lemma internal_step_works:
  assumes inv: "sender_inv V ss" and step: "internal_step ops cached T ss ss'"
  shows "work_left ss' < work_left ss"
  using step
proof (cases rule: sender_step_cases)
  case dispatch
  obtain a d t rest where ch: "ss_send_channel ss = (a, d, t) # rest"
    using dispatch by (auto simp: dispatch_next_def split: list.splits)
  obtain i c' h' where g: "cc_get_or_insert ops a (ss_connections ss) (ss_heap ss) = (i, c', h')"
    by (metis prod_cases3)
  have "coherent (ss_connections ss) (ss_heap ss)" using inv by (simp add: sender_inv_def)
  from get_or_insert_grows [OF this g] dispatch ch g show ?thesis
    by (auto simp: dispatch_next_def work_left_def)
next
  case (run k)
  then have "length (ss_tasks ss') < length (ss_tasks ss)" "ss_send_channel ss' = ss_send_channel ss"
    "ss_evict_channel ss' = ss_evict_channel ss" "live_conns (ss_heap ss') = live_conns (ss_heap ss)"
    by (auto simp: run_task_def live_conns_def split: if_splits option.splits prod.splits)
  then show ?thesis by (simp add: work_left_def)
next
  case evict
  then show ?thesis by (auto simp: evict_next_def work_left_def split: list.splits)
next
  case (dropped i)
  then have i: "i \<in> live_conns (ss_heap ss)" and "live_conns (ss_heap ss') = live_conns (ss_heap ss) - {i}"
    and same: "ss_tasks ss' = ss_tasks ss" "ss_send_channel ss' = ss_send_channel ss"
      "ss_evict_channel ss' = ss_evict_channel ss"
    by (auto simp: drop_unreferenced_def live_conns_def split: option.splits if_splits)
  moreover have "finite (live_conns (ss_heap ss))"
    using inv by (simp add: sender_inv_def coherent_def finite_live_conns)
  ultimately have "card (live_conns (ss_heap ss')) < card (live_conns (ss_heap ss))"
    by (simp only: card_Diff1_less)
  with same show ?thesis by (simp add: work_left_def)
qed simp_all

lemma internal_steps_bounded:
  assumes T: "tcp_lawful V T" and cached: "\<And>c i. holds c i \<Longrightarrow> cached c i"
  shows "(internal_step ops cached T ^^ n) ss ss' \<Longrightarrow> sender_inv V ss \<Longrightarrow>
    sender_inv V ss' \<and> n + work_left ss' \<le> work_left ss"
proof (induction n arbitrary: ss')
  case 0
  then show ?case by simp
next
  case (Suc n)
  then obtain s1 where s1: "(internal_step ops cached T ^^ n) ss s1" "internal_step ops cached T s1 ss'"
    by auto
  have IH: "sender_inv V s1" "n + work_left s1 \<le> work_left ss" using Suc.IH [OF s1(1) Suc.prems(2)] by auto
  have "sender_inv V ss'" using sender_step_inv [of V T cached, OF T cached s1(2) IH(1)] .
  with internal_step_works [OF IH(1) s1(2)] IH(2) show ?case by simp
qed

lemma sender_comes_to_rest:
  assumes T: "tcp_lawful V T" and cached: "\<And>c i. holds c i \<Longrightarrow> cached c i"
  shows "sender_inv V ss \<Longrightarrow> \<exists>n ss'. (internal_step ops cached T ^^ n) ss ss' \<and> at_rest ops cached T ss'"
  unfolding at_rest_def
  by (rule comes_to_rest [of "sender_inv V" _ work_left])
    (use sender_step_inv [of V T cached, OF T cached] internal_step_works in blast)+

text \<open>What a sender at rest looks like.\<close>

lemma at_rest_done:
  assumes inv: "sender_inv V ss" and rest: "at_rest ops cached T ss"
  shows "ss_send_channel ss = []" "fst ` set (ss_tasks ss) \<subseteq> ss_stalled ss" "ss_evict_channel ss = []"
    and "\<forall>i \<in> live_conns (ss_heap ss). cached (ss_connections ss) i \<or> i \<in> fst ` set (ss_tasks ss)"
proof -
  have stuck: "\<not> internal_step ops cached T ss ss'" for ss' using rest by (simp add: at_rest_def)
  show "ss_send_channel ss = []"
  proof (rule ccontr)
    assume "ss_send_channel ss \<noteq> []"
    then have "\<exists>ss'. dispatch_next ops ss = Some ss'"
      by (cases "ss_send_channel ss") (auto simp: dispatch_next_def split: prod.splits)
    with stuck sender_step.dispatch show False by blast
  qed
  show "fst ` set (ss_tasks ss) \<subseteq> ss_stalled ss"
  proof (rule ccontr)
    assume "\<not> fst ` set (ss_tasks ss) \<subseteq> ss_stalled ss"
    then obtain k where "k < length (ss_tasks ss)" "fst (ss_tasks ss ! k) \<notin> ss_stalled ss"
      by (auto simp: in_set_conv_nth) (metis fst_conv)
    from run_task_possible [OF inv this, of T] stuck sender_step.run show False by blast
  qed
  show "ss_evict_channel ss = []"
  proof (rule ccontr)
    assume "ss_evict_channel ss \<noteq> []"
    then have "\<exists>ss'. evict_next ops ss = Some ss'"
      by (cases "ss_evict_channel ss") (auto simp: evict_next_def)
    with stuck sender_step.evict show False by blast
  qed
  show "\<forall>i \<in> live_conns (ss_heap ss). cached (ss_connections ss) i \<or> i \<in> fst ` set (ss_tasks ss)"
  proof (intro ballI, rule ccontr)
    fix i assume i: "i \<in> live_conns (ss_heap ss)"
      "\<not> (cached (ss_connections ss) i \<or> i \<in> fst ` set (ss_tasks ss))"
    then have "\<exists>ss'. drop_unreferenced cached i ss = Some ss'"
      by (auto simp: drop_unreferenced_def live_conns_def)
    with stuck sender_step.dropped show False by blast
  qed
qed

end

section \<open>Properties\<close>

lemma internal_step_stalled:
  assumes "internal_step C cached T ss ss'"
  shows "ss_stalled ss' = ss_stalled ss"
  using assms
proof (cases rule: sender_step_cases)
  case dispatch
  then show ?thesis by (auto simp: dispatch_next_def split: list.splits prod.splits)
next
  case (run k)
  then show ?thesis by (auto simp: run_task_def split: prod.splits option.splits if_splits)
next
  case evict
  then show ?thesis by (auto simp: evict_next_def split: list.splits)
next
  case (dropped i)
  then show ?thesis by (cases "h_conns (ss_heap ss) i") (auto simp: drop_unreferenced_def split: if_splits)
qed simp_all

lemma internal_steps_stalled:
  "(internal_step C cached T ^^ n) ss ss' \<Longrightarrow> ss_stalled ss' = ss_stalled ss"
  by (induction n arbitrary: ss') (auto dest: internal_step_stalled)

lemma internal_steps_tokens:
  "(internal_step C cached T ^^ n) ss ss' \<Longrightarrow> all_tokens ss' = all_tokens ss"
  by (induction n arbitrary: ss') (auto dest: sender_step_tokens)

text \<open>
  C13. Only a stalled peer keeps a send open: from every state a run reaches, whichever
  connections have stalled on the way, the tasks can move only as often as there is work left -
  so they cannot run forever without new calls - and come to rest; and wherever they do, both
  channels are empty, the tasks left are those of stalled connections, every oneshot handed in
  has been notified or is held by one of these, and is so once, and the only connections kept
  are those that the cache or one of these tasks refers to.  Without a stalled connection every
  oneshot has been notified.
\<close>

theorem only_stalled_sends_stay_open:
  assumes T: "tcp_lawful V T" and C: "connection_cache C view invar"
    and c: "invar c" "view c = Map.empty" "covers view cached"
    and run: "sender_run C cached T (sender_new c w) items ss"
    and steps: "(internal_step C cached T ^^ n) ss ss'"
  shows "n \<le> work_left ss \<and>
    (\<exists>m ss''. (internal_step C cached T ^^ m) ss' ss'' \<and> at_rest C cached T ss'') \<and>
    (at_rest C cached T ss' \<longrightarrow>
       ss_send_channel ss' = [] \<and> ss_evict_channel ss' = [] \<and>
       fst ` set (ss_tasks ss') \<subseteq> ss_stalled ss \<and>
       mset (map fst (ss_notified ss')) + mset (map (\<lambda>(i, d, t). t) (ss_tasks ss')) =
         mset (map (\<lambda>(a, d, t). t) items) \<and>
       (\<forall>i. h_conns (ss_heap ss') i \<noteq> None \<longrightarrow>
          cached (ss_connections ss') i \<or> i \<in> fst ` set (ss_tasks ss')) \<and>
       (ss_stalled ss = {} \<longrightarrow> mset (map fst (ss_notified ss')) = mset (map (\<lambda>(a, d, t). t) items)))"
proof -
  have cached: "\<And>c i. connection_cache.holds view c i \<Longrightarrow> cached c i"
    using c(3) by (auto simp: covers_def connection_cache.holds_def [OF C])
  have inv: "connection_cache.sender_inv view invar V ss"
    using connection_cache.sender_run_inv [OF C, of V T cached, OF T cached run
        connection_cache.sender_inv_new [OF C c(1,2)]] .
  have b: "connection_cache.sender_inv view invar V ss'" "n + work_left ss' \<le> work_left ss"
    using connection_cache.internal_steps_bounded [OF C, of V T cached, OF T cached steps inv] by simp_all
  have "all_tokens ss' = mset (map (\<lambda>(a, d, t). t) items)"
    using internal_steps_tokens [OF steps] sender_run_tokens [OF run] by (simp add: token_defs sender_new_def)
  then have tok: "ss_send_channel ss' = [] \<Longrightarrow>
      mset (map fst (ss_notified ss')) + mset (map (\<lambda>(i, d, t). t) (ss_tasks ss')) = mset (map (\<lambda>(a, d, t). t) items)"
    by (simp add: token_defs add.commute)
  have st: "ss_stalled ss' = ss_stalled ss" by (rule internal_steps_stalled [OF steps])
  have "ss_send_channel ss' = [] \<and> ss_evict_channel ss' = [] \<and> fst ` set (ss_tasks ss') \<subseteq> ss_stalled ss \<and>
      (\<forall>i. h_conns (ss_heap ss') i \<noteq> None \<longrightarrow> cached (ss_connections ss') i \<or> i \<in> fst ` set (ss_tasks ss'))"
    if rest: "at_rest C cached T ss'"
    using connection_cache.at_rest_done [OF C b(1) rest] st by (auto simp: live_conns_def)
  moreover have "\<exists>m ss''. (internal_step C cached T ^^ m) ss' ss'' \<and> at_rest C cached T ss''"
    by (rule connection_cache.sender_comes_to_rest [OF C, of V T cached, OF T cached b(1)])
  ultimately show ?thesis using b(2) tok by auto
qed

text \<open>One send handed in to a peer that stalls, one to a peer that answers.\<close>

lemma sample_stalled_run:
  "\<exists>ss. sender_run hashmap_cache hashmap_cached sample_tcp (sender_new Map.empty [])
     [(1, [65], 7), (2, [66], 8)] ss \<and> ss_tasks ss = [(0, [65], 7), (1, [66], 8)] \<and> ss_stalled ss = {0}"
proof -
  let ?C = "hashmap_cache :: (nat, nat, nat \<rightharpoonup> arc) cache_ops"
  let ?run = "sender_run ?C hashmap_cached sample_tcp (sender_new Map.empty [])"
  define s1 where "s1 = sample_start\<lparr>ss_send_channel := [(1, [65], 7), (2, [66], 8)]\<rparr>"
  define s2 where "s2 = s1\<lparr>ss_send_channel := [(2, [66], 8)], ss_connections := [1 \<mapsto> 0],
    ss_heap := \<lparr>h_next = 1, h_conns = [0 \<mapsto> connection_new 1]\<rparr>, ss_tasks := [(0, [65], 7)]\<rparr>"
  define s3 where "s3 = s2\<lparr>ss_stalled := {0}\<rparr>"
  define s4 where "s4 = s3\<lparr>ss_send_channel := [], ss_connections := [1 \<mapsto> 0, 2 \<mapsto> 1],
    ss_heap := \<lparr>h_next = 2, h_conns = [0 \<mapsto> connection_new 1, 1 \<mapsto> connection_new 2]\<rparr>,
    ss_tasks := [(0, [65], 7), (1, [66], 8)]\<rparr>"
  have 1: "?run [(1, [65], 7), (2, [66], 8)] s1"
    using sender_run_submit_all [OF sender_run.nil, of ?C hashmap_cached sample_tcp "sender_new Map.empty []"
        "[(1, [65], 7), (2, [66], 8)]"] by (simp add: s1_def sample_start_def sender_new_def)
  have "dispatch_next ?C s1 = Some s2" "dispatch_next ?C s3 = Some s4" "stall_connection 0 s2 = Some s3"
    by (simp_all add: dispatch_next_def hashmap_cache_def hashmap_get_or_insert_def heap_alloc_def
        heap_empty_def s1_def s2_def s3_def s4_def sample_start_def sender_new_def stall_connection_def)
  from sender_run.snoc [OF sender_run.snoc [OF sender_run.snoc [OF 1 sender_step.dispatch [OF this(1)]]
      sender_step.stall [OF this(3)]] sender_step.dispatch [OF this(2)]]
  show ?thesis by (intro exI [of _ s4]) (simp add: s4_def s3_def)
qed

theorem only_stalled_sends_stay_open_witness:
  "\<exists>n ss ss'. sender_run hashmap_cache hashmap_cached sample_tcp (sender_new Map.empty [])
       [(1, [65], 7), (2, [66], 8)] ss \<and>
     (internal_step (hashmap_cache :: (nat, nat, nat \<rightharpoonup> arc) cache_ops) hashmap_cached sample_tcp ^^ n) ss ss' \<and>
     ss_send_channel ss' = [] \<and> fst ` set (ss_tasks ss') \<subseteq> {0} \<and>
     mset (map fst (ss_notified ss')) + mset (map (\<lambda>(i, d, t). t) (ss_tasks ss')) = {#7, 8#}"
proof -
  let ?step = "internal_step (hashmap_cache :: (nat, nat, nat \<rightharpoonup> arc) cache_ops) hashmap_cached sample_tcp"
  obtain ss where run: "sender_run hashmap_cache hashmap_cached sample_tcp (sender_new Map.empty [])
       [(1, [65], 7), (2, [66], 8)] ss" and st: "ss_stalled ss = {0}"
    using sample_stalled_run by (elim exE conjE)
  note main = only_stalled_sends_stay_open [OF sample_tcp_lawful hm.connection_cache_axioms TrueI refl
      hashmap_covers run]
  have "(?step ^^ 0) ss ss" by simp
  from main [OF this] obtain m ss' where m: "(?step ^^ m) ss ss'"
    and rest: "at_rest (hashmap_cache :: (nat, nat, nat \<rightharpoonup> arc) cache_ops) hashmap_cached sample_tcp ss'" by auto
  from main [OF m] rest st have "ss_send_channel ss' = []" "fst ` set (ss_tasks ss') \<subseteq> {0}"
    "mset (map fst (ss_notified ss')) + mset (map (\<lambda>(i, d, t). t) (ss_tasks ss')) = {#7, 8#}"
    by simp_all
  with run m show ?thesis by (intro exI conjI)
qed

end
