(* ===== verification/Send_Lifecycle.thy ===== *)
theory Send_Lifecycle
  imports Api_Invariants Sender_Termination
begin

text \<open>
  A send from the call to its callback, over whole runs of the object: no send is called back
  twice, and once the calls stop, the tasks of the object come to rest after a bounded number of
  steps, with every waiting send called back exactly once, but for those on stalled connections.
\<close>

section \<open>Callbacks\<close>

text \<open>
  Tokens called back are old and distinct, and no task waits for them any more: a callback is
  the last that happens to a send.
\<close>

definition callbacks_ok :: "('addr, 's, 'c, 'w) shardus_net \<Rightarrow> bool" where
  "callbacks_ok n \<longleftrightarrow> distinct (map fst (n_callbacks n)) \<and>
     (\<forall>t \<in> fst ` set (n_callbacks n). t < n_next_token n) \<and>
     fst ` set (n_callbacks n) \<inter> fst ` set (n_waiters n) = {}"

lemma callbacks_ok_new [simp]: "callbacks_ok (shardus_net_new kp c w)"
  by (simp add: callbacks_ok_def shardus_net_new_def)

text \<open>The oneshots whose tasks will call back.\<close>

definition promised :: "('addr, 's, 'c, 'w) shardus_net \<Rightarrow> token list" where
  "promised n = map fst (filter snd (n_waiters n))"

named_theorems call_frame \<open>what calls leave as it was\<close>

lemma drop_senders_frame [call_frame]:
  "n_callbacks (drop_senders ts n) = n_callbacks n" "n_sender (drop_senders ts n) = n_sender n"
  "n_next_token (drop_senders ts n) = n_next_token n" "n_key_pair (drop_senders ts n) = n_key_pair n"
  "n_stats (drop_senders ts n) = n_stats n"
  by (simp_all add: drop_senders_def)

lemma new_token_frame [call_frame]:
  "n_callbacks (snd (new_token n)) = n_callbacks n" "n_sender (snd (new_token n)) = n_sender n"
  "n_stats (snd (new_token n)) = n_stats n"
  by (simp_all add: new_token_def)

lemma modify_stats_frame [call_frame]:
  "n_callbacks (modify_stats f n) = n_callbacks n" "n_sender (modify_stats f n) = n_sender n"
  "n_next_token (modify_stats f n) = n_next_token n" "n_waiters (modify_stats f n) = n_waiters n"
  "n_stats (modify_stats f n) = f (n_stats n)"
  by (simp_all add: modify_stats_def)

lemma spawn_waiter_frame [call_frame]:
  "n_callbacks (spawn_waiter t f n) = n_callbacks n" "n_sender (spawn_waiter t f n) = n_sender n"
  "n_stats (spawn_waiter t f n) = n_stats n"
  by (simp_all add: spawn_waiter_def)

lemma new_tokens_frame [call_frame]:
  assumes "new_tokens k n = (ts, n')"
  shows "n_callbacks n' = n_callbacks n" "n_sender n' = n_sender n" "n_stats n' = n_stats n"
  using new_tokens_spec [OF assms] by simp_all

lemma incremented [intro!]:
  "\<exists>k. st = (increment_outstanding_sends ^^ k) st"
  "\<exists>k. increment_outstanding_sends st = (increment_outstanding_sends ^^ k) st"
  "\<exists>k. (increment_outstanding_sends ^^ j) st = (increment_outstanding_sends ^^ k) st"
  by (rule exI [of _ 0], simp) (rule exI [of _ 1], simp, blast)

text \<open>
  A call only appends to the sender's channels - the cache, heap, tasks and world stay - and only
  increments the counter of sends.
\<close>

definition only_submits :: "('addr, 's, 'c, 'w) sender \<Rightarrow> ('addr, 's, 'c, 'w) sender \<Rightarrow> bool" where
  "only_submits ss ss' \<longleftrightarrow>
     (\<exists>items evs. ss' = ss\<lparr>ss_send_channel := ss_send_channel ss @ items,
                          ss_evict_channel := ss_evict_channel ss @ evs\<rparr>)"

lemma only_submits_refl [simp]: "only_submits ss ss"
  unfolding only_submits_def by (intro exI [of _ "[]"]) simp

lemma only_submits_items [simp]:
  "only_submits ss (ss\<lparr>ss_send_channel := ss_send_channel ss @ items\<rparr>)"
  unfolding only_submits_def by (intro exI [of _ items] exI [of _ "[]"]) simp

lemma only_submits_evict [simp]: "only_submits ss (sender_evict_socket a ss)"
  unfolding only_submits_def sender_evict_socket_def by (intro exI [of _ "[]"] exI [of _ "[a]"]) simp

lemma only_submits_send [simp]: "only_submits ss (sender_send a d t ss)"
  by (simp add: sender_send_def)

lemma only_submits_header:
  "sender_send_with_header E st kp a hv hdr d t ss = Inr ss' \<Longrightarrow> only_submits ss ss'"
  by (auto simp: sender_send_with_header_def rust_simps)

lemma only_submits_multi:
  "sender_multi_send_with_header E st kp as hv hdr d ts ss = Inr ss' \<Longrightarrow> only_submits ss ss'"
  by (auto simp: sender_multi_send_with_header_def rust_simps)


definition call_keeps :: "('addr, 's, 'c, 'w) shardus_net \<Rightarrow> ('addr, 's, 'c, 'w) shardus_net \<Rightarrow> bool" where
  "call_keeps n n' \<longleftrightarrow> n_callbacks n' = n_callbacks n \<and> only_submits (n_sender n) (n_sender n') \<and>
     (\<exists>k. n_stats n' = (increment_outstanding_sends ^^ k) (n_stats n))"

lemma api_send_keeps: "api_send P port host data n = (r, n') \<Longrightarrow> call_keeps n n'"
  by (auto simp: api_send_def call_keeps_def call_frame Let_def new_token_def
      split: option.splits list.splits prod.splits)

lemma api_send_with_header_keeps:
  "api_send_with_header P port host hv hs ds n = (r, n') \<Longrightarrow> call_keeps n n'"
  by (auto simp: api_send_with_header_def call_keeps_def call_frame Let_def new_token_def
      dest!: only_submits_header split: option.splits list.splits prod.splits sum.splits)

lemma api_multi_keeps:
  assumes "api_multi_send_with_header P ports hosts hv hs ds await n = (r, n')"
  shows "call_keeps n n'"
proof -
  obtain ts n1 where nt: "new_tokens (length hosts) (modify_stats (increment_outstanding_sends ^^ length ports) n) = (ts, n1)"
    by fastforce
  from new_tokens_frame [OF nt] assms show ?thesis
    by (auto simp: api_multi_send_with_header_def call_keeps_def call_frame Let_def nt fold_spawn
        dest!: only_submits_multi
        split: option.splits list.splits prod.splits sum.splits js_outcome.splits if_splits)
qed

lemma api_evict_keeps: "api_evict_socket P port host n = (r, n') \<Longrightarrow> call_keeps n n'"
  by (auto simp: api_evict_socket_def call_keeps_def split: option.splits list.splits)

lemma callbacks_ok_call:
  assumes "callbacks_ok n" "call_effect k kept await n n'" "call_keeps n n'"
  shows "callbacks_ok n'"
proof -
  have w: "n_waiters n' = n_waiters n @ map (\<lambda>t. (t, await)) kept" and nt: "n_next_token n \<le> n_next_token n'"
    and k: "\<forall>t \<in> set kept. n_next_token n \<le> t" and cb: "n_callbacks n' = n_callbacks n"
    using assms(2,3) unfolding call_effect_def call_keeps_def by blast+
  have old: "\<forall>t \<in> fst ` set (n_callbacks n). t < n_next_token n" using assms(1) by (simp add: callbacks_ok_def)
  with k have "fst ` set (n_callbacks n) \<inter> set kept = {}" by (meson disjoint_iff not_le)
  moreover have "fst ` set (n_waiters n') = fst ` set (n_waiters n) \<union> set kept"
    unfolding w by (simp add: image_Un image_image)
  moreover have "\<forall>t \<in> fst ` set (n_callbacks n). t < n_next_token n'" using old nt by (meson less_le_trans)
  moreover have "distinct (map fst (n_callbacks n))"
    "fst ` set (n_callbacks n) \<inter> fst ` set (n_waiters n) = {}"
    using assms(1) by (simp_all only: callbacks_ok_def)
  ultimately show ?thesis unfolding callbacks_ok_def cb by (simp add: Int_Un_distrib)
qed

text \<open>Taking the result of a notified oneshot, once more with everything it leaves as it was.\<close>

lemma complete_send_shape:
  assumes inv: "api_inv n" and step: "complete_send P k n = Some n'"
  shows "\<exists>t f result. k < length (ss_notified (n_sender n)) \<and> ss_notified (n_sender n) ! k = (t, result) \<and>
    (t, f) \<in> set (n_waiters n) \<and> n_waiters n' = filter (\<lambda>(u, _). u \<noteq> t) (n_waiters n) \<and>
    n_sender n' = (n_sender n)\<lparr>ss_notified :=
      take k (ss_notified (n_sender n)) @ drop (Suc k) (ss_notified (n_sender n))\<rparr> \<and>
    n_next_token n' = n_next_token n \<and>
    n_callbacks n' = n_callbacks n @ (if f then
      [(t, case result of Inl err \<Rightarrow> Some (p_error_debug P err) | Inr _ \<Rightarrow> None)] else [])"
proof -
  have k: "k < length (ss_notified (n_sender n))"
    using step by (auto simp: complete_send_def split: if_splits)
  obtain t result where nth: "ss_notified (n_sender n) ! k = (t, result)" by fastforce
  obtain f where f: "map_of (n_waiters n) t = Some f"
    using step k nth by (auto simp: complete_send_def split: option.splits)
  then have mem: "(t, f) \<in> set (n_waiters n)" by (rule map_of_SomeD)
  let ?n = "n\<lparr>n_waiters := filter (\<lambda>(u, _). u \<noteq> t) (n_waiters n),
    n_sender := (n_sender n)\<lparr>ss_notified :=
      take k (ss_notified (n_sender n)) @ drop (Suc k) (ss_notified (n_sender n))\<rparr>\<rparr>"
  let ?cb = "[(t, case result of Inl err \<Rightarrow> Some (p_error_debug P err) | Inr _ \<Rightarrow> None)]"
  have "\<exists>st. n' = ?n\<lparr>n_stats := st, n_callbacks := n_callbacks n @ (if f then ?cb else [])\<rparr>"
  proof (cases f)
    case False
    then have "n' = ?n" using step k nth f by (simp add: complete_send_def Let_def)
    with False show ?thesis by (intro exI [of _ "n_stats n"]) simp
  next
    case True
    have "0 < live n" using mem True by (force simp: live_def filter_empty_conv)
    then have pos: "0 < unat (outstanding_sends (n_stats n))"
      using inv by (simp add: api_inv_def sends_count_def)
    have "stats_inv (n_stats n)" using inv by (simp add: api_inv_def)
    from decrement_sends_ok [OF this pos] obtain st where
      "decrement_outstanding_sends (p_overflow_checks P) (n_stats n) = (Inr (), st)" by blast
    then have "n' = ?n\<lparr>n_stats := st, n_callbacks := n_callbacks n @ ?cb\<rparr>"
      using step k nth f True by (simp add: complete_send_def Let_def)
    with True show ?thesis by auto
  qed
  then obtain st where n': "n' = ?n\<lparr>n_stats := st, n_callbacks := n_callbacks n @ (if f then ?cb else [])\<rparr>"
    by blast
  have "n_waiters n' = filter (\<lambda>(u, _). u \<noteq> t) (n_waiters n)"
    "n_sender n' = (n_sender n)\<lparr>ss_notified :=
      take k (ss_notified (n_sender n)) @ drop (Suc k) (ss_notified (n_sender n))\<rparr>"
    "n_next_token n' = n_next_token n" "n_callbacks n' = n_callbacks n @ (if f then ?cb else [])"
    unfolding n' by simp_all
  with k nth mem show ?thesis by blast
qed

lemma callbacks_ok_complete:
  assumes inv: "api_inv n" and ok: "callbacks_ok n" and step: "complete_send P k n = Some n'"
  shows "callbacks_ok n'"
proof -
  from complete_send_shape [OF inv step] obtain t f result where
    "ss_notified (n_sender n) ! k = (t, result)" and mem: "(t, f) \<in> set (n_waiters n)" and w: "n_waiters n' = filter (\<lambda>(u, _). u \<noteq> t) (n_waiters n)"
    and nt: "n_next_token n' = n_next_token n"
    and cb: "n_callbacks n' = n_callbacks n @ (if f then
      [(t, case result of Inl err \<Rightarrow> Some (p_error_debug P err) | Inr _ \<Rightarrow> None)] else [])" by blast
  have t: "t \<in> fst ` set (n_waiters n)" using mem by force
  with ok have "t \<notin> fst ` set (n_callbacks n)" by (auto simp: callbacks_ok_def)
  moreover have "t < n_next_token n" using t inv by (auto simp: api_inv_def tokens_ok_def)
  moreover have "t \<notin> fst ` set (n_waiters n')" "fst ` set (n_waiters n') \<subseteq> fst ` set (n_waiters n)"
    by (auto simp: w)
  moreover have "fst ` set (n_callbacks n) \<inter> fst ` set (n_waiters n') = {}"
    using ok calculation(4) unfolding callbacks_ok_def by blast
  ultimately show ?thesis using ok unfolding callbacks_ok_def cb nt by auto
qed

section \<open>Runs\<close>

lemma api_step_callbacks:
  assumes inv: "api_inv n" and ok: "callbacks_ok n" and step: "api_step P C cached T n l n'"
  shows "callbacks_ok n'"
proof -
  have tok: "tokens_ok n" using inv by (simp add: api_inv_def)
  from step show ?thesis
  proof (cases rule: api_step_cases)
    case (send port host data r)
    show ?thesis by (rule callbacks_ok_call [OF ok api_send_effect [OF tok send(2)] api_send_keeps [OF send(2)]])
  next
    case (header port host hv hs ds r)
    show ?thesis by (rule callbacks_ok_call [OF ok api_send_with_header_effect [OF tok header(2)]
        api_send_with_header_keeps [OF header(2)]])
  next
    case (multi ports hosts hv hs ds await r)
    show ?thesis by (rule callbacks_ok_call [OF ok api_multi_effect [OF tok multi(2)] api_multi_keeps [OF multi(2)]])
  next
    case (evict port host r)
    then have "n_waiters n' = n_waiters n" "n_next_token n' = n_next_token n" "n_callbacks n' = n_callbacks n"
      by (auto simp: api_evict_socket_def split: option.splits list.splits)
    with ok show ?thesis by (simp add: callbacks_ok_def)
  next
    case (task e ss)
    with ok show ?thesis by (simp add: callbacks_ok_def)
  next
    case (complete k)
    show ?thesis by (rule callbacks_ok_complete [OF inv ok complete(2)])
  qed
qed

lemma api_run_callbacks:
  assumes "api_run P C cached T n incs lost n'" "api_inv n" "callbacks_ok n" "sends_count n + incs < 2 ^ 64"
  shows "callbacks_ok n'"
  using assms
proof (induction rule: api_run.induct)
  case (step incs lost n1 i l n2)
  then have "api_inv n1" using api_run_accounting [OF step.hyps(1)] by simp
  with step show ?case using api_step_callbacks by fastforce
qed simp

text \<open>The sender inside the object keeps its invariant through calls and completions.\<close>

context connection_cache
begin

lemma only_submits_inv: "sender_inv V ss \<Longrightarrow> only_submits ss ss' \<Longrightarrow> sender_inv V ss'"
  by (auto simp: only_submits_def sender_inv_def tasks_ok_def sockets_ok_def)

lemma api_step_sender_inv:
  assumes T: "tcp_lawful V T" and cached: "\<And>c i. holds c i \<Longrightarrow> cached c i"
    and inv: "api_inv n" "sender_inv V (n_sender n)" and step: "api_step P ops cached T n l n'"
  shows "sender_inv V (n_sender n')"
  using step
proof (cases rule: api_step_cases)
  case (task e ss)
  with sender_step_inv [of V T cached, OF T cached task(3) inv(2)] show ?thesis by simp
next
  case (complete k)
  from complete_send_shape [OF inv(1) complete(2)] obtain rest where
    "n_sender n' = (n_sender n)\<lparr>ss_notified := rest\<rparr>" by blast
  with inv(2) show ?thesis by (simp add: sender_inv_def tasks_ok_def sockets_ok_def)
next
  case (send port host data r)
  from only_submits_inv [OF inv(2)] api_send_keeps [OF send(2)] show ?thesis by (simp add: call_keeps_def)
next
  case (header port host hv hs ds r)
  from only_submits_inv [OF inv(2)] api_send_with_header_keeps [OF header(2)] show ?thesis
    by (simp add: call_keeps_def)
next
  case (multi ports hosts hv hs ds await r)
  from only_submits_inv [OF inv(2)] api_multi_keeps [OF multi(2)] show ?thesis by (simp add: call_keeps_def)
next
  case (evict port host r)
  from only_submits_inv [OF inv(2)] api_evict_keeps [OF evict(2)] show ?thesis by (simp add: call_keeps_def)
qed

lemma api_run_sender_inv:
  assumes T: "tcp_lawful V T" and cached: "\<And>c i. holds c i \<Longrightarrow> cached c i"
  shows "api_run P ops cached T n incs lost n' \<Longrightarrow> api_inv n \<Longrightarrow> sends_count n + incs < 2 ^ 64 \<Longrightarrow>
    sender_inv V (n_sender n) \<Longrightarrow> sender_inv V (n_sender n')"
proof (induction rule: api_run.induct)
  case (step incs lost n1 i l n2)
  then have "api_inv n1" using api_run_accounting [OF step.hyps(1)] by simp
  with step api_step_sender_inv [of V T cached, OF T cached _ _ step.hyps(2)] show ?case by simp
qed simp

end

section \<open>Coming to rest\<close>

text \<open>The moves of the object that are not calls: a task of the sender, or a completion.\<close>

inductive api_internal ::
    "'addr net_params \<Rightarrow> ('addr, 's, 'c) cache_ops \<Rightarrow> ('c \<Rightarrow> arc \<Rightarrow> bool) \<Rightarrow> ('addr, 's, 'w) tcp \<Rightarrow>
     ('addr, 's, 'c, 'w) shardus_net \<Rightarrow> ('addr, 's, 'c, 'w) shardus_net \<Rightarrow> bool"
  for P C cached T where
  task: "internal_step C cached T (n_sender n) ss \<Longrightarrow> api_internal P C cached T n (n\<lparr>n_sender := ss\<rparr>)"
| complete: "complete_send P k n = Some n' \<Longrightarrow> api_internal P C cached T n n'"

inductive_cases api_internal_cases [consumes 1, case_names task complete]:
  "api_internal P C cached T n n'"

definition api_at_rest ::
    "'addr net_params \<Rightarrow> ('addr, 's, 'c) cache_ops \<Rightarrow> ('c \<Rightarrow> arc \<Rightarrow> bool) \<Rightarrow> ('addr, 's, 'w) tcp \<Rightarrow>
     ('addr, 's, 'c, 'w) shardus_net \<Rightarrow> bool" where
  "api_at_rest P C cached T n \<longleftrightarrow> (\<forall>n'. \<not> api_internal P C cached T n n')"

definition api_work :: "('addr, 's, 'c, 'w) shardus_net \<Rightarrow> nat" where
  "api_work n = work_left (n_sender n) + length (n_waiters n)"

definition answers :: "('addr, 's, 'c, 'w) shardus_net \<Rightarrow> token multiset" where
  "answers n = mset (map fst (n_callbacks n)) + mset (promised n)"

lemma mset_filter_out:
  assumes "distinct (map fst ws)" "(t, f) \<in> set ws"
  shows "mset (map fst (filter snd ws)) = (if f then {#t#} else {#}) +
    mset (map fst (filter snd (filter (\<lambda>(u, _). u \<noteq> t) ws)))"
    and "length (filter (\<lambda>(u, _). u \<noteq> t) ws) < length ws"
proof -
  obtain xs ys where ws: "ws = xs @ (t, f) # ys" using assms(2) by (meson split_list)
  with assms(1) have t: "t \<notin> fst ` set xs" "t \<notin> fst ` set ys" by auto
  then have f: "filter (\<lambda>(u, _). u \<noteq> t) xs = xs" "filter (\<lambda>(u, _). u \<noteq> t) ys = ys"
    by (force simp: filter_id_conv)+
  show "mset (map fst (filter snd ws)) = (if f then {#t#} else {#}) +
      mset (map fst (filter snd (filter (\<lambda>(u, _). u \<noteq> t) ws)))"
    by (simp add: ws f)
  show "length (filter (\<lambda>(u, _). u \<noteq> t) ws) < length ws" by (simp add: ws f)
qed

lemma complete_send_answers:
  assumes inv: "api_inv n" and step: "complete_send P k n = Some n'"
  shows "answers n' = answers n \<and> api_work n' < api_work n"
proof -
  from complete_send_shape [OF inv step] obtain t f result where
    "ss_notified (n_sender n) ! k = (t, result)" and mem: "(t, f) \<in> set (n_waiters n)"
    and w: "n_waiters n' = filter (\<lambda>(u, _). u \<noteq> t) (n_waiters n)"
    and s: "n_sender n' = (n_sender n)\<lparr>ss_notified :=
      take k (ss_notified (n_sender n)) @ drop (Suc k) (ss_notified (n_sender n))\<rparr>"
    and cb: "n_callbacks n' = n_callbacks n @ (if f then
      [(t, case result of Inl err \<Rightarrow> Some (p_error_debug P err) | Inr _ \<Rightarrow> None)] else [])" by blast
  have d: "distinct (map fst (n_waiters n))" using inv by (simp add: api_inv_def tokens_ok_def)
  show ?thesis
    using mset_filter_out [OF d mem] by (simp add: answers_def promised_def w cb api_work_def s work_left_def)
qed

context connection_cache
begin

definition lifecycle :: "('s, 'w) observe \<Rightarrow> ('addr, 's, 'c, 'w) shardus_net \<Rightarrow> bool" where
  "lifecycle V n \<longleftrightarrow> api_inv n \<and> callbacks_ok n \<and> sender_inv V (n_sender n)"

lemma api_internal_step:
  assumes T: "tcp_lawful V T" and cached: "\<And>c i. holds c i \<Longrightarrow> cached c i"
    and inv: "lifecycle V n" and step: "api_internal P ops cached T n n'"
  shows "lifecycle V n' \<and> answers n' = answers n \<and> api_work n' < api_work n \<and>
    sends_count n' - live n' = sends_count n - live n"
  using step
proof (cases rule: api_internal_cases)
  case (task ss)
  have "api_step P ops cached T n (0, 0) n'" using task api_step.sender_task by metis
  note step = this
  have a: "api_inv n" "callbacks_ok n" "sender_inv V (n_sender n)" using inv by (auto simp: lifecycle_def)
  have "sends_count n + 0 < 2 ^ 64"
    using unsigned_less [of "outstanding_sends (n_stats n)", where ?'a = nat] by (simp add: sends_count_def)
  from api_step_effect [OF a(1) this step] a api_step_callbacks [OF a(1,2) step]
    api_step_sender_inv [of V T cached, OF T cached a(1,3) step]
  have "lifecycle V n'" "sends_count n' - live n' = sends_count n - live n"
    by (auto simp: lifecycle_def)
  moreover have "work_left ss < work_left (n_sender n)" using internal_step_works [OF a(3) task(2)] .
  ultimately show ?thesis using task(1) by (simp add: answers_def promised_def api_work_def)
next
  case (complete k)
  have a: "api_inv n" "callbacks_ok n" "sender_inv V (n_sender n)" using inv by (auto simp: lifecycle_def)
  have "api_step P ops cached T n (0, 0) n'" using complete api_step.complete by blast
  from complete_send_effect [OF a(1) complete] callbacks_ok_complete [OF a(1,2) complete]
    complete_send_answers [OF a(1) complete] api_step_sender_inv [of V T cached, OF T cached a(1,3) this]
  show ?thesis by (auto simp: lifecycle_def)
qed

lemma api_internal_steps:
  assumes T: "tcp_lawful V T" and cached: "\<And>c i. holds c i \<Longrightarrow> cached c i"
  shows "(api_internal P ops cached T ^^ k) n n' \<Longrightarrow> lifecycle V n \<Longrightarrow>
    lifecycle V n' \<and> answers n' = answers n \<and> k + api_work n' \<le> api_work n \<and>
    sends_count n' - live n' = sends_count n - live n"
proof (induction k arbitrary: n')
  case 0
  then show ?case by simp
next
  case (Suc k)
  then obtain n1 where n1: "(api_internal P ops cached T ^^ k) n n1" "api_internal P ops cached T n1 n'" by auto
  with Suc.IH Suc.prems(2) have "lifecycle V n1" "answers n1 = answers n" "k + api_work n1 \<le> api_work n"
    "sends_count n1 - live n1 = sends_count n - live n" by auto
  with api_internal_step [of V T cached, OF T cached _ n1(2)] show ?case by fastforce
qed

lemma api_comes_to_rest:
  assumes T: "tcp_lawful V T" and cached: "\<And>c i. holds c i \<Longrightarrow> cached c i"
  shows "lifecycle V n \<Longrightarrow> \<exists>k n'. (api_internal P ops cached T ^^ k) n n' \<and> api_at_rest P ops cached T n'"
  unfolding api_at_rest_def
  by (rule comes_to_rest [of "lifecycle V" _ api_work])
    (use api_internal_step [of V T cached, OF T cached] in blast)+

lemma api_at_rest_done:
  assumes inv: "lifecycle V n" and rest: "api_at_rest P ops cached T n"
  shows "mset (map fst (n_waiters n)) = mset (map (\<lambda>(i, d, t). t) (ss_tasks (n_sender n)))"
    and "fst ` set (ss_tasks (n_sender n)) \<subseteq> ss_stalled (n_sender n)"
proof -
  have inv: "api_inv n" "sender_inv V (n_sender n)" using inv by (auto simp: lifecycle_def)
  have still: "at_rest ops cached T (n_sender n)"
    using rest api_internal.task unfolding at_rest_def api_at_rest_def by blast
  show "fst ` set (ss_tasks (n_sender n)) \<subseteq> ss_stalled (n_sender n)" by (rule at_rest_done(2) [OF inv(2) still])
  from at_rest_done(1) [OF inv(2) still]
  have n: "mset (map fst (n_waiters n)) =
      mset (map (\<lambda>(i, d, t). t) (ss_tasks (n_sender n))) + mset (map fst (ss_notified (n_sender n)))"
    using inv(1) by (simp add: api_inv_def tokens_ok_def token_defs)
  have "ss_notified (n_sender n) = []"
  proof (rule ccontr)
    assume "ss_notified (n_sender n) \<noteq> []"
    then obtain t r ns where ns: "ss_notified (n_sender n) = (t, r) # ns" by (metis neq_Nil_conv prod.exhaust)
    then have "t \<in># mset (map fst (n_waiters n))" unfolding n by simp
    then have "t \<in> fst ` set (n_waiters n)" by simp
    then obtain f where "map_of (n_waiters n) t = Some f" by (metis map_of_eq_None_iff option.exhaust)
    with ns have "\<exists>n'. complete_send P 0 n = Some n'"
      by (auto simp: complete_send_def Let_def split: sum.splits prod.splits)
    with rest api_internal.complete show False unfolding api_at_rest_def by blast
  qed
  with n show "mset (map fst (n_waiters n)) = mset (map (\<lambda>(i, d, t). t) (ss_tasks (n_sender n)))" by simp
qed

lemma api_internal_stalled:
  assumes "lifecycle V n" "api_internal P ops cached T n n'"
  shows "ss_stalled (n_sender n') = ss_stalled (n_sender n)"
  using assms(2)
proof (cases rule: api_internal_cases)
  case (task ss)
  then show ?thesis using internal_step_stalled by simp
next
  case (complete k)
  have "api_inv n" using assms(1) by (simp add: lifecycle_def)
  from complete_send_shape [OF this complete] obtain ns where
    "n_sender n' = (n_sender n)\<lparr>ss_notified := ns\<rparr>" by blast
  then show ?thesis by simp
qed

lemma api_internal_steps_stalled:
  assumes T: "tcp_lawful V T" and cached: "\<And>c i. holds c i \<Longrightarrow> cached c i"
  shows "(api_internal P ops cached T ^^ k) n n' \<Longrightarrow> lifecycle V n \<Longrightarrow>
    ss_stalled (n_sender n') = ss_stalled (n_sender n)"
proof (induction k arbitrary: n')
  case (Suc k)
  then obtain n1 where n1: "(api_internal P ops cached T ^^ k) n n1" "api_internal P ops cached T n1 n'" by auto
  have "lifecycle V n1" using api_internal_steps [of V T cached, OF T cached n1(1) Suc.prems(2)] by simp
  from api_internal_stalled [OF this n1(2)] Suc.IH [OF n1(1) Suc.prems(2)] show ?case by simp
qed simp

end

section \<open>Properties\<close>

text \<open>
  C5. Every send is called back, and once, unless its peer stalls: in every run of a new object,
  whichever connections have stalled on the way, the tasks can move only a bounded number of
  times without new calls and come to rest; at no point has a oneshot been called back twice;
  and where the tasks come to rest, those that wait are the sends held by tasks of stalled
  connections, each oneshot whose task was to call back has been called back or is one of these,
  and the counter of outstanding sends shows the increments that were lost and these.  Without
  a stalled connection none waits, and every send that was to be called back has been.
\<close>

theorem called_back_unless_stalled:
  assumes T: "tcp_lawful V T" and C: "connection_cache C view invar"
    and c: "invar c" "view c = Map.empty" "covers view cached"
    and run: "api_run P C cached T (shardus_net_new kp c w) incs lost n" "incs < 2 ^ 64"
    and steps: "(api_internal P C cached T ^^ k) n n'"
  shows "k \<le> work_left (n_sender n) + length (n_waiters n) \<and> distinct (map fst (n_callbacks n')) \<and>
    (\<exists>m n''. (api_internal P C cached T ^^ m) n' n'' \<and> api_at_rest P C cached T n'') \<and>
    (api_at_rest P C cached T n' \<longrightarrow>
       mset (map fst (n_waiters n')) = mset (map (\<lambda>(i, d, t). t) (ss_tasks (n_sender n'))) \<and>
       fst ` set (ss_tasks (n_sender n')) \<subseteq> ss_stalled (n_sender n) \<and>
       mset (map fst (n_callbacks n')) + mset (promised n') =
         mset (map fst (n_callbacks n)) + mset (promised n) \<and>
       unat (outstanding_sends (n_stats n')) = lost + length (promised n') \<and>
       (ss_stalled (n_sender n) = {} \<longrightarrow> n_waiters n' = [] \<and>
          mset (map fst (n_callbacks n')) = mset (map fst (n_callbacks n)) + mset (promised n) \<and>
          unat (outstanding_sends (n_stats n')) = lost))"
proof -
  have cached: "\<And>c i. connection_cache.holds view c i \<Longrightarrow> cached c i"
    using c(3) by (auto simp: covers_def connection_cache.holds_def [OF C])
  let ?n = "shardus_net_new kp c w"
  have b: "sends_count ?n + incs < 2 ^ 64" using run(2) by simp
  have acc: "api_inv n" "sends_count n = live n + lost"
    using api_run_accounting [OF run(1) api_inv_new b] by auto
  have "connection_cache.sender_inv view invar V (n_sender ?n)"
    using connection_cache.sender_inv_new [OF C c(1,2)] by (simp add: shardus_net_new_def)
  from connection_cache.api_run_sender_inv [OF C, of V T cached, OF T cached run(1) api_inv_new b this]
  have life0: "connection_cache.lifecycle view invar V n"
    using acc(1) api_run_callbacks [OF run(1) api_inv_new callbacks_ok_new b]
    by (simp add: connection_cache.lifecycle_def [OF C])
  from connection_cache.api_internal_steps [OF C, of V T cached, OF T cached steps life0]
  have life: "connection_cache.lifecycle view invar V n'" "answers n' = answers n"
    "k \<le> api_work n" "sends_count n' - live n' = lost" using acc(2) by auto
  then have d: "api_inv n'" "callbacks_ok n'" by (simp_all add: connection_cache.lifecycle_def [OF C])
  have st: "ss_stalled (n_sender n') = ss_stalled (n_sender n)"
    by (rule connection_cache.api_internal_steps_stalled [OF C, of V T cached, OF T cached steps life0])
  have live: "live n' = length (promised n')" by (simp add: live_def promised_def)
  have le: "live n' \<le> sends_count n'" using d(1) by (simp add: api_inv_def)
  have "mset (map fst (n_waiters n')) = mset (map (\<lambda>(i, d, t). t) (ss_tasks (n_sender n'))) \<and>
      fst ` set (ss_tasks (n_sender n')) \<subseteq> ss_stalled (n_sender n) \<and>
      (ss_stalled (n_sender n) = {} \<longrightarrow> n_waiters n' = [])" if rest: "api_at_rest P C cached T n'"
    using connection_cache.api_at_rest_done [OF C life(1) rest] st by auto
  moreover have "mset (map fst (n_callbacks n')) + mset (promised n') =
      mset (map fst (n_callbacks n)) + mset (promised n)" using life(2) by (simp add: answers_def)
  moreover have "sends_count n' = lost + length (promised n')" using life(4) le live by simp
  moreover have "n_waiters n' = [] \<Longrightarrow> promised n' = []" by (simp add: promised_def)
  moreover have "\<exists>m n''. (api_internal P C cached T ^^ m) n' n'' \<and> api_at_rest P C cached T n''"
    by (rule connection_cache.api_comes_to_rest [OF C, of V T cached, OF T cached life(1)])
  ultimately show ?thesis
    using life(3) d(2) by (auto simp: api_work_def callbacks_ok_def sends_count_def)
qed

theorem called_back_unless_stalled_witness:
  "\<exists>k n n'. api_run sample_params hashmap_cache hashmap_cached sample_tcp sample_net 1 0 n \<and>
     (api_internal sample_params hashmap_cache hashmap_cached sample_tcp ^^ k) n n' \<and>
     n_waiters n' = [] \<and> mset (map fst (n_callbacks n')) = {#0#} \<and> unat (outstanding_sends (n_stats n')) = 0"
proof -
  let ?step = "api_internal sample_params hashmap_cache hashmap_cached sample_tcp"
  obtain r n where send: "api_send sample_params (Finite 5) ''here'' ''x'' sample_net = (r, n)" by fastforce
  then have r: "returned r" and w: "n_waiters n = [(0, True)]" "n_callbacks n = []" "ss_stalled (n_sender n) = {}"
    by (auto simp: api_send_def sample_params_def sample_net_def shardus_net_new_def new_token_def
        modify_stats_def spawn_waiter_def sender_send_def sender_new_def)
  have run: "api_run sample_params hashmap_cache hashmap_cached sample_tcp sample_net 1 0 n"
    using api_run.step [OF api_run.start api_step.call_send [OF send]] r by simp
  have zero: "(?step ^^ 0) n n" by simp
  note main = called_back_unless_stalled [OF sample_tcp_lawful hm.connection_cache_axioms TrueI refl hashmap_covers
      run [unfolded sample_net_def]]
  from main [OF _ zero] obtain m n' where m: "(?step ^^ m) n n'"
    and rest: "api_at_rest sample_params hashmap_cache hashmap_cached sample_tcp n'" by auto
  have one: "(1 :: nat) < 2 ^ 64" by simp
  from main [OF one m] rest w have "n_waiters n' = []" "mset (map fst (n_callbacks n')) = {#0#}"
    "unat (outstanding_sends (n_stats n')) = 0" by (simp_all add: promised_def)
  with run m show ?thesis by (intro exI [of _ m] exI [of _ n] exI [of _ n'] conjI)
qed

end
