(* ===== verification/Connection_Task.thy ===== *)
theory Connection_Task
  imports Listener
begin

text \<open>
  A connection of the listener as a task that runs round by round while its bytes arrive, where
  \<open>receive\<close> reads a stream that is complete.  The two agree: whatever the cut of the stream into
  arrivals, the task puts into the channel what \<open>receive\<close> delivers.
\<close>

section \<open>One connection, round by round\<close>

text \<open>
  \<open>ct_input\<close>: what has arrived and was not yet read.  \<open>ct_eof\<close>: the stream has ended or failed.
  \<open>ct_arrived\<close> and \<open>ct_sent\<close> record all bytes and all messages so far.
\<close>

record 'addr conn_task =
  ct_addr :: 'addr
  ct_input :: "u8 list"
  ct_eof :: bool
  ct_end :: "receive_end option"
  ct_arrived :: "u8 list"
  ct_sent :: "'addr delivery list"

definition conn_task_new :: "'addr \<Rightarrow> 'addr conn_task" where
  "conn_task_new a =
     \<lparr>ct_addr = a, ct_input = [], ct_eof = False, ct_end = None, ct_arrived = [], ct_sent = []\<rparr>"

text \<open>
  One round of the read loop, when it does not have to wait: nothing while a frame is
  incomplete and more may come.  The channel's receiver lives in the task of \<open>listen\<close>, which
  never ends, so sending to it succeeds.
\<close>

definition conn_round ::
    "externals \<Rightarrow> crypto_static \<Rightarrow> 'addr conn_task \<Rightarrow> ('addr conn_task \<times> 'addr delivery list) option" where
  "conn_round E st c =
     (if ct_end c \<noteq> None then None
      else case stream_read_u32 (ct_input c) of
        None \<Rightarrow> if ct_eof c then Some (c\<lparr>ct_end := Some Conn_ok\<rparr>, []) else None
      | Some (msg_len, stream1) \<Rightarrow>
          (case stream_read_exact (unat msg_len) stream1 of
             None \<Rightarrow> if ct_eof c then Some (c\<lparr>ct_end := Some (Conn_err ReadStreamError)\<rparr>, []) else None
           | Some (buffer, stream2) \<Rightarrow>
               (case handle_frame E st buffer of
                  Received msg metadata \<Rightarrow>
                    (let d = (msg, ct_addr c, metadata)
                     in Some (c\<lparr>ct_input := stream2, ct_sent := ct_sent c @ [d]\<rparr>, [d]))
                | Skipped _ \<Rightarrow> Some (c\<lparr>ct_input := stream2\<rparr>, [])
                | Frame_error e \<Rightarrow> Some (c\<lparr>ct_end := Some (Conn_err e)\<rparr>, [])
                | Frame_panic p \<Rightarrow> Some (c\<lparr>ct_end := Some (Conn_panic p)\<rparr>, []))))"

abbreviation receive_all where
  "receive_all E st a s sent \<equiv> receive E st (\<lambda>_. True) a s sent"

text \<open>
  What a task has done is what the read loop does on the bytes so far: as long as it runs, the
  loop on all that has arrived, whatever follows, is where the task is; once it has ended, the
  result of the loop is the task's - and if the stream has not ended, whatever follows.
\<close>

definition task_ok :: "externals \<Rightarrow> crypto_static \<Rightarrow> 'addr conn_task \<Rightarrow> bool" where
  "task_ok E st c \<longleftrightarrow>
     (case ct_end c of
        None \<Rightarrow> \<forall>more. receive_all E st (ct_addr c) (ct_arrived c @ more) [] =
                  receive_all E st (ct_addr c) (ct_input c @ more) (ct_sent c)
      | Some e \<Rightarrow> \<forall>more. (ct_eof c \<longrightarrow> more = []) \<longrightarrow>
                  receive_all E st (ct_addr c) (ct_arrived c @ more) [] = (e, ct_sent c))"

lemma task_ok_new [simp]: "task_ok E st (conn_task_new a)"
  by (simp add: task_ok_def conn_task_new_def)

text \<open>The rules of a round, one per way it can go.\<close>

inductive round_spec ::
    "externals \<Rightarrow> crypto_static \<Rightarrow> 'addr conn_task \<Rightarrow> 'addr conn_task \<Rightarrow> 'addr delivery list \<Rightarrow> bool"
  for E st c where
  goes_on: "ct_end c = None \<Longrightarrow> ct_input c = wire_frame f @ rest \<Longrightarrow> blob_ok f \<Longrightarrow>
     (case handle_frame E st f of Received msg md \<Rightarrow> ds = [(msg, ct_addr c, md)] | Skipped _ \<Rightarrow> ds = []
      | _ \<Rightarrow> False) \<Longrightarrow>
     round_spec E st c (c\<lparr>ct_input := rest, ct_sent := ct_sent c @ ds\<rparr>) ds"
| ends: "ct_end c = None \<Longrightarrow>
     \<forall>more. (ct_eof c \<longrightarrow> more = []) \<longrightarrow>
       receive_all E st (ct_addr c) (ct_input c @ more) (ct_sent c) = (e, ct_sent c) \<Longrightarrow>
     round_spec E st c (c\<lparr>ct_end := Some e\<rparr>) []"

lemma conn_round_spec:
  assumes "conn_round E st c = Some (c', ds)"
  shows "round_spec E st c c' ds"
proof -
  have run: "ct_end c = None" using assms by (auto simp: conn_round_def split: if_splits)
  note simps = conn_round_def run receive.simps [of E st "\<lambda>_. True" "ct_addr c" "ct_input c" "ct_sent c"]
  show ?thesis
  proof (cases "stream_read_u32 (ct_input c)")
    case None
    then have "c' = c\<lparr>ct_end := Some Conn_ok\<rparr>" "ds = []" "ct_eof c"
      using assms by (auto simp: simps split: if_splits)
    with None run show ?thesis by (auto simp: simps intro: round_spec.ends)
  next
    case (Some p)
    then obtain n s1 where p: "stream_read_u32 (ct_input c) = Some (n, s1)" by (cases p) auto
    show ?thesis
    proof (cases "stream_read_exact (unat n) s1")
      case None
      then have "c' = c\<lparr>ct_end := Some (Conn_err ReadStreamError)\<rparr>" "ds = []" "ct_eof c"
        using assms p by (auto simp: simps split: if_splits)
      with None p run show ?thesis by (auto simp: simps intro: round_spec.ends)
    next
      case (Some q)
      then obtain b s2 where q: "stream_read_exact (unat n) s1 = Some (b, s2)" by (cases q) auto
      note fr = stream_reads_frame [OF p q]
      show ?thesis
      proof (cases "handle_frame E st b")
        case (Received msg md)
        with round_spec.goes_on [OF run fr, where E = E and st = st and ds = "[(msg, ct_addr c, md)]"] assms p q show ?thesis
          by (auto simp: simps Let_def)
      next
        case (Skipped r)
        with round_spec.goes_on [OF run fr, where E = E and st = st and ds = "[]"] assms p q show ?thesis by (auto simp: simps)
      next
        case (Frame_error e)
        have "c' = c\<lparr>ct_end := Some (Conn_err e)\<rparr>" "ds = []"
          using assms p q Frame_error by (simp_all add: conn_round_def run)
        moreover have "round_spec E st c (c\<lparr>ct_end := Some (Conn_err e)\<rparr>) []"
          by (rule round_spec.ends [OF run]) (simp add: fr(1) receive_wire_frame [OF fr(2)] Frame_error)
        ultimately show ?thesis by simp
      next
        case (Frame_panic p')
        have "c' = c\<lparr>ct_end := Some (Conn_panic p')\<rparr>" "ds = []"
          using assms p q Frame_panic by (simp_all add: conn_round_def run)
        moreover have "round_spec E st c (c\<lparr>ct_end := Some (Conn_panic p')\<rparr>) []"
          by (rule round_spec.ends [OF run]) (simp add: fr(1) receive_wire_frame [OF fr(2)] Frame_panic)
        ultimately show ?thesis by simp
      qed
    qed
  qed
qed

lemma conn_round_task_ok:
  assumes ok: "task_ok E st c" and round: "conn_round E st c = Some (c', ds)"
  shows "task_ok E st c'"
  using conn_round_spec [OF round]
proof cases
  case (goes_on f rest)
  have "receive_all E st (ct_addr c) (wire_frame f @ rest @ more) (ct_sent c) =
      receive_all E st (ct_addr c) (rest @ more) (ct_sent c @ ds)" for more
    using goes_on(5) by (auto simp: receive_wire_frame [OF goes_on(4)] split: frame_result.splits)
  with ok goes_on show ?thesis by (simp add: task_ok_def)
next
  case (ends e)
  then have "\<forall>more. receive_all E st (ct_addr c) (ct_arrived c @ more) [] =
      receive_all E st (ct_addr c) (ct_input c @ more) (ct_sent c)"
    using ok by (simp add: task_ok_def)
  with ends show ?thesis by (simp add: task_ok_def)
qed

section \<open>What a round uses up\<close>

text \<open>A round shortens what is still to be read, by at least the length prefix, or ends the task.\<close>

definition task_work :: "'addr conn_task \<Rightarrow> nat" where
  "task_work c = length (ct_input c) + (if ct_end c = None then 1 else 0)"

lemma conn_round_effect:
  assumes "conn_round E st c = Some (c', ds)"
  shows "task_work c' + 3 * length ds < task_work c" "ct_sent c' = ct_sent c @ ds"
    "ct_addr c' = ct_addr c" "ct_eof c' = ct_eof c" "ct_arrived c' = ct_arrived c"
proof -
  from conn_round_spec [OF assms]
  have "task_work c' + 3 * length ds < task_work c \<and> ct_sent c' = ct_sent c @ ds \<and>
    ct_addr c' = ct_addr c \<and> ct_eof c' = ct_eof c \<and> ct_arrived c' = ct_arrived c"
    by cases (auto simp: task_work_def wire_frame_def split: frame_result.splits)
  then show "task_work c' + 3 * length ds < task_work c" "ct_sent c' = ct_sent c @ ds"
    "ct_addr c' = ct_addr c" "ct_eof c' = ct_eof c" "ct_arrived c' = ct_arrived c" by auto
qed

text \<open>A task whose stream has ended is never stuck.\<close>

lemma conn_round_possible:
  assumes "ct_end c = None" "ct_eof c"
  shows "\<exists>c' ds. conn_round E st c = Some (c', ds)"
  using assms by (auto simp: conn_round_def Let_def split: option.splits prod.splits frame_result.splits)

end
