(* ===== verification/Node_Receive.thy ===== *)
theory Node_Receive
  imports Send_Lifecycle Connection_Task
begin

text \<open>
  The receiving side of a node: the listener of \<open>shardus_net_listener.rs\<close> and the function
  \<open>listen\<close> of \<open>lib.rs\<close> put together.  The accept loop spawns one task per connection; a task
  reads frames as their bytes arrive and puts messages into the channel; the loop of \<open>listen\<close>
  takes them off and spawns, for each, a closure on the blocking pool; the closures, in any
  order, queue the JavaScript call; the JavaScript thread runs the queue and, between, the calls
  and tasks of the sending side.
\<close>

section \<open>The node\<close>

text \<open>
  \<open>nd_channel\<close>: the listener's channel.  \<open>nd_blocking\<close>: closures spawned on the blocking pool.
  \<open>nd_js\<close>: the queue of the JavaScript thread.  \<open>nd_called\<close>: the messages whose callback was
  called, and \<open>nd_callbacks\<close> what it was called with.  \<open>nd_failed\<close>: calls that panicked.
\<close>

record ('addr, 's, 'c, 'w) node =
  nd_loop :: "'addr accept_loop"
  nd_conns :: "'addr conn_task list"
  nd_channel :: "'addr delivery list"
  nd_blocking :: "'addr delivery list"
  nd_js :: "'addr delivery list"
  nd_called :: "'addr delivery list"
  nd_callbacks :: "js_listen_args list"
  nd_failed :: nat
  nd_net :: "('addr, 's, 'c, 'w) shardus_net"

text \<open>The node when JavaScript has called \<open>listen\<close>.\<close>

definition node_new :: "('addr, 's, 'c, 'w) shardus_net \<Rightarrow> ('addr, 's, 'c, 'w) node" where
  "node_new net =
     \<lparr>nd_loop = accept_loop_init, nd_conns = [], nd_channel = [], nd_blocking = [], nd_js = [],
      nd_called = [], nd_callbacks = [], nd_failed = 0, nd_net = net\<rparr>"

definition node_loop :: "'addr loop_event \<Rightarrow> 'addr accept_loop \<Rightarrow> ('addr, 's, 'c, 'w) node \<Rightarrow> ('addr, 's, 'c, 'w) node" where
  "node_loop e l nd = nd\<lparr>nd_loop := l,
     nd_conns := nd_conns nd @ (case e of Accepted a \<Rightarrow> [conn_task_new a] | _ \<Rightarrow> [])\<rparr>"

text \<open>Bytes arrive on a connection, or its stream ends.\<close>

definition node_arrive :: "nat \<Rightarrow> u8 list \<Rightarrow> ('addr, 's, 'c, 'w) node \<Rightarrow> ('addr, 's, 'c, 'w) node option" where
  "node_arrive k bs nd =
     (if k < length (nd_conns nd) \<and> \<not> ct_eof (nd_conns nd ! k) \<and> ct_end (nd_conns nd ! k) = None then
        (let c = nd_conns nd ! k
         in Some (nd\<lparr>nd_conns := (nd_conns nd)[k :=
              c\<lparr>ct_input := ct_input c @ bs, ct_arrived := ct_arrived c @ bs\<rparr>]\<rparr>))
      else None)"

definition node_eof :: "nat \<Rightarrow> ('addr, 's, 'c, 'w) node \<Rightarrow> ('addr, 's, 'c, 'w) node option" where
  "node_eof k nd =
     (if k < length (nd_conns nd)
      then Some (nd\<lparr>nd_conns := (nd_conns nd)[k := (nd_conns nd ! k)\<lparr>ct_eof := True\<rparr>]\<rparr>) else None)"

definition node_round ::
    "externals \<Rightarrow> crypto_static \<Rightarrow> nat \<Rightarrow> ('addr, 's, 'c, 'w) node \<Rightarrow> ('addr, 's, 'c, 'w) node option" where
  "node_round E st k nd =
     (if k < length (nd_conns nd) then
        (case conn_round E st (nd_conns nd ! k) of
           None \<Rightarrow> None
         | Some (c, ds) \<Rightarrow> Some (nd\<lparr>nd_conns := (nd_conns nd)[k := c], nd_channel := nd_channel nd @ ds\<rparr>))
      else None)"

text \<open>The loop of \<open>listen\<close>: take a message, count it, spawn the closure.\<close>

definition node_take :: "('addr, 's, 'c, 'w) node \<Rightarrow> ('addr, 's, 'c, 'w) node option" where
  "node_take nd =
     (case nd_channel nd of
        [] \<Rightarrow> None
      | d # rest \<Rightarrow> Some (nd\<lparr>nd_channel := rest, nd_net := listen_take (nd_net nd),
                             nd_blocking := nd_blocking nd @ [d]\<rparr>))"

text \<open>
  One of the closures runs: it sends the JavaScript call to the event queue.  The threads of the
  pool race, so any closure of the pool may be the next; the runtime's own queue and its number of
  threads, which rule some orders out, are left out.  The relation has more runs than the program,
  so what is shown of all its runs is true of the program's.
\<close>

definition node_post :: "nat \<Rightarrow> ('addr, 's, 'c, 'w) node \<Rightarrow> ('addr, 's, 'c, 'w) node option" where
  "node_post i nd =
     (if i < length (nd_blocking nd) then
        Some (nd\<lparr>nd_blocking := take i (nd_blocking nd) @ drop (Suc i) (nd_blocking nd),
                 nd_js := nd_js nd @ [nd_blocking nd ! i]\<rparr>)
      else None)"

text \<open>The JavaScript thread runs the first call of its queue.\<close>

definition node_callback ::
    "'addr net_params \<Rightarrow> Duration \<Rightarrow> ('addr, 's, 'c, 'w) node \<Rightarrow> ('addr, 's, 'c, 'w) node option" where
  "node_callback P elapsed nd =
     (case nd_js nd of
        [] \<Rightarrow> None
      | d # rest \<Rightarrow>
          (case listen_callback P elapsed d (nd_net nd) of
             (Inr args, net) \<Rightarrow>
               Some (nd\<lparr>nd_js := rest, nd_net := net, nd_called := nd_called nd @ [d],
                        nd_callbacks := nd_callbacks nd @ [args]\<rparr>)
           | (Inl _, net) \<Rightarrow> Some (nd\<lparr>nd_js := rest, nd_net := net, nd_failed := nd_failed nd + 1\<rparr>)))"

text \<open>
  The steps of a node.  \<open>Outside\<close>: the network and the sending side; \<open>Inside\<close>: what the
  receiving tasks do with what has arrived.
\<close>

datatype node_event = Outside | Inside

inductive node_step ::
    "'addr net_params \<Rightarrow> ('addr, 's, 'c) cache_ops \<Rightarrow> ('c \<Rightarrow> arc \<Rightarrow> bool) \<Rightarrow> ('addr, 's, 'w) tcp \<Rightarrow>
     ('addr, 's, 'c, 'w) node \<Rightarrow> node_event \<Rightarrow> ('addr, 's, 'c, 'w) node \<Rightarrow> bool"
  for P C cached T where
  listener: "loop_step (nd_loop nd) e l \<Longrightarrow> node_step P C cached T nd Outside (node_loop e l nd)"
| arrive: "node_arrive k bs nd = Some nd' \<Longrightarrow> node_step P C cached T nd Outside nd'"
| eof: "node_eof k nd = Some nd' \<Longrightarrow> node_step P C cached T nd Outside nd'"
| sending: "api_step P C cached T (nd_net nd) l net \<Longrightarrow>
     node_step P C cached T nd Outside (nd\<lparr>nd_net := net\<rparr>)"
| round: "node_round (p_externals P) (p_crypto P) k nd = Some nd' \<Longrightarrow> node_step P C cached T nd Inside nd'"
| taken: "node_take nd = Some nd' \<Longrightarrow> node_step P C cached T nd Inside nd'"
| post: "node_post i nd = Some nd' \<Longrightarrow> node_step P C cached T nd Inside nd'"
| callback: "node_callback P elapsed nd = Some nd' \<Longrightarrow> node_step P C cached T nd Inside nd'"

inductive_cases node_step_cases [consumes 1, case_names listener arrive eof sending round taken post callback]:
  "node_step P C cached T nd e nd'"

inductive node_run ::
    "'addr net_params \<Rightarrow> ('addr, 's, 'c) cache_ops \<Rightarrow> ('c \<Rightarrow> arc \<Rightarrow> bool) \<Rightarrow> ('addr, 's, 'w) tcp \<Rightarrow>
     ('addr, 's, 'c, 'w) node \<Rightarrow> ('addr, 's, 'c, 'w) node \<Rightarrow> bool"
  for P C cached T nd where
  start: "node_run P C cached T nd nd"
| step: "node_run P C cached T nd nd1 \<Longrightarrow> node_step P C cached T nd1 e nd2 \<Longrightarrow> node_run P C cached T nd nd2"

section \<open>The sending side leaves the receive counters alone\<close>

definition receive_stats :: "Stats \<Rightarrow> usize \<times> usize RingBuffer \<times> Duration RingBuffer" where
  "receive_stats st = (outstanding_receives st, outstanding_receives_buffer st, receive_elapsed_buffer st)"

lemma increments_receive_stats:
  "receive_stats ((increment_outstanding_sends ^^ k) st) = receive_stats st"
  by (induction k) (simp_all add: receive_stats_def increment_outstanding_sends_def)

lemma ring_inv_put: "ring_buffer_put v rb = Inr rb' \<Longrightarrow> ring_inv rb \<Longrightarrow> ring_inv rb'"
  using ring_buffer_put_ok [of rb v] by auto

lemma decrement_sends_receive_stats:
  assumes "decrement_outstanding_sends oc st = (r, st')" "stats_inv st"
  shows "receive_stats st' = receive_stats st \<and> stats_inv st'"
  using assms
  by (auto simp: decrement_outstanding_sends_def receive_stats_def stats_inv_def usize_sub_def rbind_def Let_def
      ring_inv_put split: sum.splits if_splits)

lemma complete_send_stats:
  assumes "complete_send P k n = Some n'"
  shows "n_stats n' = n_stats n \<or>
    (\<exists>r. decrement_outstanding_sends (p_overflow_checks P) (n_stats n) = (r, n_stats n'))"
  using assms
  by (cases "decrement_outstanding_sends (p_overflow_checks P) (n_stats n)")
    (auto simp: complete_send_def Let_def split: if_splits option.splits prod.splits sum.splits)

lemma call_keeps_receive_stats:
  "call_keeps n n' \<Longrightarrow> stats_inv (n_stats n) \<Longrightarrow>
     receive_stats (n_stats n') = receive_stats (n_stats n) \<and> stats_inv (n_stats n')"
  by (auto simp: call_keeps_def increments_receive_stats increments_stats)

lemma api_step_receive_stats:
  assumes step: "api_step P C cached T n l n'" and inv: "stats_inv (n_stats n)"
  shows "receive_stats (n_stats n') = receive_stats (n_stats n) \<and> stats_inv (n_stats n')"
  using step
proof (cases rule: api_step_cases)
  case (send port host data r)
  show ?thesis by (rule call_keeps_receive_stats [OF api_send_keeps [OF send(2)] inv])
next
  case (header port host hv hs ds r)
  show ?thesis by (rule call_keeps_receive_stats [OF api_send_with_header_keeps [OF header(2)] inv])
next
  case (multi ports hosts hv hs ds await r)
  show ?thesis by (rule call_keeps_receive_stats [OF api_multi_keeps [OF multi(2)] inv])
next
  case (evict port host r)
  show ?thesis by (rule call_keeps_receive_stats [OF api_evict_keeps [OF evict(2)] inv])
next
  case (task e ss)
  with inv show ?thesis by simp
next
  case (complete k)
  from complete_send_stats [OF complete(2)] decrement_sends_receive_stats [OF _ inv] inv show ?thesis
    by fastforce
qed

section \<open>The invariant of a node\<close>

definition in_flight :: "('addr, 's, 'c, 'w) node \<Rightarrow> 'addr delivery multiset" where
  "in_flight nd = mset (nd_channel nd) + mset (nd_blocking nd) + mset (nd_js nd)"

definition all_sent :: "'addr conn_task list \<Rightarrow> 'addr delivery multiset" where
  "all_sent cs = mset (concat (map ct_sent cs))"

lemma all_sent_append [simp]: "all_sent (cs @ ds) = all_sent cs + all_sent ds"
  by (simp add: all_sent_def)

lemma all_sent_Nil [simp]: "all_sent [] = {#}"
  by (simp add: all_sent_def)

lemma all_sent_new [simp]: "all_sent [conn_task_new a] = {#}"
  by (simp add: all_sent_def conn_task_new_def)

lemma all_sent_update:
  assumes "k < length cs" "ct_sent c = ct_sent (cs ! k) @ ds"
  shows "all_sent (cs[k := c]) = all_sent cs + mset ds"
proof -
  have "all_sent (take k cs @ c # drop (Suc k) cs) =
      all_sent (take k cs @ cs ! k # drop (Suc k) cs) + mset ds"
    using assms(2) by (simp add: all_sent_def)
  with assms(1) show ?thesis by (simp add: upd_conv_take_nth_drop id_take_nth_drop [symmetric])
qed

definition node_inv :: "'addr net_params \<Rightarrow> ('addr, 's, 'c, 'w) node \<Rightarrow> bool" where
  "node_inv P nd \<longleftrightarrow>
     (\<forall>c \<in> set (nd_conns nd). task_ok (p_externals P) (p_crypto P) c) \<and>
     all_sent (nd_conns nd) = in_flight nd + mset (nd_called nd) \<and>
     nd_callbacks nd = map (listen_args P) (nd_called nd) \<and> nd_failed nd = 0 \<and>
     stats_inv (n_stats (nd_net nd)) \<and>
     unat (outstanding_receives (n_stats (nd_net nd))) = length (nd_blocking nd) + length (nd_js nd)"

text \<open>How many messages have been taken off the channel; the counter must not have wrapped.\<close>

definition taken_count :: "('addr, 's, 'c, 'w) node \<Rightarrow> nat" where
  "taken_count nd = length (nd_blocking nd) + length (nd_js nd) + length (nd_called nd) + nd_failed nd"

lemma node_inv_new:
  "stats_inv (n_stats net) \<Longrightarrow> outstanding_receives (n_stats net) = 0 \<Longrightarrow> node_inv P (node_new net)"
  by (simp add: node_inv_def node_new_def all_sent_def in_flight_def)

lemma set_update_cases: "x \<in> set (xs[k := y]) \<Longrightarrow> x = y \<or> x \<in> set xs"
  by (meson insert_iff set_update_subset_insert subset_iff)

lemma node_take_inv:
  assumes "node_inv P nd" "node_take nd = Some nd'" "taken_count nd' < 2 ^ 64"
  shows "node_inv P nd' \<and> taken_count nd' = taken_count nd + 1"
proof -
  obtain d rest where ch: "nd_channel nd = d # rest"
    and nd': "nd' = nd\<lparr>nd_channel := rest, nd_net := listen_take (nd_net nd), nd_blocking := nd_blocking nd @ [d]\<rparr>"
    using assms(2) by (auto simp: node_take_def split: list.splits)
  have "unat (outstanding_receives (n_stats (nd_net nd))) + 1 < 2 ^ 64"
    using assms(1,3) by (simp add: nd' node_inv_def taken_count_def)
  then have "unat (outstanding_receives (n_stats (nd_net nd)) + 1) =
      unat (outstanding_receives (n_stats (nd_net nd))) + 1" by (rule unat_increment)
  moreover have "stats_inv (n_stats (listen_take (nd_net nd)))"
    using assms(1) by (simp add: node_inv_def listen_take_def modify_stats_def)
  ultimately show ?thesis
    using assms(1) ch
    by (simp add: nd' node_inv_def in_flight_def taken_count_def listen_take_def modify_stats_def
        increment_outstanding_receives_def)
qed

lemma node_post_inv:
  assumes "node_inv P nd" "node_post i nd = Some nd'"
  shows "node_inv P nd' \<and> taken_count nd' = taken_count nd"
proof -
  have i: "i < length (nd_blocking nd)"
    and nd': "nd' = nd\<lparr>nd_blocking := take i (nd_blocking nd) @ drop (Suc i) (nd_blocking nd),
      nd_js := nd_js nd @ [nd_blocking nd ! i]\<rparr>"
    using assms(2) by (auto simp: node_post_def split: if_splits)
  from mset_remove_nth [OF i] i assms(1) show ?thesis
    by (auto simp: nd' node_inv_def in_flight_def taken_count_def)
qed

lemma listen_callback_ok:
  assumes "stats_inv (n_stats n)" "0 < unat (outstanding_receives (n_stats n))"
  shows "\<exists>n'. listen_callback P elapsed d n = (Inr (listen_args P d), n') \<and> stats_inv (n_stats n') \<and>
    outstanding_receives (n_stats n') = outstanding_receives (n_stats n) - 1"
proof -
  obtain buf where dec: "decrement_outstanding_receives (p_overflow_checks P) (n_stats n) = (Inr (),
      (n_stats n)\<lparr>outstanding_receives := outstanding_receives (n_stats n) - 1, outstanding_receives_buffer := buf\<rparr>)"
    and inv: "stats_inv ((n_stats n)\<lparr>outstanding_receives := outstanding_receives (n_stats n) - 1,
      outstanding_receives_buffer := buf\<rparr>)"
    using decrement_receives_ok [OF assms] by blast
  from put_elapsed_ok [OF inv, of elapsed] dec show ?thesis
    by (auto simp: listen_callback_def)
qed

lemma node_callback_inv:
  assumes inv: "node_inv P nd" and step: "node_callback P elapsed nd = Some nd'"
  shows "node_inv P nd' \<and> taken_count nd' = taken_count nd"
proof -
  obtain d rest where js: "nd_js nd = d # rest" using step by (auto simp: node_callback_def split: list.splits)
  have "stats_inv (n_stats (nd_net nd))" "0 < unat (outstanding_receives (n_stats (nd_net nd)))"
    using inv js by (simp_all add: node_inv_def)
  note pos = this
  obtain n' where n': "listen_callback P elapsed d (nd_net nd) = (Inr (listen_args P d), n')"
    "stats_inv (n_stats n')" "outstanding_receives (n_stats n') = outstanding_receives (n_stats (nd_net nd)) - 1"
    using listen_callback_ok [OF pos] by blast
  then have nd': "nd' = nd\<lparr>nd_js := rest, nd_net := n', nd_called := nd_called nd @ [d],
      nd_callbacks := nd_callbacks nd @ [listen_args P d]\<rparr>"
    using step js by (simp add: node_callback_def)
  have "unat (outstanding_receives (n_stats n')) = unat (outstanding_receives (n_stats (nd_net nd))) - 1"
    using n'(3) pos(2) by (simp add: unat_decrement)
  with inv n'(2) js show ?thesis
    by (simp add: nd' node_inv_def in_flight_def taken_count_def)
qed

lemma node_round_inv:
  assumes inv: "node_inv P nd" and step: "node_round (p_externals P) (p_crypto P) k nd = Some nd'"
  shows "node_inv P nd' \<and> taken_count nd' = taken_count nd"
proof -
  obtain c ds where k: "k < length (nd_conns nd)"
    and r: "conn_round (p_externals P) (p_crypto P) (nd_conns nd ! k) = Some (c, ds)"
    and nd': "nd' = nd\<lparr>nd_conns := (nd_conns nd)[k := c], nd_channel := nd_channel nd @ ds\<rparr>"
    using step by (auto simp: node_round_def split: if_splits option.splits)
  have "task_ok (p_externals P) (p_crypto P) (nd_conns nd ! k)" using inv k by (simp add: node_inv_def)
  from conn_round_task_ok [OF this r]
  have "\<forall>c' \<in> set ((nd_conns nd)[k := c]). task_ok (p_externals P) (p_crypto P) c'"
    using inv by (auto simp: node_inv_def dest!: set_update_cases)
  moreover have "all_sent ((nd_conns nd)[k := c]) = all_sent (nd_conns nd) + mset ds"
    using all_sent_update [OF k conn_round_effect(2) [OF r]] .
  ultimately show ?thesis using inv by (simp add: nd' node_inv_def in_flight_def taken_count_def)
qed

lemma task_ok_arrive:
  "task_ok E st c \<Longrightarrow> ct_end c = None \<Longrightarrow>
     task_ok E st (c\<lparr>ct_input := ct_input c @ bs, ct_arrived := ct_arrived c @ bs\<rparr>)"
  by (simp add: task_ok_def)

lemma task_ok_eof [simp]: "task_ok E st c \<Longrightarrow> task_ok E st (c\<lparr>ct_eof := True\<rparr>)"
  by (auto simp: task_ok_def split: option.splits)

lemma node_outside_inv:
  assumes inv: "node_inv P nd" and step: "node_step P C cached T nd Outside nd'"
  shows "node_inv P nd' \<and> taken_count nd' = taken_count nd"
  using step
proof (cases rule: node_step_cases)
  case (listener e l)
  with inv show ?thesis
    by (auto simp: node_loop_def node_inv_def in_flight_def taken_count_def split: loop_event.splits)
next
  case (arrive k bs)
  let ?c = "nd_conns nd ! k"
  let ?c' = "?c\<lparr>ct_input := ct_input ?c @ bs, ct_arrived := ct_arrived ?c @ bs\<rparr>"
  have k: "k < length (nd_conns nd)" "ct_end ?c = None" and nd': "nd' = nd\<lparr>nd_conns := (nd_conns nd)[k := ?c']\<rparr>"
    using arrive by (auto simp: node_arrive_def Let_def split: if_splits)
  have "task_ok (p_externals P) (p_crypto P) ?c'"
    using inv k by (simp add: node_inv_def task_ok_arrive)
  then have "\<forall>c \<in> set ((nd_conns nd)[k := ?c']). task_ok (p_externals P) (p_crypto P) c"
    using inv by (auto simp: node_inv_def dest!: set_update_cases)
  moreover have "all_sent ((nd_conns nd)[k := ?c']) = all_sent (nd_conns nd) + mset []"
    by (rule all_sent_update [OF k(1)]) simp
  ultimately show ?thesis using inv by (simp add: nd' node_inv_def in_flight_def taken_count_def)
next
  case (eof k)
  let ?c' = "(nd_conns nd ! k)\<lparr>ct_eof := True\<rparr>"
  have k: "k < length (nd_conns nd)" and nd': "nd' = nd\<lparr>nd_conns := (nd_conns nd)[k := ?c']\<rparr>"
    using eof by (auto simp: node_eof_def split: if_splits)
  have "task_ok (p_externals P) (p_crypto P) ?c'"
    using inv k by (simp add: node_inv_def)
  then have "\<forall>c \<in> set ((nd_conns nd)[k := ?c']). task_ok (p_externals P) (p_crypto P) c"
    using inv by (auto simp: node_inv_def dest!: set_update_cases)
  moreover have "all_sent ((nd_conns nd)[k := ?c']) = all_sent (nd_conns nd) + mset []"
    by (rule all_sent_update [OF k]) simp
  ultimately show ?thesis using inv by (simp add: nd' node_inv_def in_flight_def taken_count_def)
next
  case (sending l net)
  have "stats_inv (n_stats (nd_net nd))" using inv by (simp add: node_inv_def)
  from api_step_receive_stats [OF sending(3) this] sending(2) inv show ?thesis
    by (simp add: node_inv_def receive_stats_def in_flight_def taken_count_def)
qed simp_all

lemma node_inside_inv:
  assumes inv: "node_inv P nd" and step: "node_step P C cached T nd Inside nd'"
    and bound: "taken_count nd' < 2 ^ 64"
  shows "node_inv P nd'"
  using step
proof (cases rule: node_step_cases)
  case (round k)
  with node_round_inv [OF inv] show ?thesis by blast
next
  case taken
  with node_take_inv [OF inv _ bound] show ?thesis by blast
next
  case (post i)
  with node_post_inv [OF inv] show ?thesis by blast
next
  case (callback elapsed)
  with node_callback_inv [OF inv] show ?thesis by blast
qed simp_all

lemma node_step_inv:
  assumes "node_inv P nd" "node_step P C cached T nd e nd'" "taken_count nd' < 2 ^ 64"
  shows "node_inv P nd'"
  using assms node_outside_inv node_inside_inv by (cases e) blast+

lemma taken_count_mono:
  assumes "node_step P C cached T nd e nd'"
  shows "taken_count nd \<le> taken_count nd'"
  using assms
proof (cases rule: node_step_cases)
  case (callback elapsed)
  then show ?thesis
    by (auto simp: node_callback_def taken_count_def split: list.splits prod.splits sum.splits)
next
  case (taken)
  then show ?thesis by (auto simp: node_take_def taken_count_def split: list.splits)
next
  case (post i)
  then show ?thesis by (auto simp: node_post_def taken_count_def split: if_splits)
qed (auto simp: node_loop_def node_arrive_def node_eof_def node_round_def taken_count_def Let_def
    split: if_splits option.splits prod.splits)

lemma node_run_inv:
  "node_run P C cached T nd nd' \<Longrightarrow> node_inv P nd \<Longrightarrow> taken_count nd' < 2 ^ 64 \<Longrightarrow> node_inv P nd'"
proof (induction rule: node_run.induct)
  case (step nd1 e nd2)
  with taken_count_mono [OF step.hyps(2)] have "node_inv P nd1" by simp
  with node_step_inv [OF _ step.hyps(2)] step.prems show ?case by blast
qed

section \<open>Coming to rest\<close>

definition node_work :: "('addr, 's, 'c, 'w) node \<Rightarrow> nat" where
  "node_work nd = sum_list (map task_work (nd_conns nd)) +
     3 * length (nd_channel nd) + 2 * length (nd_blocking nd) + length (nd_js nd)"

abbreviation inside_step where
  "inside_step P C cached T nd nd' \<equiv> node_step P C cached T nd Inside nd'"

definition node_at_rest ::
    "'addr net_params \<Rightarrow> ('addr, 's, 'c) cache_ops \<Rightarrow> ('c \<Rightarrow> arc \<Rightarrow> bool) \<Rightarrow> ('addr, 's, 'w) tcp \<Rightarrow>
     ('addr, 's, 'c, 'w) node \<Rightarrow> bool" where
  "node_at_rest P C cached T nd \<longleftrightarrow> (\<forall>nd'. \<not> inside_step P C cached T nd nd')"

lemma sum_list_update_less:
  assumes "k < length xs" "f y + m < f (xs ! k)"
  shows "sum_list (map f (xs[k := y])) + m < sum_list (map (f :: 'a \<Rightarrow> nat) xs)"
proof -
  have "sum_list (map f (take k xs @ y # drop (Suc k) xs)) + m <
      sum_list (map f (take k xs @ xs ! k # drop (Suc k) xs))"
    using assms(2) by simp
  with assms(1) show ?thesis by (simp only: upd_conv_take_nth_drop id_take_nth_drop [symmetric])
qed

lemma inside_step_works:
  assumes "inside_step P C cached T nd nd'"
  shows "node_work nd' < node_work nd"
  using assms
proof (cases rule: node_step_cases)
  case (round k)
  then obtain c ds where k: "k < length (nd_conns nd)"
    and r: "conn_round (p_externals P) (p_crypto P) (nd_conns nd ! k) = Some (c, ds)"
    and nd': "nd' = nd\<lparr>nd_conns := (nd_conns nd)[k := c], nd_channel := nd_channel nd @ ds\<rparr>"
    by (auto simp: node_round_def split: if_splits option.splits)
  from sum_list_update_less [of k "nd_conns nd" task_work c, OF k conn_round_effect(1) [OF r]]
  show ?thesis by (simp add: nd' node_work_def)
next
  case taken
  then show ?thesis by (auto simp: node_take_def node_work_def split: list.splits)
next
  case (post i)
  then show ?thesis by (auto simp: node_post_def node_work_def split: if_splits)
next
  case (callback elapsed)
  then show ?thesis by (auto simp: node_callback_def node_work_def split: list.splits prod.splits sum.splits)
qed simp_all

lemma inside_step_count:
  assumes "inside_step P C cached T nd nd'"
  shows "taken_count nd' \<le> Suc (taken_count nd)"
  using assms
proof (cases rule: node_step_cases)
  case taken
  then show ?thesis by (auto simp: node_take_def taken_count_def split: list.splits)
next
  case (callback elapsed)
  then show ?thesis
    by (auto simp: node_callback_def taken_count_def split: list.splits prod.splits sum.splits)
qed (auto simp: node_round_def node_post_def taken_count_def split: option.splits if_splits prod.splits)

lemma inside_steps_count:
  "(inside_step P C cached T ^^ n) nd nd' \<Longrightarrow>
     n + node_work nd' \<le> node_work nd \<and> taken_count nd' \<le> taken_count nd + n"
proof (induction n arbitrary: nd')
  case (Suc n)
  then obtain nd1 where s: "(inside_step P C cached T ^^ n) nd nd1" "inside_step P C cached T nd1 nd'" by auto
  with Suc.IH [OF s(1)] inside_step_works [OF s(2)] inside_step_count [OF s(2)] show ?case by simp
qed simp

lemma inside_steps_inv:
  "(inside_step P C cached T ^^ n) nd nd' \<Longrightarrow> node_inv P nd \<Longrightarrow> taken_count nd' < 2 ^ 64 \<Longrightarrow> node_inv P nd'"
proof (induction n arbitrary: nd')
  case (Suc n)
  then obtain nd1 where s: "(inside_step P C cached T ^^ n) nd nd1" "inside_step P C cached T nd1 nd'" by auto
  with taken_count_mono [OF s(2)] Suc have "node_inv P nd1" by auto
  with node_step_inv [OF _ s(2)] Suc.prems show ?case by blast
qed simp

text \<open>At rest, all that was in flight has been called back, and closed connections have ended.\<close>

lemma node_at_rest_done:
  assumes rest: "node_at_rest P C cached T nd"
  shows "in_flight nd = {#}" and "\<forall>c \<in> set (nd_conns nd). ct_eof c \<longrightarrow> ct_end c \<noteq> None"
proof -
  have stuck: "\<not> inside_step P C cached T nd nd'" for nd' using rest by (simp add: node_at_rest_def)
  have "nd_channel nd = []"
  proof (rule ccontr)
    assume "nd_channel nd \<noteq> []"
    then have "\<exists>nd'. node_take nd = Some nd'" by (cases "nd_channel nd") (auto simp: node_take_def)
    with stuck node_step.taken show False by blast
  qed
  moreover have "nd_blocking nd = []"
  proof (rule ccontr)
    assume "nd_blocking nd \<noteq> []"
    then have "\<exists>nd'. node_post 0 nd = Some nd'" by (auto simp: node_post_def)
    with stuck node_step.post show False by blast
  qed
  moreover have "nd_js nd = []"
  proof (rule ccontr)
    assume "nd_js nd \<noteq> []"
    then have "\<exists>nd'. node_callback P (Duration 0 0) nd = Some nd'"
      by (cases "nd_js nd") (auto simp: node_callback_def split: prod.splits sum.splits)
    with stuck node_step.callback show False by blast
  qed
  ultimately show "in_flight nd = {#}" by (simp add: in_flight_def)
  show "\<forall>c \<in> set (nd_conns nd). ct_eof c \<longrightarrow> ct_end c \<noteq> None"
  proof (intro ballI impI notI)
    fix c assume c: "c \<in> set (nd_conns nd)" "ct_eof c" "ct_end c = None"
    then obtain k where k: "k < length (nd_conns nd)" "nd_conns nd ! k = c" by (auto simp: in_set_conv_nth)
    from conn_round_possible [OF c(3,2), of "p_externals P" "p_crypto P"] k
    have "\<exists>nd'. node_round (p_externals P) (p_crypto P) k nd = Some nd'"
      by (auto simp: node_round_def split: prod.splits)
    with stuck node_step.round show False by blast
  qed
qed

text \<open>At rest: what was sent has been called back, and a closed connection has sent all its bytes gave.\<close>

lemma rest_called:
  assumes "node_inv P nd" "node_at_rest P C cached T nd"
  shows "all_sent (nd_conns nd) = mset (nd_called nd)" "nd_callbacks nd = map (listen_args P) (nd_called nd)"
  using assms node_at_rest_done(1) [OF assms(2)] by (simp_all add: node_inv_def)

lemma rest_conn_sent:
  assumes inv: "node_inv P nd" and rest: "node_at_rest P C cached T nd"
    and c: "c \<in> set (nd_conns nd)" "ct_eof c"
  shows "ct_sent c = snd (receive_all (p_externals P) (p_crypto P) (ct_addr c) (ct_arrived c) [])"
proof -
  obtain e where "ct_end c = Some e" using node_at_rest_done(2) [OF rest] c by auto
  moreover have "task_ok (p_externals P) (p_crypto P) c" using inv c by (simp add: node_inv_def)
  ultimately show ?thesis by (auto simp: task_ok_def dest: spec [of _ "[]"])
qed

lemma sent_subset_all: "c \<in> set cs \<Longrightarrow> mset (ct_sent c) \<subseteq># all_sent cs"
  by (induction cs) (auto simp: all_sent_def subset_mset.add_increasing subset_mset.add_increasing2)

lemma inside_steps_run: "(inside_step P C cached T ^^ n) nd nd' \<Longrightarrow> node_run P C cached T nd nd'"
  by (induction n arbitrary: nd') (auto intro: node_run.intros)

lemma inside_to_rest:
  "\<exists>n nd'. (inside_step P C cached T ^^ n) nd nd' \<and> node_at_rest P C cached T nd'"
  unfolding node_at_rest_def
  by (rule comes_to_rest [of "\<lambda>_. True" _ node_work]) (simp_all add: inside_step_works)

lemma receive_extends: "\<exists>new. snd (receive E st alive ra s sent) = sent @ new"
  unfolding receive_run_frames by (rule run_frames_extends)

lemma node_run_trans:
  "node_run P C cached T nd1 nd2 \<Longrightarrow> node_run P C cached T nd nd1 \<Longrightarrow> node_run P C cached T nd nd2"
  by (induction rule: node_run.induct) (auto intro: node_run.step)

section \<open>A small instance\<close>

text \<open>A connection from address 3 on which two plain messages arrive, up to the blocking pool.\<close>

definition sample_pool :: "(nat, nat, nat \<rightharpoonup> arc, sample_world) node" where
  "sample_pool =
     (node_new sample_net)\<lparr>nd_loop := \<lparr>al_phase = Accepting, al_spawned = [3], al_errors = []\<rparr>,
        nd_conns := [\<lparr>ct_addr = 3, ct_input = [], ct_eof = True, ct_end = None,
                      ct_arrived = wire_frame (into_bytes ''a'') @ wire_frame (into_bytes ''b''),
                      ct_sent = [(''a'', 3, None), (''b'', 3, None)]\<rparr>],
        nd_blocking := [(''a'', 3, None), (''b'', 3, None)],
        nd_net := listen_take (listen_take sample_net)\<rparr>"

lemma sample_blobs: "blob_ok (into_bytes ''a'')" "blob_ok (into_bytes ''b'')"
  by (simp_all add: blob_ok_def)

lemma sample_texts:
  "handle_frame E st (into_bytes ''a'') = Received ''a'' None"
  "handle_frame E st (into_bytes ''b'') = Received ''b'' None"
  by (rule handle_frame_text; simp add: string_ok_def into_bytes_def byte_of_def)+

lemma sample_pool_run:
  "node_run sample_params hashmap_cache hashmap_cached sample_tcp (node_new sample_net) sample_pool"
proof -
  let ?step = "node_step sample_params hashmap_cache hashmap_cached sample_tcp"
  let ?run = "node_run sample_params hashmap_cache hashmap_cached sample_tcp (node_new sample_net)"
  let ?bs = "wire_frame (into_bytes ''a'') @ wire_frame (into_bytes ''b'')"
  let ?da = "(''a'', 3, None) :: nat delivery" let ?db = "(''b'', 3, None) :: nat delivery"
  let ?l1 = "\<lparr>al_phase = Accepting, al_spawned = [], al_errors = []\<rparr> :: nat accept_loop"
  let ?l2 = "\<lparr>al_phase = Accepting, al_spawned = [3], al_errors = []\<rparr> :: nat accept_loop"
  define n0 :: "(nat, nat, nat \<rightharpoonup> arc, sample_world) node" where "n0 = node_new sample_net"
  define n1 where "n1 = n0\<lparr>nd_loop := ?l1\<rparr>"
  define n2 where "n2 = n0\<lparr>nd_loop := ?l2, nd_conns := [conn_task_new 3]\<rparr>"
  let ?c = "\<lparr>ct_addr = 3, ct_input = [], ct_eof = False, ct_end = None, ct_arrived = ?bs, ct_sent = [?da, ?db]\<rparr>"
  define n3 where "n3 = n2\<lparr>nd_conns := [?c\<lparr>ct_input := ?bs, ct_sent := []\<rparr>]\<rparr>"
  define n4 where "n4 = n3\<lparr>nd_conns := [?c\<lparr>ct_input := ?bs, ct_sent := [], ct_eof := True\<rparr>]\<rparr>"
  define n5 where "n5 = n4\<lparr>nd_conns := [?c\<lparr>ct_input := wire_frame (into_bytes ''b''), ct_sent := [?da], ct_eof := True\<rparr>],
    nd_channel := [?da]\<rparr>"
  define n6 where "n6 = n5\<lparr>nd_conns := [?c\<lparr>ct_eof := True\<rparr>], nd_channel := [?da, ?db]\<rparr>"
  define n7 where "n7 = n6\<lparr>nd_channel := [?db], nd_blocking := [?da], nd_net := listen_take (nd_net n6)\<rparr>"
  have "loop_step accept_loop_init Bind_ok ?l1" "loop_step ?l1 (Accepted 3) ?l2"
    by (simp_all add: loop_steps accept_loop_init_def)
  then have 1: "?step n0 Outside n1" and 2: "?step n1 Outside n2"
    using node_step.listener [of n0 Bind_ok ?l1] node_step.listener [of n1 "Accepted 3" ?l2]
    by (simp_all add: node_loop_def n0_def n1_def n2_def node_new_def)
  have "node_arrive 0 ?bs n2 = Some n3" "node_eof 0 n3 = Some n4"
    by (simp_all add: node_arrive_def node_eof_def n2_def n3_def n4_def conn_task_new_def)
  then have 3: "?step n2 Outside n3" and 4: "?step n3 Outside n4"
    by (auto intro: node_step.arrive node_step.eof)
  have r56: "node_round E st 0 n4 = Some n5" "node_round E st 0 n5 = Some n6" for E st
    using stream_read_wire_frame [OF sample_blobs(1)] stream_read_wire_frame [OF sample_blobs(2), of "[]"]
      sample_texts [of E st]
    by (simp_all add: node_round_def conn_round_def n4_def n5_def n6_def n3_def n2_def n0_def node_new_def Let_def)
  have 5: "?step n4 Inside n5" by (rule node_step.round [OF r56(1)])
  have 6: "?step n5 Inside n6" by (rule node_step.round [OF r56(2)])
  have "node_take n6 = Some n7" "node_take n7 = Some sample_pool"
    by (simp_all add: node_take_def sample_pool_def n7_def n6_def n5_def n4_def n3_def n2_def n0_def node_new_def)
  then have 7: "?step n6 Inside n7" and 8: "?step n7 Inside sample_pool" by (auto intro: node_step.taken)
  have "?run n2" using node_run.step [OF node_run.step [OF node_run.start 1 [unfolded n0_def]] 2] .
  from node_run.step [OF node_run.step [OF this 3] 4] have "?run n4" .
  from node_run.step [OF node_run.step [OF this 5] 6] have "?run n6" .
  from node_run.step [OF node_run.step [OF this 7] 8] show ?thesis .
qed

lemma node_run_new_inv:
  "node_run P C cached T (node_new (shardus_net_new kp c w)) nd \<Longrightarrow> taken_count nd < 2 ^ 64 \<Longrightarrow> node_inv P nd"
  by (erule node_run_inv) (rule node_inv_new, simp_all add: shardus_net_new_def stats_new_def [symmetric],
    simp add: stats_new_def)

text \<open>What the receiving tasks do changes neither the peers nor the bytes that came.\<close>

lemma map_update_same: "k < length xs \<Longrightarrow> f y = f (xs ! k) \<Longrightarrow> map f (xs[k := y]) = map f xs"
  by (metis list_update_id map_update)

lemma inside_conns:
  assumes "inside_step P C cached T nd nd'"
  shows "map ct_eof (nd_conns nd') = map ct_eof (nd_conns nd) \<and>
    map ct_addr (nd_conns nd') = map ct_addr (nd_conns nd) \<and>
    map ct_arrived (nd_conns nd') = map ct_arrived (nd_conns nd)"
  using assms
proof (cases rule: node_step_cases)
  case (round k)
  then obtain c ds where k: "k < length (nd_conns nd)"
    and r: "conn_round (p_externals P) (p_crypto P) (nd_conns nd ! k) = Some (c, ds)"
    and nd': "nd_conns nd' = (nd_conns nd)[k := c]"
    by (auto simp: node_round_def split: if_splits option.splits)
  from conn_round_effect(3-5) [OF r] k show ?thesis by (simp add: nd' map_update_same)
next
  case (callback elapsed)
  then show ?thesis by (auto simp: node_callback_def split: list.splits prod.splits sum.splits)
qed (auto simp: node_take_def node_post_def split: list.splits if_splits)

lemma inside_steps_conns:
  "(inside_step P C cached T ^^ n) nd nd' \<Longrightarrow>
     map ct_eof (nd_conns nd') = map ct_eof (nd_conns nd) \<and>
     map ct_addr (nd_conns nd') = map ct_addr (nd_conns nd) \<and>
     map ct_arrived (nd_conns nd') = map ct_arrived (nd_conns nd)"
  by (induction n arbitrary: nd') (auto dest: inside_conns)

text \<open>A node with one connection on which some bytes arrived before it closed.\<close>

lemma closed_node_run:
  "\<exists>nd c. node_run P Ca cached T (node_new net) nd \<and> nd_conns nd = [c] \<and> ct_addr c = a \<and> ct_arrived c = bs \<and>
     ct_eof c \<and> taken_count nd = 0 \<and> node_work nd = length bs + 1"
proof -
  let ?l1 = "\<lparr>al_phase = Accepting, al_spawned = [], al_errors = []\<rparr>"
  let ?l2 = "\<lparr>al_phase = Accepting, al_spawned = [a], al_errors = []\<rparr>"
  define n1 where "n1 = (node_new net)\<lparr>nd_loop := ?l1\<rparr>"
  define n2 where "n2 = (node_new net)\<lparr>nd_loop := ?l2, nd_conns := [conn_task_new a]\<rparr>"
  let ?c = "(conn_task_new a)\<lparr>ct_input := bs, ct_arrived := bs\<rparr>"
  define n3 where "n3 = n2\<lparr>nd_conns := [?c]\<rparr>"
  define n4 where "n4 = n2\<lparr>nd_conns := [?c\<lparr>ct_eof := True\<rparr>]\<rparr>"
  have "loop_step accept_loop_init Bind_ok ?l1" "loop_step ?l1 (Accepted a) ?l2"
    by (simp_all add: loop_steps accept_loop_init_def)
  then have 1: "node_step P Ca cached T (node_new net) Outside n1" and 2: "node_step P Ca cached T n1 Outside n2"
    using node_step.listener [of "node_new net" Bind_ok ?l1] node_step.listener [of n1 "Accepted a" ?l2]
    by (simp_all add: node_loop_def n1_def n2_def node_new_def)
  have "node_arrive 0 bs n2 = Some n3" "node_eof 0 n3 = Some n4"
    by (simp_all add: node_arrive_def node_eof_def n2_def n3_def n4_def conn_task_new_def)
  then have 3: "node_step P Ca cached T n2 Outside n3" and 4: "node_step P Ca cached T n3 Outside n4"
    by (auto intro: node_step.arrive node_step.eof)
  have "node_run P Ca cached T (node_new net) n2" using node_run.step [OF node_run.step [OF node_run.start 1] 2] .
  from node_run.step [OF node_run.step [OF this 3] 4] show ?thesis
    by (intro exI [of _ n4] exI [of _ "?c\<lparr>ct_eof := True\<rparr>"])
      (simp add: n4_def n2_def node_new_def conn_task_new_def taken_count_def node_work_def task_work_def)
qed

section \<open>Properties\<close>

text \<open>
  C7. No received message is lost, duplicated or altered on its way to JavaScript: in every run
  of a node, whatever the sending side does meanwhile, what its connections have put into the
  channel is, as a multiset, what is in the channel, the blocking pool or the JavaScript queue or
  has been called back with its arguments; no call panics; the counter of outstanding receives is
  the number of messages between channel and callback; and a connection has put in what the read
  loop delivers on the bytes that arrived - all of it once it has ended, and it ends before its
  stream does only where whatever followed would not be read.
\<close>

theorem received_messages_accounted:
  assumes "node_run P C cached T (node_new (shardus_net_new kp c w)) nd" "taken_count nd < 2 ^ 64"
  shows "mset (concat (map ct_sent (nd_conns nd))) =
      mset (nd_channel nd) + mset (nd_blocking nd) + mset (nd_js nd) + mset (nd_called nd) \<and>
    nd_callbacks nd = map (listen_args P) (nd_called nd) \<and> nd_failed nd = 0 \<and>
    unat (outstanding_receives (n_stats (nd_net nd))) = length (nd_blocking nd) + length (nd_js nd) \<and>
    (\<forall>c \<in> set (nd_conns nd).
       case ct_end c of
         Some e \<Rightarrow> \<forall>more. (ct_eof c \<longrightarrow> more = []) \<longrightarrow>
           receive (p_externals P) (p_crypto P) (\<lambda>_. True) (ct_addr c) (ct_arrived c @ more) [] = (e, ct_sent c)
       | None \<Rightarrow> \<forall>more. \<exists>new.
           snd (receive (p_externals P) (p_crypto P) (\<lambda>_. True) (ct_addr c) (ct_arrived c @ more) []) =
             ct_sent c @ new)"
proof -
  have inv: "node_inv P nd" by (rule node_run_new_inv [OF assms])
  have "case ct_end c of
      Some e \<Rightarrow> \<forall>more. (ct_eof c \<longrightarrow> more = []) \<longrightarrow>
        receive_all (p_externals P) (p_crypto P) (ct_addr c) (ct_arrived c @ more) [] = (e, ct_sent c)
    | None \<Rightarrow> \<forall>more. \<exists>new.
        snd (receive_all (p_externals P) (p_crypto P) (ct_addr c) (ct_arrived c @ more) []) = ct_sent c @ new"
    if "c \<in> set (nd_conns nd)" for c
  proof -
    have "task_ok (p_externals P) (p_crypto P) c" using inv that by (simp add: node_inv_def)
    then show ?thesis unfolding task_ok_def using receive_extends by (auto split: option.splits)
  qed
  with inv show ?thesis by (simp add: node_inv_def all_sent_def in_flight_def)
qed

theorem received_messages_accounted_witness:
  "unat (outstanding_receives (n_stats (nd_net sample_pool))) = 2 \<and> nd_failed sample_pool = 0 \<and>
   mset (concat (map ct_sent (nd_conns sample_pool))) = mset (nd_blocking sample_pool)"
proof -
  have "taken_count sample_pool < 2 ^ 64" by (simp add: taken_count_def sample_pool_def node_new_def)
  from received_messages_accounted [OF sample_pool_run [unfolded sample_net_def] this]
  have "unat (outstanding_receives (n_stats (nd_net sample_pool))) =
      length (nd_blocking sample_pool) + length (nd_js sample_pool)"
    "nd_failed sample_pool = 0" "mset (concat (map ct_sent (nd_conns sample_pool))) =
      mset (nd_channel sample_pool) + mset (nd_blocking sample_pool) + mset (nd_js sample_pool) + mset (nd_called sample_pool)"
    by blast+
  then show ?thesis by (simp add: sample_pool_def node_new_def)
qed

text \<open>
  C6. Every message of a closed connection is called back: without new bytes or calls the
  receiving tasks move only a bounded number of times and come to rest, and where they do, if all
  streams have ended, the callbacks are exactly what the read loop delivers on the bytes of each
  connection, each message once.
\<close>

theorem closed_connections_called_back:
  assumes run: "node_run P C cached T (node_new (shardus_net_new kp c w)) nd"
    and bound: "taken_count nd + node_work nd < 2 ^ 64"
    and steps: "(inside_step P C cached T ^^ n) nd nd'"
  shows "n \<le> node_work nd \<and>
    (\<exists>m nd''. (inside_step P C cached T ^^ m) nd' nd'' \<and> node_at_rest P C cached T nd'') \<and>
    (node_at_rest P C cached T nd' \<longrightarrow> (\<forall>c \<in> set (nd_conns nd'). ct_eof c) \<longrightarrow>
       nd_callbacks nd' = map (listen_args P) (nd_called nd') \<and>
       mset (nd_called nd') = mset (concat (map (\<lambda>c.
         snd (receive (p_externals P) (p_crypto P) (\<lambda>_. True) (ct_addr c) (ct_arrived c) [])) (nd_conns nd'))))"
proof -
  have n: "n \<le> node_work nd" and t: "taken_count nd' \<le> taken_count nd + n"
    using inside_steps_count [OF steps] by auto
  have "node_inv P nd" by (rule node_run_new_inv [OF run]) (use bound in simp)
  from inside_steps_inv [OF steps this] n t bound have inv: "node_inv P nd'" by simp
  have "\<exists>m nd''. (inside_step P C cached T ^^ m) nd' nd'' \<and> node_at_rest P C cached T nd''"
    by (rule inside_to_rest)
  moreover have "nd_callbacks nd' = map (listen_args P) (nd_called nd') \<and>
       mset (nd_called nd') = mset (concat (map (\<lambda>c.
         snd (receive_all (p_externals P) (p_crypto P) (ct_addr c) (ct_arrived c) [])) (nd_conns nd')))"
    if rest: "node_at_rest P C cached T nd'" and eof: "\<forall>c \<in> set (nd_conns nd'). ct_eof c"
  proof -
    have "ct_sent c = snd (receive_all (p_externals P) (p_crypto P) (ct_addr c) (ct_arrived c) [])"
      if "c \<in> set (nd_conns nd')" for c
      using rest_conn_sent [OF inv rest that] eof that by blast
    then have "map ct_sent (nd_conns nd') = map (\<lambda>c.
        snd (receive_all (p_externals P) (p_crypto P) (ct_addr c) (ct_arrived c) [])) (nd_conns nd')" by simp
    with rest_called [OF inv rest] show ?thesis unfolding all_sent_def by metis
  qed
  ultimately show ?thesis using n by blast
qed

theorem closed_connections_called_back_witness:
  "\<exists>n nd. (inside_step sample_params hashmap_cache hashmap_cached sample_tcp ^^ n) sample_pool nd \<and>
     mset (nd_called nd) = {#(''a'', 3, None), (''b'', 3, None)#}"
proof -
  let ?step = "inside_step sample_params hashmap_cache hashmap_cached sample_tcp"
  have zero: "(?step ^^ 0) sample_pool sample_pool" by simp
  have small: "taken_count sample_pool + node_work sample_pool < 2 ^ 64"
    by (simp add: taken_count_def node_work_def task_work_def sample_pool_def node_new_def)
  note main = closed_connections_called_back [OF sample_pool_run [unfolded sample_net_def] small]
  from main [OF zero] obtain m nd where m: "(?step ^^ m) sample_pool nd"
    and rest: "node_at_rest sample_params hashmap_cache hashmap_cached sample_tcp nd" by blast
  obtain c where c: "nd_conns nd = [c]" "ct_eof c" "ct_addr c = 3"
    "ct_arrived c = wire_frame (into_bytes ''a'') @ wire_frame (into_bytes ''b'') @ []"
    using inside_steps_conns [OF m] by (auto simp: sample_pool_def map_eq_Cons_conv)
  have "snd (receive_all E st (3 :: nat) (ct_arrived c) []) = [(''a'', 3, None), (''b'', 3, None)]" for E st
    by (simp add: c(4) receive_wire_frame [OF sample_blobs(1)] receive_short sample_texts
        receive_wire_frame [OF sample_blobs(2), where r = "[]", simplified])
  with main [OF m] rest c m show ?thesis by (intro exI [of _ m] exI [of _ nd]) simp
qed

end
