(* ===== verification/Multi_Send.thy ===== *)
theory Multi_Send
  imports Api_Invariants
begin

text \<open>
  \<open>multi_send_with_header\<close> against its reference, \<open>send_with_header\<close> once per pair of a host and
  a port: it resolves all addresses first and builds and signs one frame for all, but what it
  leaves behind, when it returns, is the same.
\<close>

section \<open>Putting a frame into the channel\<close>

text \<open>One frame queued for each address, with tokens, increments and waiting tasks.\<close>

definition queue_all :: "u8 list \<Rightarrow> 'addr list \<Rightarrow> ('addr, 's, 'c, 'w) shardus_net \<Rightarrow> ('addr, 's, 'c, 'w) shardus_net" where
  "queue_all f as n =
     (let k = length as; ts = [n_next_token n..<n_next_token n + k]
      in n\<lparr>n_stats := (increment_outstanding_sends ^^ k) (n_stats n),
           n_next_token := n_next_token n + k,
           n_waiters := n_waiters n @ map (\<lambda>t. (t, True)) ts,
           n_sender := (n_sender n)\<lparr>ss_send_channel :=
             ss_send_channel (n_sender n) @ map (\<lambda>(a, t). (a, f, t)) (zip as ts)\<rparr>\<rparr>)"

lemma queue_all_Nil [simp]: "queue_all f [] n = n"
  by (simp add: queue_all_def)

lemma queue_all_Cons: "queue_all f (a # as) n = queue_all f as (queue_all f [a] n)"
  by (simp add: queue_all_def Let_def upt_conv_Cons funpow_swap1 del: upt_Suc)

lemma key_pair_queue_all [simp]: "n_key_pair (queue_all f as n) = n_key_pair n"
  by (simp add: queue_all_def Let_def)

lemma drop_senders_Nil [simp]: "drop_senders [] n = n"
  by (simp add: drop_senders_def)

lemma drop_senders_aborts: "n_key_pair (drop_senders ts n) = n_key_pair n"
  by (simp add: drop_senders_def)

text \<open>When \<open>send_with_header\<close> returns, and with what.\<close>

definition frame_for ::
    "'addr net_params \<Rightarrow> KeyPair \<Rightarrow> js_number \<Rightarrow> string \<Rightarrow> string \<Rightarrow> u8 list option" where
  "frame_for P kp hv hs ds =
     (case header_from_json_string (p_serde P) hs (as_u8 hv) of
        None \<Rightarrow> None
      | Some hdr \<Rightarrow>
          (case build_frame (p_externals P) (p_crypto P) kp (as_u8 hv) hdr (into_bytes ds) of
             Inl _ \<Rightarrow> None | Inr f \<Rightarrow> Some f))"

definition first_address :: "'addr net_params \<Rightarrow> string \<Rightarrow> js_number \<Rightarrow> 'addr option" where
  "first_address P host port = (case p_resolve P host (as_u16 port) of Some (a # _) \<Rightarrow> Some a | _ \<Rightarrow> None)"

lemma first_address_eq_Some:
  "first_address P host port = Some a \<longleftrightarrow> (\<exists>as. p_resolve P host (as_u16 port) = Some (a # as))"
  by (auto simp: first_address_def split: option.splits list.splits)

lemma send_with_header_returns_iff:
  "returned (fst (api_send_with_header P port host hv hs ds n)) \<longleftrightarrow>
     frame_for P (n_key_pair n) hv hs ds \<noteq> None \<and> first_address P host port \<noteq> None"
  by (auto simp: api_send_with_header_def frame_for_def first_address_def new_token_def modify_stats_def
      spawn_waiter_def Let_def sender_send_with_header_def rbind_def split: option.splits list.splits sum.splits)

lemma send_with_header_returns:
  assumes "frame_for P (n_key_pair n) hv hs ds = Some f" "first_address P host port = Some a"
  shows "api_send_with_header P port host hv hs ds n = (Js_return (), queue_all f [a] n)"
  using assms
  by (auto simp: api_send_with_header_def frame_for_def first_address_eq_Some new_token_def modify_stats_def
      spawn_waiter_def Let_def sender_send_with_header_def rbind_def queue_all_def
      split: option.splits sum.splits)

lemma failed_send_queues_nothing:
  assumes "\<not> returned (fst (api_send_with_header P port host hv hs ds n))"
  shows "n_sender (snd (api_send_with_header P port host hv hs ds n)) = n_sender n"
  using assms
  by (auto simp: api_send_with_header_def new_token_def modify_stats_def spawn_waiter_def drop_senders_def
      Let_def returned_def split: option.splits list.splits sum.splits)

lemma resolve_all_return:
  "resolve_all P hps = Js_return as \<longleftrightarrow>
     list_all2 (\<lambda>(host, port) a. \<exists>more. p_resolve P host port = Some (a # more)) hps as"
proof (induction hps arbitrary: as)
  case Nil
  then show ?case by auto
next
  case (Cons hp hps)
  obtain host port where hp: "hp = (host, port)" by fastforce
  have "resolve_all P (hp # hps) = Js_return as \<longleftrightarrow>
      (\<exists>a more as'. p_resolve P host port = Some (a # more) \<and> resolve_all P hps = Js_return as' \<and> as = a # as')"
    by (auto simp: hp split: option.split list.split js_outcome.split)
  then show ?case by (simp add: Cons.IH hp list_all2_Cons1) blast
qed

text \<open>
  The flag \<open>await_processing\<close> of a multi-send is the flag of the tasks it adds; those of
  \<open>send_with_header\<close> always count the send off and call back.
\<close>

definition flag_new ::
    "bool \<Rightarrow> ('addr, 's, 'c, 'w) shardus_net \<Rightarrow> ('addr, 's, 'c, 'w) shardus_net \<Rightarrow> ('addr, 's, 'c, 'w) shardus_net" where
  "flag_new await n n' = n'\<lparr>n_waiters := n_waiters n @
     map (\<lambda>(t, _). (t, await)) (drop (length (n_waiters n)) (n_waiters n'))\<rparr>"

lemma flag_new_queue_all:
  "flag_new await n (queue_all f as n) = (queue_all f as n)\<lparr>n_waiters := n_waiters n @
     map (\<lambda>t. (t, await)) [n_next_token n..<n_next_token n + length as]\<rparr>"
  by (simp add: flag_new_def queue_all_def Let_def split_def comp_def)

lemma multi_send_returns_iff:
  assumes "length ports = length hosts"
  shows "api_multi_send_with_header P ports hosts hv hs ds await n = (Js_return (), n') \<longleftrightarrow>
    hosts \<noteq> [] \<and> (\<exists>f as. frame_for P (n_key_pair n) hv hs ds = Some f \<and>
      resolve_all P (zip hosts (map as_u16 ports)) = Js_return as \<and> n' = flag_new await n (queue_all f as n))"
proof (cases "header_from_json_string (p_serde P) hs (as_u8 hv)")
  case None
  then show ?thesis by (simp add: api_multi_send_with_header_def frame_for_def Let_def)
next
  case (Some hdr)
  let ?m = "modify_stats (increment_outstanding_sends ^^ length ports) n"
  obtain ts n1 where nt: "new_tokens (length hosts) ?m = (ts, n1)" by fastforce
  have ts: "ts = [n_next_token n..<n_next_token n + length hosts]"
    and n1: "n1 = ?m\<lparr>n_next_token := n_next_token n + length hosts\<rparr>"
    using new_tokens_spec [OF nt] by (auto simp: modify_stats_def)
  have len: "length as = length hosts" if "resolve_all P (zip hosts (map as_u16 ports)) = Js_return as" for as
    using length_resolve_all [OF that] assms by simp
  show ?thesis
  proof (cases "resolve_all P (zip hosts (map as_u16 ports))")
    case (Js_return as)
    then have "length as = length hosts" using len by simp
    with Some Js_return nt n1 ts assms show ?thesis
      by (cases "build_frame (p_externals P) (p_crypto P) (n_key_pair n) (as_u8 hv) hdr (into_bytes ds)")
        (auto simp: api_multi_send_with_header_def frame_for_def Let_def fold_spawn modify_stats_def
          sender_multi_send_with_header_def rbind_def queue_all_def flag_new_def split_def comp_def)
  qed (use Some nt in \<open>simp_all add: api_multi_send_with_header_def Let_def\<close>)
qed

section \<open>The reference\<close>

text \<open>One call after the other, for as long as they return.\<close>

fun send_each ::
    "'addr net_params \<Rightarrow> (string \<times> js_number) list \<Rightarrow> js_number \<Rightarrow> string \<Rightarrow> string \<Rightarrow>
     ('addr, 's, 'c, 'w) shardus_net \<Rightarrow> ('addr, 's, 'c, 'w) shardus_net option" where
  "send_each P [] hv hs ds n = Some n"
| "send_each P ((host, port) # rest) hv hs ds n =
     (case api_send_with_header P port host hv hs ds n of
        (Js_return _, n') \<Rightarrow> send_each P rest hv hs ds n'
      | _ \<Rightarrow> None)"

lemma send_each_queues:
  assumes "frame_for P (n_key_pair n) hv hs ds = Some f"
  shows "send_each P hps hv hs ds n = Some n' \<longleftrightarrow>
    (\<exists>as. list_all2 (\<lambda>(host, port) a. first_address P host port = Some a) hps as \<and> n' = queue_all f as n)"
  using assms
proof (induction hps arbitrary: n)
  case Nil
  then show ?case by auto
next
  case (Cons hp hps)
  obtain host port where hp: "hp = (host, port)" by fastforce
  show ?case
  proof (cases "first_address P host port")
    case None
    then have "\<not> returned (fst (api_send_with_header P port host hv hs ds n))"
      by (simp add: send_with_header_returns_iff)
    with None hp show ?thesis
      by (cases "api_send_with_header P port host hv hs ds n")
        (auto simp: list_all2_Cons1 returned_def split: js_outcome.splits)
  next
    case (Some a)
    then have "send_each P (hp # hps) hv hs ds n = send_each P hps hv hs ds (queue_all f [a] n)"
      by (simp add: hp send_with_header_returns [OF Cons.prems])
    also have "\<dots> = Some n' \<longleftrightarrow> (\<exists>as. list_all2 (\<lambda>(host, port) a. first_address P host port = Some a) hps as \<and>
        n' = queue_all f (a # as) n)"
      using Cons.IH [of "queue_all f [a] n"] Cons.prems by (simp add: queue_all_Cons [symmetric])
    also have "\<dots> \<longleftrightarrow> (\<exists>as. list_all2 (\<lambda>(host, port) a. first_address P host port = Some a) (hp # hps) as \<and>
        n' = queue_all f as n)"
      by (auto simp: hp Some list_all2_Cons1)
    finally show ?thesis .
  qed
qed

section \<open>Properties\<close>

text \<open>
  C32. A multi-send is a series of sends: for as many ports as hosts, the call returns exactly when
  there is a host and \<open>send_with_header\<close> would return for every pair, and then it has left the
  object as these calls, one after the other, would - the same frames for the same addresses
  under the same oneshots, as many waiting tasks and the same counter - except that its waiting
  tasks have the flag \<open>await_processing\<close> of the call; although it signs only once.
\<close>

theorem multi_send_is_series:
  assumes "length ports = length hosts"
  shows "api_multi_send_with_header P ports hosts hv hs ds await n = (Js_return (), n') \<longleftrightarrow>
    hosts \<noteq> [] \<and> (\<exists>m. send_each P (zip hosts ports) hv hs ds n = Some m \<and> n' = flag_new await n m)"
proof (cases "hosts = []")
  case True
  then show ?thesis using multi_send_returns_iff [OF assms] by blast
next
  case False
  show ?thesis
  proof (cases "frame_for P (n_key_pair n) hv hs ds")
    case None
    obtain host port rest where z: "zip hosts ports = (host, port) # rest"
      using assms False by (cases hosts; cases ports) auto
    have "\<not> returned (fst (api_send_with_header P port host hv hs ds n))"
      using None by (simp add: send_with_header_returns_iff)
    then have "send_each P (zip hosts ports) hv hs ds n = None"
      by (cases "api_send_with_header P port host hv hs ds n")
        (auto simp: z returned_def split: js_outcome.splits)
    with None show ?thesis by (simp add: multi_send_returns_iff [OF assms])
  next
    case (Some f)
    have "list_all2 (\<lambda>(host, port) a. first_address P host port = Some a) (zip hosts ports) as \<longleftrightarrow>
        resolve_all P (zip hosts (map as_u16 ports)) = Js_return as" for as
      unfolding resolve_all_return zip_map2 list_all2_map1
      by (simp add: first_address_eq_Some case_prod_unfold)
    with Some show ?thesis
      by (auto simp: multi_send_returns_iff [OF assms] send_each_queues [OF Some])
  qed
qed

theorem multi_send_is_series_witness:
  "\<exists>m. api_multi_send_with_header sample_params [Finite 5, Finite 6] [''a'', ''b''] (Finite 1) ''header''
       ''x'' False sample_net = (Js_return (), flag_new False sample_net m) \<and>
     send_each sample_params [(''a'', Finite 5), (''b'', Finite 6)] (Finite 1) ''header'' ''x'' sample_net = Some m \<and>
     n_waiters m = [(0, True), (1, True)] \<and> n_waiters (flag_new False sample_net m) = [(0, False), (1, False)]"
proof -
  obtain f where "build_frame (p_externals sample_params) (p_crypto sample_params) sample_keys
      (as_u8 (Finite 1)) (V1 sample_parsed) (into_bytes ''x'') = Inr f"
    using sample_frame by blast
  then have f: "frame_for sample_params (n_key_pair sample_net) (Finite 1) ''header'' ''x'' = Some f"
    by (simp add: frame_for_def sample_header_parses sample_net_def shardus_net_new_def)
  have as: "list_all2 (\<lambda>(host, port) a. first_address sample_params host port = Some a)
      [(''a'', Finite 5), (''b'', Finite 6)] [5, 6]"
    by (simp add: first_address_def sample_params_def as_u16_def as_unsigned_def)
  then have e: "send_each sample_params [(''a'', Finite 5), (''b'', Finite 6)] (Finite 1) ''header'' ''x'' sample_net =
      Some (queue_all f [5, 6] sample_net)"
    using send_each_queues [OF f] by blast
  have "length [Finite 5, Finite 6] = length [''a'', ''b'']" by simp
  note multi_send_is_series [OF this, of sample_params "Finite 1" "''header''" "''x''" False sample_net
      "flag_new False sample_net (queue_all f [5, 6] sample_net)"]
  moreover have "n_waiters (queue_all f [5, 6] sample_net) = [(0, True), (1, True)]"
    "n_waiters (flag_new False sample_net (queue_all f [5, 6] sample_net)) = [(0, False), (1, False)]"
    by (simp_all add: flag_new_queue_all, simp_all add: queue_all_def sample_net_def shardus_net_new_def)
  ultimately show ?thesis using e by auto
qed

end
