(* ===== verification/Conversation.thy ===== *)
theory Conversation
  imports Sender_To_Listener Node_Receive Multi_Send
begin

text \<open>
  From JavaScript to JavaScript: what one object's calls said, and what the connections of
  another node hear, when the bytes of a stream of the one are what has arrived at the other.
\<close>

section \<open>What the calls say\<close>

datatype said = Said_plain string | Said_with_header HeaderV1 string

text \<open>A call that returns has said its text to the addresses it resolved.\<close>

definition says_send :: "'addr net_params \<Rightarrow> js_number \<Rightarrow> string \<Rightarrow> string \<Rightarrow> unit js_outcome \<Rightarrow> ('addr \<times> said) list" where
  "says_send P port host data r =
     (case p_resolve P host (as_u16 port) of
        Some (a # _) \<Rightarrow> if returned r then [(a, Said_plain data)] else [] | _ \<Rightarrow> [])"

definition says_with_header ::
    "'addr net_params \<Rightarrow> js_number \<Rightarrow> string \<Rightarrow> js_number \<Rightarrow> string \<Rightarrow> string \<Rightarrow> unit js_outcome \<Rightarrow> ('addr \<times> said) list" where
  "says_with_header P port host hv hs ds r =
     (case (header_from_json_string (p_serde P) hs (as_u8 hv), p_resolve P host (as_u16 port)) of
        (Some (V1 h), Some (a # _)) \<Rightarrow> if returned r then [(a, Said_with_header h ds)] else [] | _ \<Rightarrow> [])"

definition says_multi ::
    "'addr net_params \<Rightarrow> js_number list \<Rightarrow> string list \<Rightarrow> js_number \<Rightarrow> string \<Rightarrow> string \<Rightarrow> unit js_outcome \<Rightarrow>
     ('addr \<times> said) list" where
  "says_multi P ports hosts hv hs ds r =
     (case (header_from_json_string (p_serde P) hs (as_u8 hv), resolve_all P (zip hosts (map as_u16 ports))) of
        (Some (V1 h), Js_return as) \<Rightarrow> if returned r then map (\<lambda>a. (a, Said_with_header h ds)) as else []
      | _ \<Rightarrow> [])"

text \<open>Runs of an object, with what its calls said.\<close>

inductive api_says ::
    "'addr net_params \<Rightarrow> ('addr, 's, 'c) cache_ops \<Rightarrow> ('c \<Rightarrow> arc \<Rightarrow> bool) \<Rightarrow> ('addr, 's, 'w) tcp \<Rightarrow>
     ('addr, 's, 'c, 'w) shardus_net \<Rightarrow> ('addr \<times> said) list \<Rightarrow> ('addr, 's, 'c, 'w) shardus_net \<Rightarrow> bool"
  for P C cached T n where
  start: "api_says P C cached T n [] n"
| send: "api_says P C cached T n talk n1 \<Longrightarrow> api_send P port host data n1 = (r, n2) \<Longrightarrow>
     api_says P C cached T n (talk @ says_send P port host data r) n2"
| header: "api_says P C cached T n talk n1 \<Longrightarrow> api_send_with_header P port host hv hs ds n1 = (r, n2) \<Longrightarrow>
     api_says P C cached T n (talk @ says_with_header P port host hv hs ds r) n2"
| multi: "api_says P C cached T n talk n1 \<Longrightarrow>
     api_multi_send_with_header P ports hosts hv hs ds await n1 = (r, n2) \<Longrightarrow>
     api_says P C cached T n (talk @ says_multi P ports hosts hv hs ds r) n2"
| evict: "api_says P C cached T n talk n1 \<Longrightarrow> api_evict_socket P port host n1 = (r, n2) \<Longrightarrow>
     api_says P C cached T n talk n2"
| task: "api_says P C cached T n talk n1 \<Longrightarrow> sender_step C cached T (n_sender n1) e ss \<Longrightarrow>
     e = Internal \<or> e = Stall \<Longrightarrow>
     api_says P C cached T n talk (n1\<lparr>n_sender := ss\<rparr>)"
| complete: "api_says P C cached T n talk n1 \<Longrightarrow> complete_send P k n1 = Some n2 \<Longrightarrow>
     api_says P C cached T n talk n2"

section \<open>What goes into the channel\<close>

fun said_frame :: "'addr net_params \<Rightarrow> KeyPair \<Rightarrow> said \<Rightarrow> u8 list \<Rightarrow> bool" where
  "said_frame P kp (Said_plain s) f \<longleftrightarrow> f = into_bytes s"
| "said_frame P kp (Said_with_header h s) f \<longleftrightarrow>
     build_frame (p_externals P) (p_crypto P) kp 1 (V1 h) (into_bytes s) = Inr f"

definition frames_of :: "'addr net_params \<Rightarrow> KeyPair \<Rightarrow> ('addr \<times> said) list \<Rightarrow> 'addr send_item list \<Rightarrow> bool" where
  "frames_of P kp talk items \<longleftrightarrow> (\<forall>(a, f, t) \<in> set items. \<exists>x. (a, x) \<in> set talk \<and> said_frame P kp x f)"

lemma frames_of_Nil [simp]: "frames_of P kp talk []"
  by (simp add: frames_of_def)

lemma frames_of_append: "frames_of P kp talk items \<Longrightarrow> frames_of P kp talk' items' \<Longrightarrow> frames_of P kp (talk @ talk') (items @ items')"
  by (fastforce simp: frames_of_def)

text \<open>A call leaves the sender as it was but for frames of what it said at the end of the channel.\<close>

definition call_says ::
    "'addr net_params \<Rightarrow> ('addr \<times> said) list \<Rightarrow> ('addr, 's, 'c, 'w) shardus_net \<Rightarrow>
     ('addr, 's, 'c, 'w) shardus_net \<Rightarrow> bool" where
  "call_says P talk n n' \<longleftrightarrow> n_key_pair n' = n_key_pair n \<and>
     (\<exists>items. n_sender n' = (n_sender n)\<lparr>ss_send_channel := ss_send_channel (n_sender n) @ items\<rparr> \<and>
        frames_of P (n_key_pair n) talk items)"

lemma call_says_nothing: "n_key_pair n' = n_key_pair n \<Longrightarrow> n_sender n' = n_sender n \<Longrightarrow> call_says P talk n n'"
  unfolding call_says_def by (intro conjI exI [of _ "[]"]) simp_all

lemma header_version_one:
  "header_from_json_string sd hs v = Some hdr \<Longrightarrow> v = 1 \<and> (\<exists>h. hdr = V1 h)"
  by (cases hdr) (auto simp: header_from_json_string_def split: if_splits)

lemma api_send_says:
  assumes "api_send P port host data n = (r, n')"
  shows "call_says P (says_send P port host data r) n n'"
proof (cases "first_address P host port")
  case None
  with assms show ?thesis
    by (intro call_says_nothing) (auto simp: api_send_def first_address_def call_frame Let_def new_token_def
      spawn_waiter_def modify_stats_def drop_senders_def split: option.splits list.splits)
next
  case (Some a)
  then obtain as where "p_resolve P host (as_u16 port) = Some (a # as)" by (auto simp: first_address_eq_Some)
  with assms show ?thesis
    by (auto simp: call_says_def api_send_def says_send_def Let_def new_token_def spawn_waiter_def modify_stats_def
        sender_send_def frames_of_def)
qed

lemma api_send_with_header_says:
  assumes "api_send_with_header P port host hv hs ds n = (r, n')"
  shows "call_says P (says_with_header P port host hv hs ds r) n n'"
proof (cases "frame_for P (n_key_pair n) hv hs ds = None \<or> first_address P host port = None")
  case True
  with assms show ?thesis
    by (intro call_says_nothing) (auto simp: api_send_with_header_def frame_for_def first_address_def new_token_def
      modify_stats_def spawn_waiter_def drop_senders_def Let_def sender_send_with_header_def rbind_def
      split: option.splits list.splits sum.splits)
next
  case False
  then obtain f a where f: "frame_for P (n_key_pair n) hv hs ds = Some f" and a: "first_address P host port = Some a"
    by auto
  then obtain as hdr where as: "p_resolve P host (as_u16 port) = Some (a # as)"
    and hdr: "header_from_json_string (p_serde P) hs (as_u8 hv) = Some hdr"
    "build_frame (p_externals P) (p_crypto P) (n_key_pair n) (as_u8 hv) hdr (into_bytes ds) = Inr f"
    by (auto simp: first_address_eq_Some frame_for_def split: option.splits sum.splits)
  obtain h where h: "as_u8 hv = 1" "hdr = V1 h" using header_version_one [OF hdr(1)] by blast
  have "r = Js_return ()" "n' = queue_all f [a] n"
    using send_with_header_returns [OF f a] assms by simp_all
  then show ?thesis
    using as hdr h by (auto simp: call_says_def says_with_header_def returned_def queue_all_def Let_def frames_of_def)
qed

lemma api_multi_says:
  assumes "api_multi_send_with_header P ports hosts hv hs ds await n = (r, n')"
  shows "call_says P (says_multi P ports hosts hv hs ds r) n n'"
proof -
  let ?m = "modify_stats (increment_outstanding_sends ^^ length ports) n"
  obtain ts n1 where nt: "new_tokens (length hosts) ?m = (ts, n1)" by fastforce
  have n1: "n_sender n1 = n_sender n" "n_key_pair n1 = n_key_pair n"
    using new_tokens_spec [OF nt] by (auto simp: modify_stats_def)
  show ?thesis
  proof (cases "header_from_json_string (p_serde P) hs (as_u8 hv)")
    case None
    with assms show ?thesis
      by (intro call_says_nothing) (auto simp: api_multi_send_with_header_def modify_stats_def)
  next
    case (Some hdr)
    obtain h where h: "as_u8 hv = 1" "hdr = V1 h" using header_version_one [OF Some] by blast
    show ?thesis
    proof (cases "\<exists>as f. resolve_all P (zip hosts (map as_u16 ports)) = Js_return as \<and> as \<noteq> [] \<and>
        build_frame (p_externals P) (p_crypto P) (n_key_pair n) (as_u8 hv) hdr (into_bytes ds) = Inr f")
      case False
      with assms Some nt n1 show ?thesis
        by (intro call_says_nothing) (auto simp: api_multi_send_with_header_def Let_def fold_spawn drop_senders_def
          sender_multi_send_with_header_def rbind_def split: js_outcome.splits if_splits sum.splits)
    next
      case True
      then obtain as f where as: "resolve_all P (zip hosts (map as_u16 ports)) = Js_return as" "as \<noteq> []"
        and f: "build_frame (p_externals P) (p_crypto P) (n_key_pair n) (as_u8 hv) hdr (into_bytes ds) = Inr f"
        by blast
      let ?items = "map2 (\<lambda>a t. (a, f, t)) as ts"
      have "r = Js_return ()" "n_key_pair n' = n_key_pair n"
        "n_sender n' = (n_sender n)\<lparr>ss_send_channel := ss_send_channel (n_sender n) @ ?items\<rparr>"
        using assms Some nt n1 as f
        by (auto simp: api_multi_send_with_header_def Let_def fold_spawn drop_senders_def
            sender_multi_send_with_header_def)
      moreover have "frames_of P (n_key_pair n) (map (\<lambda>a. (a, Said_with_header h ds)) as) ?items"
        using f h by (auto simp: frames_of_def dest: set_zip_leftD intro!: exI [of _ "Said_with_header h ds"])
      ultimately show ?thesis
        using Some as(1) h unfolding call_says_def by (auto simp: says_multi_def returned_def)
    qed
  qed
qed

section \<open>Runs\<close>

context connection_cache
begin

definition says_inv :: "('s, 'w) observe \<Rightarrow> 'addr net_params \<Rightarrow> KeyPair \<Rightarrow> ('addr \<times> said) list \<Rightarrow>
    ('addr, 's, 'c, 'w) shardus_net \<Rightarrow> bool" where
  "says_inv V P kp talk n \<longleftrightarrow> n_key_pair n = kp \<and> sender_inv V (n_sender n) \<and>
     (\<exists>items. routed V items (n_sender n) \<and> frames_of P kp talk items)"

lemma says_inv_call:
  assumes "says_inv V P kp talk n" "call_says P says n n'"
  shows "says_inv V P kp (talk @ says) n'"
proof -
  obtain items where i: "routed V items (n_sender n)" "frames_of P kp talk items" "n_key_pair n = kp"
    "sender_inv V (n_sender n)"
    using assms(1) by (auto simp: says_inv_def)
  obtain new where new: "n_sender n' = (n_sender n)\<lparr>ss_send_channel := ss_send_channel (n_sender n) @ new\<rparr>"
    "frames_of P kp says new" "n_key_pair n' = kp"
    using assms(2) i(3) by (auto simp: call_says_def)
  have "routed V (items @ new) (n_sender n)" using i(1) by (rule routed_mono) simp
  then have "routed V (items @ new) (n_sender n')" using i(1) by (auto simp: routed_def new(1))
  moreover have "sender_inv V (n_sender n')"
    using i(4) by (simp add: new(1) sender_inv_def tasks_ok_def sockets_ok_def)
  ultimately show ?thesis
    using new(3) frames_of_append [OF i(2) new(2)] unfolding says_inv_def by blast
qed

lemma routed_notified:
  assumes r: "routed V items ss" and ns: "set ns \<subseteq> set (ss_notified ss)"
  shows "routed V items (ss\<lparr>ss_notified := ns, ss_evict_channel := evs\<rparr>)"
proof -
  have "\<forall>(t, r) \<in> set ns. \<forall>err. r = Inl err \<longrightarrow> (\<exists>d. (error_address err, d, t) \<in> set items)"
    using r ns unfolding routed_def by blast
  with r show ?thesis by (simp add: routed_def)
qed

lemma says_inv_same:
  assumes "says_inv V P kp talk n" "n_key_pair n' = n_key_pair n"
    "\<exists>ns evs. n_sender n' = (n_sender n)\<lparr>ss_notified := ns, ss_evict_channel := evs\<rparr> \<and>
       set ns \<subseteq> set (ss_notified (n_sender n))"
  shows "says_inv V P kp talk n'"
proof -
  obtain ns evs where n': "n_sender n' = (n_sender n)\<lparr>ss_notified := ns, ss_evict_channel := evs\<rparr>"
    "set ns \<subseteq> set (ss_notified (n_sender n))" using assms(3) by blast
  obtain items where i: "routed V items (n_sender n)" "frames_of P kp talk items"
    and inv: "n_key_pair n = kp" "sender_inv V (n_sender n)"
    using assms(1) by (auto simp: says_inv_def)
  have "routed V items (n_sender n')" unfolding n'(1) by (rule routed_notified [OF i(1) n'(2)])
  moreover have "sender_inv V (n_sender n')"
    using inv(2) by (simp add: n'(1) sender_inv_def tasks_ok_def sockets_ok_def)
  ultimately show ?thesis using i(2) inv(1) assms(2) by (auto simp: says_inv_def)
qed

lemma complete_send_sender:
  assumes "complete_send P k n = Some n'"
  shows "n_key_pair n' = n_key_pair n \<and> (\<exists>ns evs. n_sender n' = (n_sender n)\<lparr>ss_notified := ns, ss_evict_channel := evs\<rparr> \<and>
    set ns \<subseteq> set (ss_notified (n_sender n)))"
proof -
  let ?ns = "take k (ss_notified (n_sender n)) @ drop (Suc k) (ss_notified (n_sender n))"
  have "n_key_pair n' = n_key_pair n \<and> n_sender n' = (n_sender n)\<lparr>ss_notified := ?ns\<rparr>"
    using assms by (auto simp: complete_send_def Let_def split: if_splits prod.splits option.splits sum.splits)
  moreover have "set ?ns \<subseteq> set (ss_notified (n_sender n))" by (auto dest: in_set_takeD in_set_dropD)
  ultimately show ?thesis
    by (intro conjI exI [of _ ?ns] exI [of _ "ss_evict_channel (n_sender n)"]) simp_all
qed

lemma evict_socket_sender:
  assumes "api_evict_socket P port host n = (r, n')"
  shows "n_key_pair n' = n_key_pair n \<and> (\<exists>ns evs. n_sender n' = (n_sender n)\<lparr>ss_notified := ns, ss_evict_channel := evs\<rparr> \<and>
    set ns \<subseteq> set (ss_notified (n_sender n)))"
proof -
  have "n_key_pair n' = n_key_pair n \<and> (\<exists>evs. n_sender n' = (n_sender n)\<lparr>ss_evict_channel := evs\<rparr>)"
    using assms by (auto simp: api_evict_socket_def sender_evict_socket_def split: option.splits list.splits
        intro: exI [of _ "ss_evict_channel (n_sender n)"])
  then obtain evs where "n_key_pair n' = n_key_pair n" "n_sender n' = (n_sender n)\<lparr>ss_evict_channel := evs\<rparr>" by blast
  then show ?thesis by (intro conjI exI [of _ "ss_notified (n_sender n)"] exI [of _ evs]) simp_all
qed

lemma api_says_inv:
  assumes T: "tcp_lawful V T" and cached: "\<And>c i. holds c i \<Longrightarrow> cached c i"
  shows "api_says P ops cached T n talk n' \<Longrightarrow> says_inv V P kp [] n \<Longrightarrow> says_inv V P kp talk n'"
proof (induction rule: api_says.induct)
  case (task talk n1 e ss)
  from task.IH [OF task.prems] obtain items where i: "routed V items (n_sender n1)" "frames_of P kp talk items"
    and inv: "n_key_pair n1 = kp" "sender_inv V (n_sender n1)"
    unfolding says_inv_def by blast
  from routed_step [OF T inv(2) i(1) task.hyps(2)] task.hyps(3) have "routed V items ss" by auto
  moreover have "sender_inv V ss" using sender_step_inv [of V T cached, OF T cached task.hyps(2) inv(2)] .
  ultimately show ?case using i(2) inv(1) unfolding says_inv_def by auto
next
  case (send talk n1 port host data r n2)
  show ?case by (rule says_inv_call [OF send.IH [OF send.prems] api_send_says [OF send.hyps(2)]])
next
  case (header talk n1 port host hv hs ds r n2)
  show ?case by (rule says_inv_call [OF header.IH [OF header.prems] api_send_with_header_says [OF header.hyps(2)]])
next
  case (multi talk n1 ports hosts hv hs ds await r n2)
  show ?case by (rule says_inv_call [OF multi.IH [OF multi.prems] api_multi_says [OF multi.hyps(2)]])
next
  case (evict talk n1 port host r n2)
  have e: "n_key_pair n2 = n_key_pair n1" "\<exists>ns evs. n_sender n2 = (n_sender n1)\<lparr>ss_notified := ns, ss_evict_channel := evs\<rparr> \<and>
    set ns \<subseteq> set (ss_notified (n_sender n1))"
    using evict_socket_sender [OF evict.hyps(2)] by auto
  show ?case by (rule says_inv_same [OF evict.IH [OF evict.prems] e])
next
  case (complete talk n1 k n2)
  have e: "n_key_pair n2 = n_key_pair n1" "\<exists>ns evs. n_sender n2 = (n_sender n1)\<lparr>ss_notified := ns, ss_evict_channel := evs\<rparr> \<and>
    set ns \<subseteq> set (ss_notified (n_sender n1))"
    using complete_send_sender [OF complete.hyps(2)] by auto
  show ?case by (rule says_inv_same [OF complete.IH [OF complete.prems] e])
qed simp

lemma says_inv_stream:
  assumes inv: "says_inv V P kp talk n"
    and conn: "h_conns (ss_heap (n_sender n)) i = Some conn" "c_socket conn = Some s"
      "s \<notin> o_broken V (ss_world (n_sender n))"
    and pending: "pending = [] \<or> (\<exists>d t. (i, d, t) \<in> set (ss_tasks (n_sender n)) \<and> pending = wire_frame d)"
  shows "\<exists>gs. o_wire V (ss_world (n_sender n)) s @ pending = concat (map wire_frame gs) \<and>
    (\<forall>g \<in> set gs. \<exists>x. (c_address conn, x) \<in> set talk \<and> said_frame P kp x g)"
proof -
  obtain items where r: "routed V items (n_sender n)" and fo: "frames_of P kp talk items"
    using inv unfolding says_inv_def by blast
  have "carries V items (ss_world (n_sender n)) conn" using r conn(1) by (simp add: routed_def)
  then obtain gs where gs: "o_wire V (ss_world (n_sender n)) s = concat (map wire_frame gs)"
    "\<forall>g \<in> set gs. \<exists>t. (c_address conn, g, t) \<in> set items"
    using conn(2,3) unfolding carries_def by blast
  have task: "\<exists>t. (c_address conn, d, t) \<in> set items" if "(i, d, t) \<in> set (ss_tasks (n_sender n))" for d t
  proof -
    have "\<exists>conn. h_conns (ss_heap (n_sender n)) i = Some conn \<and> (c_address conn, d, t) \<in> set items"
      using r that unfolding routed_def by fast
    with conn(1) show ?thesis by auto
  qed
  have "\<exists>gs. o_wire V (ss_world (n_sender n)) s @ pending = concat (map wire_frame gs) \<and>
      (\<forall>g \<in> set gs. \<exists>t. (c_address conn, g, t) \<in> set items)"
    using pending
  proof (elim disjE exE conjE)
    assume "pending = []"
    with gs show ?thesis by (intro exI [of _ gs]) simp
  next
    fix d t assume "(i, d, t) \<in> set (ss_tasks (n_sender n))" "pending = wire_frame d"
    with gs task [of d t] show ?thesis by (intro exI [of _ "gs @ [d]"]) simp
  qed
  then obtain hs where hs: "o_wire V (ss_world (n_sender n)) s @ pending = concat (map wire_frame hs)"
    "\<forall>g \<in> set hs. \<exists>t. (c_address conn, g, t) \<in> set items" by blast
  have "\<exists>x. (c_address conn, x) \<in> set talk \<and> said_frame P kp x g" if "g \<in> set hs" for g
    using hs(2) fo that unfolding frames_of_def by fast
  with hs(1) show ?thesis by blast
qed

lemma says_inv_new: "invar c \<Longrightarrow> view c = Map.empty \<Longrightarrow> says_inv V P kp [] (shardus_net_new kp c w)"
  unfolding says_inv_def using sender_inv_new [of c V w] routed_new [of V c w]
  by (intro conjI exI [of _ "[]"]) (simp_all add: shardus_net_new_def)

end

section \<open>What a connection hears\<close>

text \<open>Whole frames in an initial part of a stream of frames are frames of the stream.\<close>

lemma wire_frame_not_Nil [simp]: "wire_frame f \<noteq> []"
  by (rule notI, drule arg_cong [where f = length]) (simp add: wire_frame_def)

lemma wire_frame_inj:
  assumes "wire_frame f @ x = wire_frame g @ y" "blob_ok f" "blob_ok g"
  shows "f = g \<and> x = y"
proof -
  have "fst (split_frames (wire_frame f @ x)) = fst (split_frames (wire_frame g @ y))" unfolding assms(1) ..
  then have "f = g"
    unfolding split_frames_wire_frame [OF assms(2)] split_frames_wire_frame [OF assms(3)] fst_conv by (rule list.inject [THEN iffD1, THEN conjunct1])
  with assms(1) show ?thesis by simp
qed

lemma frames_of_initial_part:
  "concat (map wire_frame fs) @ rest = concat (map wire_frame gs) \<Longrightarrow> \<forall>f \<in> set fs. blob_ok f \<Longrightarrow>
     \<forall>g \<in> set gs. blob_ok g \<Longrightarrow> set fs \<subseteq> set gs"
proof (induction fs arbitrary: gs)
  case (Cons f fs)
  then obtain g gs' where gs: "gs = g # gs'" by (cases gs) simp_all
  with Cons.prems have "wire_frame f @ (concat (map wire_frame fs) @ rest) = wire_frame g @ concat (map wire_frame gs')"
    by simp
  from wire_frame_inj [OF this] Cons.prems gs have "f = g"
    "concat (map wire_frame fs) @ rest = concat (map wire_frame gs')" by simp_all
  with Cons.IH [of gs'] Cons.prems gs show ?case by auto
qed simp

text \<open>What a task has sent on comes from frames of what has arrived.\<close>

lemma task_sent_from_arrived:
  assumes "task_ok E st c" "d \<in> set (ct_sent c)"
  shows "\<exists>f \<in> set (fst (split_frames (ct_arrived c))).
    \<exists>msg md. handle_frame E st f = Received msg md \<and> d = (msg, ct_addr c, md)"
proof -
  have "d \<in> set (snd (receive_all E st (ct_addr c) (ct_arrived c) []))"
  proof (cases "ct_end c")
    case None
    with assms(1) have "\<forall>more. receive_all E st (ct_addr c) (ct_arrived c @ more) [] =
        receive_all E st (ct_addr c) (ct_input c @ more) (ct_sent c)" by (simp add: task_ok_def)
    from spec [OF this, of "[]"]
    have "receive_all E st (ct_addr c) (ct_arrived c) [] = receive_all E st (ct_addr c) (ct_input c) (ct_sent c)"
      by simp
    with receive_extends [of E st "\<lambda>_. True" "ct_addr c" "ct_input c" "ct_sent c"] assms(2) show ?thesis by auto
  next
    case (Some e)
    with assms show ?thesis by (auto simp: task_ok_def dest: spec [of _ "[]"])
  qed
  from run_frames_delivered [OF this [unfolded receive_run_frames]] show ?thesis by simp
qed

text \<open>
  How a connection from \<open>a\<close> hears what was said.  A text with a header is heard as the text with
  its metadata; the listener skips it when its header is over the limit.  A plain text is heard
  as it is, unless its first byte is the header marker: then it is heard only if the rest of it
  encodes a message whose signature verifies, and what is heard is that message.
\<close>

fun heard :: "externals \<Rightarrow> crypto_static \<Rightarrow> KeyPair \<Rightarrow> 'addr \<Rightarrow> said \<Rightarrow> 'addr delivery \<Rightarrow> bool" where
  "heard E st kp a (Said_plain s) d \<longleftrightarrow>
     (if take 1 (into_bytes s) \<noteq> [1] then d = (s, a, None)
      else \<exists>m extra sc msg md. into_bytes s = 1 # message_serialize m @ extra \<and>
             SHARDUS_CRYPTO_INSTANCE st = Some sc \<and> message_verify (x_sodium E) sc m = Inr True \<and>
             m_data m = into_bytes msg \<and> d = (msg, a, Some md) \<and>
             rm_sign_json_string md = sign_to_json_string (m_sign m))"
| "heard E st kp a (Said_with_header h s) d \<longleftrightarrow> within_limit h \<and>
     (\<exists>md. d = (s, a, Some md) \<and> shown_metadata E st kp h s md)"

text \<open>
  Texts and headers are values of their Rust types, and no frame has 4 GiB or more.
\<close>

fun speakable :: "'addr net_params \<Rightarrow> KeyPair \<Rightarrow> said \<Rightarrow> bool" where
  "speakable P kp (Said_plain s) \<longleftrightarrow> string_ok s \<and> length s < 2 ^ 32"
| "speakable P kp (Said_with_header h s) \<longleftrightarrow> well_formed (h, s) \<and>
     (\<forall>f. said_frame P kp (Said_with_header h s) f \<longrightarrow> length f < 2 ^ 32)"

lemma said_frame_heard:
  assumes crypto: "same_crypto (p_externals P) (p_crypto P) E st kp" and x: "speakable P kp x" "said_frame P kp x f"
    and f: "handle_frame E st f = Received msg md"
  shows "heard E st kp a x (msg, a, md)"
proof (cases x)
  case (Said_plain s)
  show ?thesis
  proof (cases "take 1 (into_bytes s) = [1]")
    case False
    with x f handle_frame_text [of s E st] show ?thesis by (simp add: Said_plain)
  next
    case True
    then obtain bs where bs: "f = 1 # bs" using x(2) Said_plain by (cases "into_bytes s") auto
    then obtain md' where md: "md = Some md'"
      using f by (auto simp: handle_header_frame_Received handle_verified_Received)
    from handle_frame_authentic [OF f [unfolded md]] obtain m extra h sc where
      "f = 1 # message_serialize m @ extra" "SHARDUS_CRYPTO_INSTANCE st = Some sc"
      "message_verify (x_sodium E) sc m = Inr True" "m_data m = into_bytes msg"
      "rm_sign_json_string md' = sign_to_json_string (m_sign m)" by auto
    moreover have "f = into_bytes s" using x(2) Said_plain by simp
    ultimately have "\<exists>m extra sc msg' md''. into_bytes s = 1 # message_serialize m @ extra \<and>
        SHARDUS_CRYPTO_INSTANCE st = Some sc \<and> message_verify (x_sodium E) sc m = Inr True \<and>
        m_data m = into_bytes msg' \<and> (msg, a, md) = (msg', a, Some md'') \<and>
        rm_sign_json_string md'' = sign_to_json_string (m_sign m)"
      using md by (intro exI conjI) (assumption | simp)+
    with True show ?thesis unfolding Said_plain by simp
  qed
next
  case (Said_with_header h s)
  with x have "build_frame (p_externals P) (p_crypto P) kp 1 (V1 h) (into_bytes s) = Inr f"
    "well_formed (h, s)" "length f < 2 ^ 32" by simp_all
  note built = built_frame_handled [OF crypto this]
  have lim: "within_limit h" using built(3) f by (cases "within_limit h") simp_all
  from built(2) [OF lim] f lim show ?thesis by (auto simp: Said_with_header)
qed

lemma said_frame_blob: "speakable P kp x \<Longrightarrow> said_frame P kp x f \<Longrightarrow> blob_ok f"
  by (cases x) (auto simp: blob_ok_def)

section \<open>A small instance\<close>

text \<open>A text said to address 1, and the same bytes on a connection from address 3.\<close>

lemma sample_said:
  "\<exists>n. api_says sample_params hashmap_cache hashmap_cached sample_tcp sample_net [(1, Said_plain ''a'')] n \<and>
     h_conns (ss_heap (n_sender n)) 0 = Some \<lparr>c_address = 1, c_socket = Some 0\<rparr> \<and>
     0 \<notin> o_broken sample_view (ss_world (n_sender n)) \<and>
     o_wire sample_view (ss_world (n_sender n)) 0 = wire_frame (into_bytes ''a'')"
proof -
  let ?C = "hashmap_cache :: (nat, nat, nat \<rightharpoonup> arc) cache_ops"
  let ?says = "api_says sample_params ?C hashmap_cached sample_tcp sample_net"
  obtain r n1 where c: "api_send sample_params (Finite 1) ''here'' ''a'' sample_net = (r, n1)" by fastforce
  have r: "r = Js_return ()" and n1: "n_sender n1 = sample_start\<lparr>ss_send_channel := [(1, into_bytes ''a'', 0)]\<rparr>"
    using c by (auto simp: api_send_def sample_params_def as_u16_def as_unsigned_def Let_def new_token_def
        modify_stats_def spawn_waiter_def sender_send_def sample_net_def shardus_net_new_def sample_start_def sender_new_def)
  have "says_send sample_params (Finite 1) ''here'' ''a'' r = [(1, Said_plain ''a'')]"
    by (simp add: says_send_def sample_params_def as_u16_def as_unsigned_def r returned_def)
  with api_says.send [OF api_says.start c, of ?C hashmap_cached sample_tcp]
  have 1: "?says [(1, Said_plain ''a'')] n1" by simp
  define s2 where "s2 = sample_start\<lparr>ss_connections := [1 \<mapsto> 0],
    ss_heap := \<lparr>h_next = 1, h_conns = [0 \<mapsto> connection_new 1]\<rparr>, ss_tasks := [(0, into_bytes ''a'', 0)]\<rparr>"
  have "dispatch_next ?C (n_sender n1) = Some s2"
    by (simp add: n1 dispatch_next_def hashmap_cache_def hashmap_get_or_insert_def heap_alloc_def
        heap_empty_def s2_def sample_start_def sender_new_def)
  from api_says.task [OF 1 sender_step.dispatch [OF this] disjI1 [OF refl]]
  have 2: "?says [(1, Said_plain ''a'')] (n1\<lparr>n_sender := s2\<rparr>)" .
  have send: "connection_send sample_tcp (connection_new 1) (into_bytes ''a'') [] =
      (Inr (), \<lparr>c_address = 1, c_socket = Some 0\<rparr>, [(wire_frame (into_bytes ''a''), Good)])"
    by (simp add: connection_send_def connection_new_def write_data_to_stream_def sample_tcp_def
        sample_write_def connect_and_set_socket_if_none_def wire_frame_def)
  obtain s3 where t: "run_task sample_tcp 0 s2 = Some s3"
    and s3: "h_conns (ss_heap s3) = [0 \<mapsto> \<lparr>c_address = 1, c_socket = Some 0\<rparr>]"
      "ss_world s3 = [(wire_frame (into_bytes ''a''), Good)]"
    using send by (simp add: run_task_def s2_def sample_start_def sender_new_def)
  have "sender_step ?C hashmap_cached sample_tcp (n_sender (n1\<lparr>n_sender := s2\<rparr>)) Internal s3"
    using sender_step.run [OF t] by simp
  from api_says.task [OF 2 this disjI1 [OF refl]] s3 show ?thesis
    by (intro exI [of _ "n1\<lparr>n_sender := s2, n_sender := s3\<rparr>"]) (simp add: sample_view_def)
qed

lemma sample_heard:
  "\<exists>nd cn. node_run sample_params hashmap_cache hashmap_cached sample_tcp (node_new sample_net) nd \<and>
     taken_count nd < 2 ^ 64 \<and> nd_conns nd = [cn] \<and> ct_addr cn = 3 \<and>
     ct_arrived cn = wire_frame (into_bytes ''a'') \<and> ct_sent cn = [(''a'', 3, None)]"
proof -
  let ?step = "inside_step sample_params hashmap_cache hashmap_cached sample_tcp"
  let ?run = "node_run sample_params hashmap_cache hashmap_cached sample_tcp"
  obtain nd0 c0 where run0: "?run (node_new sample_net) nd0"
    and c0: "nd_conns nd0 = [c0]" "ct_addr c0 = 3" "ct_arrived c0 = wire_frame (into_bytes ''a'')" "ct_eof c0"
    and w0: "taken_count nd0 = 0" "node_work nd0 = length (wire_frame (into_bytes ''a'')) + 1"
    using closed_node_run [of sample_params hashmap_cache hashmap_cached sample_tcp sample_net "3 :: nat"
      "wire_frame (into_bytes ''a'')"] by (elim exE conjE)
  obtain k nd where k: "(?step ^^ k) nd0 nd"
    and rest: "node_at_rest sample_params hashmap_cache hashmap_cached sample_tcp nd"
    using inside_to_rest [of sample_params hashmap_cache hashmap_cached sample_tcp nd0] by (elim exE conjE)
  have small: "taken_count nd < 2 ^ 64"
    using inside_steps_count [OF k] w0 by (simp add: wire_frame_def)
  have run: "?run (node_new sample_net) nd" by (rule node_run_trans [OF inside_steps_run [OF k] run0])
  obtain cn where cn: "nd_conns nd = [cn]" "ct_addr cn = 3" "ct_arrived cn = wire_frame (into_bytes ''a'')" "ct_eof cn"
    using inside_steps_conns [OF k] c0 by (auto simp: map_eq_Cons_conv)
  have "node_inv sample_params nd" by (rule node_run_new_inv [OF run [unfolded sample_net_def] small])
  from rest_conn_sent [OF this rest, of cn] cn
  have "ct_sent cn = snd (receive_all (p_externals sample_params) (p_crypto sample_params) 3
      (wire_frame (into_bytes ''a'') @ []) [])" by simp
  then have "ct_sent cn = [(''a'', 3, None)]"
    unfolding receive_wire_frame [OF sample_blobs(1)] by (simp add: sample_texts receive_short)
  with run small cn show ?thesis by (intro exI conjI)
qed

section \<open>Properties\<close>

text \<open>
  C3. What JavaScript hears, JavaScript said: when an object and a node have the same hash key,
  and what has arrived on one of the node's connections is an initial part of what a healthy
  stream of one of the object's connections has carried, the frame of a write that is still
  pending there included, then every message the node's connection has handed on is how that
  connection hears something that a call of the object, which returned, said to the address of
  its connection: a text sent with a header, with exactly the metadata of that header and text,
  where the header is within the listener's limit; a plain text as it is; or, for a plain text
  that starts with the header marker, a signed message that the text itself encodes.  Strings
  are well formed and frames below 4 GiB.
\<close>

theorem heard_was_said:
  assumes T: "tcp_lawful V T" and C: "connection_cache C view invar"
    and c: "invar c" "view c = Map.empty" "covers view cached"
    and speaker: "api_says P C cached T (shardus_net_new kp c w) talk n" "\<forall>(a, x) \<in> set talk. speakable P kp x"
    and conn: "h_conns (ss_heap (n_sender n)) i = Some conn" "c_socket conn = Some s"
      "s \<notin> o_broken V (ss_world (n_sender n))"
    and pending: "pending = [] \<or> (\<exists>d t. (i, d, t) \<in> set (ss_tasks (n_sender n)) \<and> pending = wire_frame d)"
    and crypto: "same_crypto (p_externals P) (p_crypto P) (p_externals P') (p_crypto P') kp"
    and listener: "node_run P' C' cached' T' (node_new (shardus_net_new kp' c' w')) nd" "taken_count nd < 2 ^ 64"
    and cn: "cn \<in> set (nd_conns nd)" "ct_arrived cn @ rest = o_wire V (ss_world (n_sender n)) s @ pending"
  shows "\<forall>d \<in> set (ct_sent cn). \<exists>x. (c_address conn, x) \<in> set talk \<and>
    heard (p_externals P') (p_crypto P') kp (ct_addr cn) x d"
proof
  fix d assume d: "d \<in> set (ct_sent cn)"
  have cached: "\<And>c i. connection_cache.holds view c i \<Longrightarrow> cached c i"
    using c(3) by (auto simp: covers_def connection_cache.holds_def [OF C])
  have "connection_cache.says_inv view invar V P kp talk n"
    using connection_cache.api_says_inv [OF C, of V T cached, OF T cached speaker(1)
        connection_cache.says_inv_new [OF C c(1,2)]] .
  from connection_cache.says_inv_stream [OF C this conn pending] obtain gs where
    gs: "o_wire V (ss_world (n_sender n)) s @ pending = concat (map wire_frame gs)"
    and said0: "\<forall>g \<in> set gs. \<exists>x. (c_address conn, x) \<in> set talk \<and> said_frame P kp x g" by blast
  have said: "\<exists>x. (c_address conn, x) \<in> set talk \<and> speakable P kp x \<and> said_frame P kp x g" if "g \<in> set gs" for g
    using said0 that speaker(2) by fast
  have "node_inv P' nd" by (rule node_run_new_inv [OF listener])
  then have ok: "task_ok (p_externals P') (p_crypto P') cn" using cn(1) by (simp add: node_inv_def)
  define fs where "fs = fst (split_frames (ct_arrived cn))"
  from task_sent_from_arrived [OF ok d, folded fs_def] obtain f msg md where f: "f \<in> set fs"
    "handle_frame (p_externals P') (p_crypto P') f = Received msg md" "d = (msg, ct_addr cn, md)" by blast
  from split_frames_sound [of "ct_arrived cn", folded fs_def] obtain rest' where
    cut: "ct_arrived cn = concat (map wire_frame fs) @ rest'" "\<forall>f \<in> set fs. blob_ok f" by blast
  have whole: "concat (map wire_frame fs) @ (rest' @ rest) = concat (map wire_frame gs)"
    using cn(2) by (simp add: cut(1) gs flip: append_assoc)
  have "\<forall>g \<in> set gs. blob_ok g" using said said_frame_blob by blast
  from frames_of_initial_part [OF whole cut(2) this] f(1) have "f \<in> set gs" by blast
  from said [OF this] obtain x where x: "(c_address conn, x) \<in> set talk" "speakable P kp x" "said_frame P kp x f"
    by blast
  have "heard (p_externals P') (p_crypto P') kp (ct_addr cn) x d"
    unfolding f(3) by (rule said_frame_heard [OF crypto x(2,3) f(2)])
  with x(1) show "\<exists>x. (c_address conn, x) \<in> set talk \<and>
    heard (p_externals P') (p_crypto P') kp (ct_addr cn) x d" by (intro exI conjI)
qed

theorem heard_was_said_witness:
  "\<exists>n nd cn. api_says sample_params hashmap_cache hashmap_cached sample_tcp sample_net [(1, Said_plain ''a'')] n \<and>
     node_run sample_params hashmap_cache hashmap_cached sample_tcp (node_new sample_net) nd \<and>
     nd_conns nd = [cn] \<and> ct_sent cn = [(''a'', 3, None)] \<and>
     heard sample_externals sample_static sample_keys (3 :: nat) (Said_plain ''a'') (''a'', 3, None)"
proof -
  obtain n nd where said: "api_says sample_params hashmap_cache hashmap_cached sample_tcp sample_net [(1, Said_plain ''a'')] n"
    and conn: "h_conns (ss_heap (n_sender n)) 0 = Some \<lparr>c_address = 1, c_socket = Some 0\<rparr>"
      "0 \<notin> o_broken sample_view (ss_world (n_sender n))"
      "o_wire sample_view (ss_world (n_sender n)) 0 = wire_frame (into_bytes ''a'')"
    using sample_said by blast
  obtain nd cn where heard: "node_run sample_params hashmap_cache hashmap_cached sample_tcp (node_new sample_net) nd"
    "taken_count nd < 2 ^ 64" "nd_conns nd = [cn]" "ct_addr cn = 3" "ct_arrived cn = wire_frame (into_bytes ''a'')"
    "ct_sent cn = [(''a'', 3, None)]"
    using sample_heard by blast
  have crypto: "same_crypto (p_externals sample_params) (p_crypto sample_params) (p_externals sample_params)
      (p_crypto sample_params) sample_keys"
    using sample_same_crypto by (simp add: sample_params_def)
  have speak: "\<forall>(a, x) \<in> set [(1 :: nat, Said_plain ''a'')]. speakable sample_params sample_keys x"
    by (simp add: string_ok_def byte_of_def into_bytes_def)
  have cn: "cn \<in> set (nd_conns nd)" "ct_arrived cn @ [] = o_wire sample_view (ss_world (n_sender n)) 0 @ []"
    using heard(3,5) conn(3) by simp_all
  have sock: "c_socket \<lparr>c_address = 1 :: nat, c_socket = Some 0\<rparr> = Some (0 :: nat)" by simp
  note main = heard_was_said [OF sample_tcp_lawful hm.connection_cache_axioms TrueI refl hashmap_covers
      said [unfolded sample_net_def] speak conn(1) sock conn(2) disjI1 [OF refl] crypto heard(1) [unfolded sample_net_def] heard(2) cn]
  have "heard (p_externals sample_params) (p_crypto sample_params) sample_keys (3 :: nat) (Said_plain ''a'') (''a'', 3, None)"
    using main heard(4,6) by auto
  moreover have "p_externals sample_params = sample_externals" "p_crypto sample_params = sample_static"
    by (simp_all add: sample_params_def)
  ultimately have "heard sample_externals sample_static sample_keys (3 :: nat) (Said_plain ''a'') (''a'', 3, None)"
    by (simp only:)
  with said heard show ?thesis by (intro exI conjI)
qed

end
