(* ===== verification/Eth_Utils.thy ===== *)
theory Eth_Utils
  imports Rust_Strings
begin

text \<open>
  \<open>shardeum_utils/src/lib.rs\<close> and the call \<open>getSenderAddress\<close> of \<open>shardus_net/src/lib.rs\<close>:
  recovering the sender of an Ethereum transaction and its intrinsic gas.  The hex, ethers,
  secp256k1 and sha3 crates are parameters; what is modelled of their types is what the code
  reads.  Arithmetic on \<open>u64\<close> panics or wraps with the build, on \<open>U256\<close> it always panics.
\<close>

section \<open>Arithmetic\<close>

definition u64_add :: "bool \<Rightarrow> u64 \<Rightarrow> u64 \<Rightarrow> u64 may_panic" where
  "u64_add oc a b =
     (if oc \<and> 2 ^ 64 \<le> unat a + unat b then Inl (Panic ''attempt to add with overflow'') else Inr (a + b))"

definition u64_sub :: "bool \<Rightarrow> u64 \<Rightarrow> u64 \<Rightarrow> u64 may_panic" where
  "u64_sub oc a b =
     (if oc \<and> a < b then Inl (Panic ''attempt to subtract with overflow'') else Inr (a - b))"

definition u64_mul :: "bool \<Rightarrow> u64 \<Rightarrow> u64 \<Rightarrow> u64 may_panic" where
  "u64_mul oc a b =
     (if oc \<and> 2 ^ 64 \<le> unat a * unat b then Inl (Panic ''attempt to multiply with overflow'') else Inr (a * b))"

definition u256_add :: "u256 \<Rightarrow> u256 \<Rightarrow> u256 may_panic" where
  "u256_add a b =
     (if 2 ^ 256 \<le> unat a + unat b then Inl (Panic ''arithmetic operation overflow'') else Inr (a + b))"

definition u256_as_u64 :: "u256 \<Rightarrow> u64 may_panic" where
  "u256_as_u64 a =
     (if 2 ^ 64 \<le> unat a then Inl (Panic ''Integer overflow when casting to u64'') else Inr (ucast a))"

definition u256_to_big_endian :: "u256 \<Rightarrow> u8 list" where
  "u256_to_big_endian w = map (\<lambda>i. ucast (drop_bit (8 * (31 - i)) w)) [0..<32]"

section \<open>The types of the crates\<close>

datatype NameOrAddress = Name string | Address "u8 list"

record Transaction =
  tx_v :: u64
  tx_r :: u256
  tx_s :: u256
  tx_transaction_type :: "u64 option"
  tx_chain_id :: "u256 option"

datatype tx_kind = Legacy | Eip2930 | Eip1559

record TypedTransaction =
  t_kind :: tx_kind
  t_data :: "u8 list option"
  t_to :: "NameOrAddress option"
  t_gas :: "u256 option"
  t_sighash :: "u8 list"

datatype secp_error = InvalidRecoveryId | InvalidSignature | Other_error string

record ('x, 'rid, 'sg, 'pk) eth_ops =
  e_hex_decode :: "string \<Rightarrow> u8 list option"
  e_rlp_decode :: "u8 list \<Rightarrow> 'x Transaction_scheme option"
  e_typed :: "'x Transaction_scheme \<Rightarrow> TypedTransaction"
  e_recovery_id :: "int \<Rightarrow> secp_error + 'rid"
  e_from_compact :: "u8 list \<Rightarrow> 'rid \<Rightarrow> secp_error + 'sg"
  e_recover :: "'sg \<Rightarrow> u8 list \<Rightarrow> secp_error + 'pk"
  e_serialize_uncompressed :: "'pk \<Rightarrow> u8 list"
  e_keccak256 :: "u8 list \<Rightarrow> u8 list"
  e_address_debug :: "u8 list \<Rightarrow> string"

section \<open>Recovery\<close>

definition v_standard :: "bool \<Rightarrow> u64 \<Rightarrow> u256 option \<Rightarrow> u64 may_panic" where
  "v_standard oc v chainid =
     (if v = 0 \<or> v = 1 then Inr v
      else case chainid of
             Some c \<Rightarrow>
               rbind (u256_as_u64 c)
                 (\<lambda>c. rbind (u64_mul oc 2 c)
                   (\<lambda>t. rbind (u64_add oc t 35)
                     (\<lambda>b. u64_sub oc v b)))
           | None \<Rightarrow> u64_sub oc v 27)"

definition secp256k1n :: u256 where
  "secp256k1n = 0xFFFFFFFFFFFFFFFFFFFFFFFFFFFFFFFEBAAEDCE6AF48A03BBFD25E8CD0364141"

definition ecrecover ::
    "bool \<Rightarrow> ('x, 'rid, 'sg, 'pk) eth_ops \<Rightarrow> u8 list \<Rightarrow> u64 \<Rightarrow> u256 \<Rightarrow> u256 \<Rightarrow> u256 option \<Rightarrow>
     (secp_error + 'pk) may_panic" where
  "ecrecover oc X sig_hash v r s chainid =
     rbind (v_standard oc v chainid)
       (\<lambda>v_std. Inr
          (if v_std \<noteq> 0 \<and> v_std \<noteq> 1 then Inl InvalidRecoveryId
           else rbind (e_recovery_id X (uint v_std))
             (\<lambda>recovery_id.
                if secp256k1n div 2 < s then Inl InvalidSignature
                else rbind (e_from_compact X (u256_to_big_endian r @ u256_to_big_endian s) recovery_id)
                  (\<lambda>signature. e_recover X signature sig_hash))))"

definition pub_to_addr :: "('x, 'rid, 'sg, 'pk) eth_ops \<Rightarrow> 'pk \<Rightarrow> (u8 list \<times> bool) may_panic" where
  "pub_to_addr X pubkey =
     (let pub_key_serialized = e_serialize_uncompressed X pubkey;
          is_valid = (length pub_key_serialized = 65);
          pub_key_bytes = drop 1 pub_key_serialized;
          hash = e_keccak256 X pub_key_bytes
      in if length (drop 12 hash) = 20 then Inr (drop 12 hash, is_valid)
         else Inl (Panic ''assign_from_slice''))"

definition get_transaction ::
    "('x, 'rid, 'sg, 'pk) eth_ops \<Rightarrow> string \<Rightarrow> 'x Transaction_scheme may_panic" where
  "get_transaction X raw_tx =
     rbind (expect ''hex::decode'' (e_hex_decode X raw_tx))
       (\<lambda>bytes. expect ''rlp::decode'' (e_rlp_decode X bytes))"

definition get_typed_transaction ::
    "('x, 'rid, 'sg, 'pk) eth_ops \<Rightarrow> 'x Transaction_scheme \<Rightarrow> TypedTransaction" where
  "get_typed_transaction X tx = e_typed X tx"

section \<open>Gas\<close>

definition byte_gas :: "u8 \<Rightarrow> u256" where
  "byte_gas b = (if b = 0 then 4 else 16)"

fun add_data_gas :: "u256 \<Rightarrow> u8 list \<Rightarrow> u256 may_panic" where
  "add_data_gas acc [] = Inr acc"
| "add_data_gas acc (b # bs) = rbind (u256_add acc (byte_gas b)) (\<lambda>acc. add_data_gas acc bs)"

definition address_zero :: "u8 list" where
  "address_zero = replicate 20 0"

definition creation_gas :: "NameOrAddress option \<Rightarrow> u256 may_panic" where
  "creation_gas to =
     (case to of
        Some (Name _) \<Rightarrow> Inl (Panic ''called unwrap() on a None value'')
      | Some (Address a) \<Rightarrow> Inr (if a = address_zero then 32000 else 0)
      | None \<Rightarrow> Inr 0)"

definition get_base_fee :: "TypedTransaction \<Rightarrow> u256 may_panic" where
  "get_base_fee tx =
     (let base_gas = 21000 in
      rbind (case t_data tx of Some d \<Rightarrow> add_data_gas 0 d | None \<Rightarrow> Inr 0)
        (\<lambda>data_gas. rbind (creation_gas (t_to tx))
          (\<lambda>creation. rbind (u256_add base_gas data_gas)
            (\<lambda>sub_tot. u256_add sub_tot creation))))"

definition zero_bigint :: u256 where
  "zero_bigint = 0"

section \<open>The sender of a transaction\<close>

record sender_address_result =
  sa_address :: string
  sa_is_valid :: bool

text \<open>The \<open>unwrap\<close> of a recovery that failed.\<close>

definition unwrap_recovery :: "(secp_error + 'pk) may_panic \<Rightarrow> 'pk may_panic" where
  "unwrap_recovery r =
     rbind r (\<lambda>x. case x of Inl _ \<Rightarrow> Inl (Panic ''called Result::unwrap() on an Err value'') | Inr pk \<Rightarrow> Inr pk)"

definition get_sender_address ::
    "bool \<Rightarrow> ('x, 'rid, 'sg, 'pk) eth_ops \<Rightarrow> string \<Rightarrow> sender_address_result may_panic" where
  "get_sender_address oc X raw_tx =
     rbind (get_transaction X raw_tx)
       (\<lambda>tx.
          let typed_tx = get_typed_transaction X tx;
              sighash = t_sighash typed_tx;
              v = tx_v tx; r = tx_r tx; s = tx_s tx
          in rbind (case tx_transaction_type tx of
                      Some _ \<Rightarrow> rbind (u64_add oc v 27)
                                 (\<lambda>v27. unwrap_recovery (ecrecover oc X sighash v27 r s None))
                    | None \<Rightarrow> unwrap_recovery (ecrecover oc X sighash v r s (tx_chain_id tx)))
             (\<lambda>pubkey. rbind (pub_to_addr X pubkey)
               (\<lambda>(addr, is_valid). rbind (get_base_fee typed_tx)
                 (\<lambda>base_fee.
                    let gas_limit = (case t_gas typed_tx of None \<Rightarrow> zero_bigint | Some g \<Rightarrow> g);
                        gas_valid = (base_fee \<le> gas_limit)
                    in Inr \<lparr>sa_address = e_address_debug X addr, sa_is_valid = (is_valid \<and> gas_valid)\<rparr>))))"

section \<open>Lemmas\<close>

subsection \<open>Gas\<close>

definition data_cost :: "u8 list \<Rightarrow> nat" where
  "data_cost d = sum_list (map (\<lambda>b. if b = 0 then 4 else 16) d)"

lemma data_cost_bound: "data_cost d \<le> 16 * length d"
  by (induction d) (auto simp: data_cost_def)

lemma u256_add_small:
  assumes "unat a + unat b < 2 ^ 256"
  shows "\<exists>c. u256_add a b = Inr c \<and> unat c = unat a + unat b"
  using assms by (simp add: u256_add_def unat_word_ariths)

lemma unat_byte_gas: "unat (byte_gas b) = (if b = 0 then 4 else 16)"
  by (simp add: byte_gas_def)

lemma add_data_gas_value:
  "unat acc + data_cost d < 2 ^ 256 \<Longrightarrow>
     \<exists>g. add_data_gas acc d = Inr g \<and> unat g = unat acc + data_cost d"
proof (induction d arbitrary: acc)
  case Nil
  then show ?case by (simp add: data_cost_def)
next
  case (Cons b d)
  have split: "data_cost (b # d) = unat (byte_gas b) + data_cost d"
    by (simp add: data_cost_def unat_byte_gas)
  with Cons.prems have "unat acc + unat (byte_gas b) < 2 ^ 256" by linarith
  then obtain c where c: "u256_add acc (byte_gas b) = Inr c" "unat c = unat acc + unat (byte_gas b)"
    using u256_add_small by blast
  with Cons.IH [of c] Cons.prems split show ?case by (simp add: add.assoc)
qed

definition creation_cost :: "NameOrAddress option \<Rightarrow> nat" where
  "creation_cost to = (if to = Some (Address address_zero) then 32000 else 0)"

lemma creation_gas_value:
  assumes "\<forall>s. to \<noteq> Some (Name s)"
  shows "\<exists>g. creation_gas to = Inr g \<and> unat g = creation_cost to"
proof (cases to)
  case (Some x)
  with assms show ?thesis by (cases x) (auto simp: creation_gas_def creation_cost_def)
qed (simp add: creation_gas_def creation_cost_def)

subsection \<open>Recovery\<close>

lemma v_standard_plain: "v = 0 \<or> v = 1 \<Longrightarrow> v_standard oc v c = Inr v"
  by (simp add: v_standard_def)

lemma v_standard_no_chain:
  "27 \<le> unat v \<Longrightarrow> v_standard oc v None = Inr (v - 27)"
  by (auto simp: v_standard_def u64_sub_def word_less_nat_alt)

lemma ecrecover_rejects_v:
  "v_standard oc v c = Inr x \<Longrightarrow> x \<noteq> 0 \<Longrightarrow> x \<noteq> 1 \<Longrightarrow>
     ecrecover oc X h v r s c = Inr (Inl InvalidRecoveryId)"
  by (simp add: ecrecover_def)

lemma ecrecover_success_low_s:
  "ecrecover oc X h v r s c = Inr (Inr pk) \<Longrightarrow> s \<le> secp256k1n div 2"
  by (auto simp: ecrecover_def rust_simps not_less split: if_splits)

lemma v_standard_chain:
  assumes "unat c < 2 ^ 63 - 18" "2 * unat c + 35 \<le> unat v" "2 \<le> unat v"
  shows "v_standard oc v (Some c) = Inr (v - (2 * ucast c + 35)) \<and>
    unat (v - (2 * ucast c + 35)) = unat v - (2 * unat c + 35)"
proof -
  have c64: "unat c < 2 ^ 64" using assms(1) by simp
  have u: "unat (ucast c :: u64) = unat c"
    using c64 by (simp add: unsigned_ucast_eq take_bit_nat_eq_self)
  have m: "unat (2 * ucast c :: u64) = 2 * unat c"
    using assms(1) u by (simp add: unat_word_ariths)
  have a: "unat (2 * ucast c + 35 :: u64) = 2 * unat c + 35"
    using assms(1) m by (simp add: unat_word_ariths)
  have v: "v \<noteq> 0" "v \<noteq> 1" using assms(3) by auto
  have le: "2 * ucast c + 35 \<le> v" using assms(2) a by (simp add: word_le_nat_alt)
  have "v_standard oc v (Some c) = Inr (v - (2 * ucast c + 35))"
    using c64 u m le assms(1) v
    by (auto simp: v_standard_def u256_as_u64_def u64_mul_def u64_add_def u64_sub_def)
  with le a show ?thesis by (simp add: unat_sub)
qed

lemma unwrap_recovery_eq: "unwrap_recovery r = Inr pk \<longleftrightarrow> r = Inr (Inr pk)"
  by (cases r) (auto simp: unwrap_recovery_def split: sum.splits)

text \<open>The parity that a transaction's \<open>v\<close> stands for.\<close>

definition parity_of :: "bool \<Rightarrow> 'x Transaction_scheme \<Rightarrow> nat \<Rightarrow> bool" where
  "parity_of oc tx x \<longleftrightarrow>
     (case tx_transaction_type tx of
        Some _ \<Rightarrow> unat (tx_v tx) = x \<or> \<not> oc \<and> tx_v tx + 27 = word_of_nat x
      | None \<Rightarrow>
          if unat (tx_v tx) \<le> 1 then unat (tx_v tx) = x
          else case tx_chain_id tx of
                 None \<Rightarrow> unat (tx_v tx) = 27 + x
               | Some c \<Rightarrow> unat c < 2 ^ 64 \<and>
                   (if oc then unat (tx_v tx) = 2 * unat c + 35 + x
                    else tx_v tx = 2 * ucast c + 35 + word_of_nat x))"

lemma not_small:
  fixes v :: u64
  assumes "\<not> (v = 0 \<or> v = 1)"
  shows "1 < unat v"
proof -
  have "unat v \<noteq> 0" "unat v \<noteq> 1" using assms by (simp_all add: word_unat_eq_iff)
  then show ?thesis by linarith
qed

lemma v_standard_no_chain_eq:
  assumes "v_standard oc v None = Inr w" "unat w \<le> 1"
  shows "unat v \<le> 1 \<and> w = v \<or> 1 < unat v \<and> unat v = 27 + unat w"
proof (cases "v = 0 \<or> v = 1")
  case True
  then show ?thesis using assms by (auto simp: v_standard_def)
next
  case False
  then have "w = v - 27" using assms(1) by (simp add: v_standard_def u64_sub_def split: if_splits)
  then have "v = 27 + w" by simp
  moreover have "unat (27 + w) = 27 + unat w" using assms(2) by (simp add: unat_word_ariths)
  ultimately show ?thesis by simp
qed

lemma v_standard_chain_eq:
  assumes "v_standard oc v (Some c) = Inr w" "unat w \<le> 1"
  shows "unat v \<le> 1 \<and> w = v \<or> 1 < unat v \<and> unat c < 2 ^ 64 \<and>
    (if oc then unat v = 2 * unat c + 35 + unat w else v = 2 * ucast c + 35 + w)"
proof (cases "v = 0 \<or> v = 1")
  case True
  then show ?thesis using assms by (auto simp: v_standard_def)
next
  case False
  then have big: "1 < unat v" by (rule not_small)
  have c64: "unat c < 2 ^ 64"
    using assms(1) False by (auto simp: v_standard_def u256_as_u64_def split: if_splits)
  have u: "unat (ucast c :: u64) = unat c"
    using c64 by (simp add: unsigned_ucast_eq take_bit_nat_eq_self)
  have w: "v = 2 * ucast c + 35 + w"
    using assms(1) False c64
    by (auto simp: v_standard_def u256_as_u64_def u64_mul_def u64_add_def u64_sub_def split: if_splits)
  have "unat v = 2 * unat c + 35 + unat w" if oc
  proof -
    have n: "\<not> 2 ^ 64 \<le> 2 * unat (ucast c :: u64)" "\<not> 2 ^ 64 \<le> unat (2 * ucast c :: u64) + 35"
      and le: "\<not> v < 2 * ucast c + 35" and sub: "w = v - (2 * ucast c + 35)"
      using assms(1) False c64 that
      by (auto simp: v_standard_def u256_as_u64_def u64_mul_def u64_add_def u64_sub_def split: if_splits)
    have m: "unat (2 * ucast c :: u64) = 2 * unat c" using n(1) u by (simp add: unat_word_ariths)
    have a: "unat (2 * ucast c + 35 :: u64) = 2 * unat c + 35" using n(2) m by (simp add: unat_word_ariths)
    have "unat w = unat v - (2 * unat c + 35)" unfolding sub using le a by (simp add: unat_sub not_less)
    moreover have "2 * unat c + 35 \<le> unat v" using le a by (simp add: word_less_nat_alt)
    ultimately show ?thesis by simp
  qed
  then show ?thesis using big c64 w by simp
qed

definition recovered ::
    "bool \<Rightarrow> ('x, 'rid, 'sg, 'pk) eth_ops \<Rightarrow> u8 list \<Rightarrow> 'x Transaction_scheme \<Rightarrow> 'pk may_panic" where
  "recovered oc X sighash tx =
     (case tx_transaction_type tx of
        Some _ \<Rightarrow> rbind (u64_add oc (tx_v tx) 27)
          (\<lambda>v27. unwrap_recovery (ecrecover oc X sighash v27 (tx_r tx) (tx_s tx) None))
      | None \<Rightarrow> unwrap_recovery (ecrecover oc X sighash (tx_v tx) (tx_r tx) (tx_s tx) (tx_chain_id tx)))"

lemma ecrecover_recovers:
  assumes "unwrap_recovery (ecrecover oc X h v r s chain) = Inr pk"
  obtains w rid sg where "v_standard oc v chain = Inr w" "unat w \<le> 1" "s \<le> secp256k1n div 2"
    "e_recovery_id X (int (unat w)) = Inr rid"
    "e_from_compact X (u256_to_big_endian r @ u256_to_big_endian s) rid = Inr sg" "e_recover X sg h = Inr pk"
proof -
  obtain w rid sg where w: "v_standard oc v chain = Inr w" "w = 0 \<or> w = 1" "s \<le> secp256k1n div 2"
    "e_recovery_id X (uint w) = Inr rid"
    "e_from_compact X (u256_to_big_endian r @ u256_to_big_endian s) rid = Inr sg" "e_recover X sg h = Inr pk"
    using assms unfolding unwrap_recovery_eq
    by (auto simp: ecrecover_def rust_simps not_less split: if_splits)
  show thesis by (rule that [OF w(1) _ w(3) _ w(5,6)]) (use w(2,4) in auto)
qed

lemma recovered_parity:
  assumes "recovered oc X h tx = Inr pk"
  shows "\<exists>x rid sg. x \<le> 1 \<and> parity_of oc tx x \<and> tx_s tx \<le> secp256k1n div 2 \<and>
    e_recovery_id X (int x) = Inr rid \<and>
    e_from_compact X (u256_to_big_endian (tx_r tx) @ u256_to_big_endian (tx_s tx)) rid = Inr sg \<and>
    e_recover X sg h = Inr pk"
proof (cases "tx_transaction_type tx")
  case (Some ty)
  then obtain v27 where v: "u64_add oc (tx_v tx) 27 = Inr v27"
    and rec: "unwrap_recovery (ecrecover oc X h v27 (tx_r tx) (tx_s tx) None) = Inr pk"
    using assms by (auto simp: recovered_def rust_simps)
  from rec obtain w rid sg where w: "v_standard oc v27 None = Inr w" "unat w \<le> 1" and out:
    "tx_s tx \<le> secp256k1n div 2" "e_recovery_id X (int (unat w)) = Inr rid"
    "e_from_compact X (u256_to_big_endian (tx_r tx) @ u256_to_big_endian (tx_s tx)) rid = Inr sg"
    "e_recover X sg h = Inr pk" by (rule ecrecover_recovers)
  have sum: "v27 = tx_v tx + 27" "oc \<Longrightarrow> unat v27 = unat (tx_v tx) + 27"
    using v by (auto simp: u64_add_def unat_word_ariths split: if_splits)
  have "parity_of oc tx (unat w)"
    using v_standard_no_chain_eq [OF w]
  proof (elim disjE conjE)
    assume small: "unat v27 \<le> 1" and "w = v27"
    with sum have "\<not> oc" "tx_v tx + 27 = word_of_nat (unat w)" by auto
    then show ?thesis by (simp add: parity_of_def Some)
  next
    assume "unat v27 = 27 + unat w"
    moreover have "unat (w + 27) = unat w + 27" using w(2) by (simp add: unat_word_ariths)
    ultimately have "v27 = w + 27" by (simp add: word_unat_eq_iff)
    with sum(1) have "tx_v tx = w" by simp
    then show ?thesis by (simp add: parity_of_def Some)
  qed
  with w(2) out show ?thesis by blast
next
  case None
  then have rec: "unwrap_recovery (ecrecover oc X h (tx_v tx) (tx_r tx) (tx_s tx) (tx_chain_id tx)) = Inr pk"
    using assms by (simp add: recovered_def)
  from rec obtain w rid sg where w: "v_standard oc (tx_v tx) (tx_chain_id tx) = Inr w" "unat w \<le> 1" and out:
    "tx_s tx \<le> secp256k1n div 2" "e_recovery_id X (int (unat w)) = Inr rid"
    "e_from_compact X (u256_to_big_endian (tx_r tx) @ u256_to_big_endian (tx_s tx)) rid = Inr sg"
    "e_recover X sg h = Inr pk" by (rule ecrecover_recovers)
  have "parity_of oc tx (unat w)"
  proof (cases "tx_chain_id tx")
    case (Some c)
    from v_standard_chain_eq [OF w(1) [unfolded Some] w(2)] show ?thesis
      by (auto simp: parity_of_def None Some)
  next
    case no: None
    from v_standard_no_chain_eq [OF w(1) [unfolded no] w(2)] show ?thesis
      by (auto simp: parity_of_def None no)
  qed
  with w(2) out show ?thesis by blast
qed

section \<open>A small instance of the crates\<close>

text \<open>Every text decodes to one transaction, whose key the instance recovers.\<close>

definition sample_tx :: Transaction where
  "sample_tx = \<lparr>tx_v = 38, tx_r = 1, tx_s = 2, tx_transaction_type = None, tx_chain_id = Some 1\<rparr>"

definition sample_typed :: TypedTransaction where
  "sample_typed = \<lparr>t_kind = Legacy, t_data = Some [0, 7], t_to = None, t_gas = Some 21020, t_sighash = replicate 32 1\<rparr>"

definition sample_eth :: "(unit, int, int, u8 list) eth_ops" where
  "sample_eth =
     \<lparr>e_hex_decode = (\<lambda>s. Some (into_bytes s)),
      e_rlp_decode = (\<lambda>_. Some (Transaction.extend sample_tx ())),
      e_typed = (\<lambda>_. sample_typed),
      e_recovery_id = Inr,
      e_from_compact = (\<lambda>_ rid. Inr rid),
      e_recover = (\<lambda>_ _. Inr (replicate 65 4)),
      e_serialize_uncompressed = (\<lambda>pk. pk),
      e_keccak256 = (\<lambda>_. replicate 32 6),
      e_address_debug = map char_of_byte\<rparr>"

section \<open>Properties\<close>

text \<open>
  C37. The base fee: for a transaction with a recipient that is an address and not an ENS name,
  and whose data, if it is a legacy transaction, is empty, it is 21000, plus 4 for every zero
  byte of data and 16 for every other, plus 32000 exactly when the recipient is the zero address;
  no addition overflows.  On the cases left out the comments in the code say other than the code:
  legacy data is charged, and a creation, which names no recipient, is not.
\<close>

theorem base_fee_value:
  assumes to: "t_to tx = Some (Address a)"
    and len: "\<forall>d. t_data tx = Some d \<longrightarrow> length d < 2 ^ 64"
    and legacy: "t_kind tx = Legacy \<longrightarrow> t_data tx = None \<or> t_data tx = Some []"
  shows "\<exists>fee. get_base_fee tx = Inr fee \<and>
    unat fee = 21000 + (case t_data tx of None \<Rightarrow> 0 | Some d \<Rightarrow> data_cost d) +
      (if a = address_zero then 32000 else 0)"
proof -
  define dc where "dc = (case t_data tx of None \<Rightarrow> 0 | Some d \<Rightarrow> data_cost d)"
  have dc: "dc < 16 * 2 ^ 64"
  proof (cases "t_data tx")
    case (Some d)
    with len data_cost_bound [of d] show ?thesis by (simp add: dc_def)
  qed (simp add: dc_def)
  have "\<exists>g. (case t_data tx of Some d \<Rightarrow> add_data_gas 0 d | None \<Rightarrow> Inr 0) = Inr g \<and> unat g = dc"
  proof (cases "t_data tx")
    case (Some d)
    then have "unat (0 :: u256) + data_cost d < 2 ^ 256" using dc by (simp add: dc_def)
    from add_data_gas_value [OF this] Some show ?thesis by (simp add: dc_def)
  qed (simp add: dc_def)
  then obtain g where g: "(case t_data tx of Some d \<Rightarrow> add_data_gas 0 d | None \<Rightarrow> Inr 0) = Inr g"
    "unat g = dc" by blast
  obtain k where k: "creation_gas (t_to tx) = Inr k" "unat k = creation_cost (t_to tx)"
    using creation_gas_value [of "t_to tx"] by (auto simp: to)
  have "unat (21000 :: u256) + unat g < 2 ^ 256" using dc g(2) by simp
  then obtain m where m: "u256_add 21000 g = Inr m" "unat m = 21000 + dc"
    using u256_add_small [of 21000 g] g(2) by auto
  have "unat m + unat k < 2 ^ 256" using dc m(2) k(2) by (simp add: creation_cost_def)
  then obtain fee where "u256_add m k = Inr fee" "unat fee = unat m + unat k"
    using u256_add_small by blast
  with g k m show ?thesis by (simp add: get_base_fee_def dc_def creation_cost_def to)
qed

theorem base_fee_value_witness:
  "\<exists>fee. get_base_fee (sample_typed\<lparr>t_kind := Eip1559, t_to := Some (Address address_zero)\<rparr>) = Inr fee \<and>
     unat fee = 53020"
proof -
  let ?t = "sample_typed\<lparr>t_kind := Eip1559, t_to := Some (Address address_zero)\<rparr>"
  have "t_to ?t = Some (Address address_zero)" "\<forall>d. t_data ?t = Some d \<longrightarrow> length d < 2 ^ 64"
    "t_kind ?t = Legacy \<longrightarrow> t_data ?t = None \<or> t_data ?t = Some []"
    by (simp_all add: sample_typed_def)
  from base_fee_value [OF this] show ?thesis by (simp add: sample_typed_def data_cost_def)
qed

text \<open>
  Contract creation is not charged: a transaction without a recipient costs what the same
  transaction to any ordinary address costs, and the 32000 of a creation are charged only to
  one that names the zero address.
\<close>

theorem creation_without_recipient_uncharged:
  assumes "t_to tx = None" "a \<noteq> address_zero"
  shows "get_base_fee tx = get_base_fee (tx\<lparr>t_to := Some (Address a)\<rparr>) \<and>
    (\<forall>d fee. t_data tx = Some d \<longrightarrow> length d < 2 ^ 64 \<longrightarrow> get_base_fee tx = Inr fee \<longrightarrow>
      (\<exists>zero_fee. get_base_fee (tx\<lparr>t_to := Some (Address address_zero)\<rparr>) = Inr zero_fee \<and>
        unat zero_fee = unat fee + 32000))"
proof -
  have same: "get_base_fee tx = get_base_fee (tx\<lparr>t_to := Some (Address a)\<rparr>)"
    using assms by (simp add: get_base_fee_def creation_gas_def)
  moreover have "\<exists>zero_fee. get_base_fee (tx\<lparr>t_to := Some (Address address_zero)\<rparr>) = Inr zero_fee \<and>
      unat zero_fee = unat fee + 32000"
    if d: "t_data tx = Some d" "length d < 2 ^ 64" and fee: "get_base_fee tx = Inr fee" for d fee
  proof -
    have "unat (0 :: u256) + data_cost d < 2 ^ 256" using d(2) data_cost_bound [of d] by simp
    then obtain g where g: "add_data_gas 0 d = Inr g" "unat g = data_cost d"
      using add_data_gas_value [of 0 d] by auto
    have small: "data_cost d < 16 * 2 ^ 64" using d(2) data_cost_bound [of d] by simp
    then obtain m where m: "u256_add 21000 g = Inr m" "unat m = 21000 + data_cost d"
      using u256_add_small [of 21000 g] g(2) by auto
    have "get_base_fee tx = u256_add m 0"
      using d(1) assms(1) g m by (simp add: get_base_fee_def creation_gas_def)
    moreover obtain k where "u256_add m 0 = Inr k" "unat k = unat m"
      using u256_add_small [of m 0] m(2) small by auto
    moreover obtain z where "u256_add m 32000 = Inr z" "unat z = unat m + 32000"
      using u256_add_small [of m 32000] m(2) small by auto
    moreover have "get_base_fee (tx\<lparr>t_to := Some (Address address_zero)\<rparr>) = u256_add m 32000"
      using d(1) g m by (simp add: get_base_fee_def creation_gas_def)
    ultimately show ?thesis using fee by simp
  qed
  ultimately show ?thesis by blast
qed

theorem creation_without_recipient_uncharged_witness:
  "get_base_fee sample_typed = get_base_fee (sample_typed\<lparr>t_to := Some (Address (replicate 20 1))\<rparr>)"
proof -
  have "t_to sample_typed = None" "replicate 20 1 \<noteq> address_zero"
    by (simp_all add: sample_typed_def address_zero_def numeral_eq_Suc)
  from creation_without_recipient_uncharged [OF this] show ?thesis by blast
qed

text \<open>
  The recovery id: with a chain id, the \<open>v\<close> that EIP-155 prescribes for a parity gives this
  parity back; a smaller \<open>v\<close> of at least 2 makes a build with overflow checks panic, and one
  without wrap to a number that is no recovery id unless the wrapped difference is 0 or 1.
\<close>

theorem eip155_recovery_id:
  assumes "unat c < 2 ^ 63 - 19"
  shows "(p \<le> 1 \<longrightarrow> v_standard oc (word_of_nat (2 * unat c + 35 + p)) (Some c) = Inr (word_of_nat p)) \<and>
    (2 \<le> unat v \<longrightarrow> unat v < 2 * unat c + 35 \<longrightarrow>
      (\<exists>q. v_standard True v (Some c) = Inl q) \<and>
      v_standard False v (Some c) = Inr (v - (2 * ucast c + 35)))"
proof -
  have c64: "unat c < 2 ^ 64" using assms by simp
  have u: "unat (ucast c :: u64) = unat c"
    using c64 by (simp add: unsigned_ucast_eq take_bit_nat_eq_self)
  have m: "unat (2 * ucast c :: u64) = 2 * unat c" using assms u by (simp add: unat_word_ariths)
  have a: "unat (2 * ucast c + 35 :: u64) = 2 * unat c + 35" using assms m by (simp add: unat_word_ariths)
  have base: "rbind (u256_as_u64 c) (\<lambda>c. rbind (u64_mul oc 2 c) (\<lambda>t. rbind (u64_add oc t 35) f)) =
      f (2 * ucast c + 35)" for oc and f :: "u64 \<Rightarrow> u64 may_panic"
    using assms c64 u m by (simp add: u256_as_u64_def u64_mul_def u64_add_def)
  have "v_standard oc (word_of_nat (2 * unat c + 35 + p)) (Some c) = Inr (word_of_nat p)" if "p \<le> 1"
  proof -
    have n: "unat (word_of_nat (2 * unat c + 35 + p) :: u64) = 2 * unat c + 35 + p"
      using assms that by (simp add: unsigned_of_nat take_bit_nat_eq_self del: of_nat_add)
    have w: "word_of_nat (2 * unat c + 35 + p) = (2 * ucast c + 35 :: u64) + word_of_nat p"
    proof -
      have "(2 * ucast c + 35 :: u64) = word_of_nat (unat (2 * ucast c + 35 :: u64))" by simp
      then show ?thesis unfolding a by (simp only: of_nat_add)
    qed
    have "word_of_nat (2 * unat c + 35 + p) \<noteq> (0 :: u64)" "word_of_nat (2 * unat c + 35 + p) \<noteq> (1 :: u64)"
      using n by (auto simp del: of_nat_add)
    moreover have "\<not> word_of_nat (2 * unat c + 35 + p) < (2 * ucast c + 35 :: u64)"
      unfolding word_less_nat_alt n a by simp
    ultimately show ?thesis by (simp add: v_standard_def base u64_sub_def w del: of_nat_add)
  qed
  moreover have "v \<noteq> 0 \<and> v \<noteq> 1 \<and> v < 2 * ucast c + 35" if "2 \<le> unat v" "unat v < 2 * unat c + 35"
    using that a by (auto simp: word_less_nat_alt)
  ultimately show ?thesis by (auto simp: v_standard_def base u64_sub_def)
qed

theorem eip155_recovery_id_witness:
  "v_standard True 38 (Some 1) = Inr 1 \<and> (\<exists>q. v_standard True 27 (Some 1) = Inl q)"
proof -
  have "unat (1 :: u256) < 2 ^ 63 - 19" by simp
  from eip155_recovery_id [OF this, where p = 1 and v = 27 and oc = True] show ?thesis by simp
qed

text \<open>
  C36. A sender address that is returned: it is the last twenty bytes of the hash of the key that
  the library recovers from the transaction's \<open>r\<close> and \<open>s\<close>, its signing hash and its parity; the
  parity is what the transaction's \<open>v\<close> says - \<open>v\<close> itself for a typed transaction; for a legacy one
  \<open>v\<close> itself if it is 0 or 1, otherwise what \<open>v\<close> exceeds 27 by, or twice the chain id plus 35 if
  there is a chain id; in a build without overflow checks up to wrap-around at 64 bits -; \<open>s\<close> is
  in the lower half; and the address is valid exactly when the key has its uncompressed length
  and the gas limit, zero if absent, covers the base fee.
\<close>

theorem sender_address_sound:
  assumes "get_sender_address oc X raw = Inr res"
  shows "\<exists>bytes tx x rid sg pk fee. e_hex_decode X raw = Some bytes \<and> e_rlp_decode X bytes = Some tx \<and>
    tx_s tx \<le> secp256k1n div 2 \<and> x \<le> 1 \<and> parity_of oc tx x \<and> e_recovery_id X (int x) = Inr rid \<and>
    e_from_compact X (u256_to_big_endian (tx_r tx) @ u256_to_big_endian (tx_s tx)) rid = Inr sg \<and>
    e_recover X sg (t_sighash (e_typed X tx)) = Inr pk \<and>
    sa_address res = e_address_debug X (drop 12 (e_keccak256 X (drop 1 (e_serialize_uncompressed X pk)))) \<and>
    length (drop 12 (e_keccak256 X (drop 1 (e_serialize_uncompressed X pk)))) = 20 \<and>
    get_base_fee (e_typed X tx) = Inr fee \<and>
    (sa_is_valid res \<longleftrightarrow> length (e_serialize_uncompressed X pk) = 65 \<and>
      fee \<le> (case t_gas (e_typed X tx) of None \<Rightarrow> 0 | Some g \<Rightarrow> g))"
proof -
  obtain bytes tx where tx: "e_hex_decode X raw = Some bytes" "e_rlp_decode X bytes = Some tx"
    using assms by (auto simp: get_sender_address_def get_transaction_def rust_simps)
  then obtain pk where rec: "recovered oc X (t_sighash (e_typed X tx)) tx = Inr pk"
    and rest: "rbind (pub_to_addr X pk) (\<lambda>(addr, is_valid). rbind (get_base_fee (e_typed X tx))
        (\<lambda>base_fee. Inr \<lparr>sa_address = e_address_debug X addr, sa_is_valid = (is_valid \<and>
          base_fee \<le> (case t_gas (e_typed X tx) of None \<Rightarrow> zero_bigint | Some g \<Rightarrow> g))\<rparr>)) = Inr res"
    using assms
    by (auto simp: get_sender_address_def get_transaction_def get_typed_transaction_def rust_simps Let_def
        recovered_def split: option.splits)
  from rest [unfolded zero_bigint_def] have fin: "length (drop 12 (e_keccak256 X (drop 1 (e_serialize_uncompressed X pk)))) = 20"
    "\<exists>fee. get_base_fee (e_typed X tx) = Inr fee \<and> res = \<lparr>sa_address =
        e_address_debug X (drop 12 (e_keccak256 X (drop 1 (e_serialize_uncompressed X pk)))),
        sa_is_valid = (length (e_serialize_uncompressed X pk) = 65 \<and>
          fee \<le> (case t_gas (e_typed X tx) of None \<Rightarrow> 0 | Some g \<Rightarrow> g))\<rparr>"
    by (auto simp: pub_to_addr_def Let_def rust_simps split: if_splits)
  from recovered_parity [OF rec] obtain x rid sg where
    "x \<le> 1" "parity_of oc tx x" "tx_s tx \<le> secp256k1n div 2" "e_recovery_id X (int x) = Inr rid"
    "e_from_compact X (u256_to_big_endian (tx_r tx) @ u256_to_big_endian (tx_s tx)) rid = Inr sg"
    "e_recover X sg (t_sighash (e_typed X tx)) = Inr pk" by blast
  with tx fin show ?thesis by force
qed

theorem sender_address_sound_witness:
  "\<exists>res. get_sender_address True sample_eth ''f8'' = Inr res \<and> sa_is_valid res \<and>
     (\<exists>tx. e_rlp_decode sample_eth (into_bytes ''f8'') = Some tx \<and> tx_s tx \<le> secp256k1n div 2)"
proof -
  have v: "v_standard True 38 (Some 1) = Inr 1"
    by (simp add: v_standard_def u256_as_u64_def u64_mul_def u64_add_def u64_sub_def)
  have s: "\<not> secp256k1n div 2 < 2" by (simp add: secp256k1n_def)
  have ec: "ecrecover True sample_eth h 38 1 2 (Some 1) = Inr (Inr (replicate 65 4))" for h
    unfolding ecrecover_def v using s by (simp add: sample_eth_def)
  have fee: "get_base_fee sample_typed = Inr 21020"
    by (simp add: get_base_fee_def sample_typed_def u256_add_def byte_gas_def creation_gas_def)
  have g: "get_sender_address True sample_eth ''f8'' =
      Inr \<lparr>sa_address = map char_of_byte (replicate 20 6), sa_is_valid = True\<rparr>"
  proof -
    have "get_transaction sample_eth ''f8'' = Inr (Transaction.extend sample_tx ())"
      by (simp add: get_transaction_def sample_eth_def expect_def)
    moreover have "get_typed_transaction sample_eth (Transaction.extend sample_tx ()) = sample_typed"
      by (simp add: get_typed_transaction_def sample_eth_def)
    moreover have "pub_to_addr sample_eth (replicate 65 4) = Inr (replicate 20 6, True)"
      by (simp add: pub_to_addr_def sample_eth_def)
    moreover have "tx_transaction_type (Transaction.extend sample_tx ()) = None"
      "tx_v (Transaction.extend sample_tx ()) = 38" "tx_r (Transaction.extend sample_tx ()) = 1"
      "tx_s (Transaction.extend sample_tx ()) = 2" "tx_chain_id (Transaction.extend sample_tx ()) = Some 1"
      by (simp_all add: sample_tx_def Transaction.defs)
    ultimately show ?thesis
      by (simp add: get_sender_address_def Let_def ec fee unwrap_recovery_def)
        (simp add: sample_typed_def sample_eth_def)
  qed
  from sender_address_sound [OF g] g show ?thesis by (auto simp: sample_eth_def)
qed

end
