(* ===== verification/Neon_Calls.thy ===== *)
theory Neon_Calls
  imports Node_Receive Eth_Utils
begin

text \<open>
  The outer layer of \<open>lib.rs\<close>: the functions as JavaScript calls them, with an argument list and
  a \<open>this\<close>, and the module's registration.  Extraction of arguments goes through neon, which
  throws a type error for a missing or mistyped argument; the texts of these errors are
  parameters.
\<close>

section \<open>Arguments and \<open>this\<close>\<close>

datatype js_arg =
    Arg_number js_number
  | Arg_string string
  | Arg_boolean bool
  | Arg_function nat
  | Arg_array "js_arg list"
  | Arg_other

record neon =
  neon_missing :: string
  neon_downcast :: "string \<Rightarrow> string"
  neon_box :: "string \<Rightarrow> string"

text \<open>\<open>?\<close> on a \<open>JsResult\<close>.\<close>

definition jbind :: "'a js_outcome \<Rightarrow> ('a \<Rightarrow> 'b js_outcome) \<Rightarrow> 'b js_outcome" where
  "jbind r f = (case r of Js_return x \<Rightarrow> f x | Js_throw e \<Rightarrow> Js_throw e | Js_panic p \<Rightarrow> Js_panic p)"

lemma jbind_simps [simp]:
  "jbind (Js_return x) f = f x" "jbind (Js_throw e) f = Js_throw e" "jbind (Js_panic p) f = Js_panic p"
  by (simp_all add: jbind_def)

fun as_number :: "js_arg \<Rightarrow> js_number option" where
  "as_number (Arg_number x) = Some x" | "as_number _ = None"

fun as_text :: "js_arg \<Rightarrow> string option" where
  "as_text (Arg_string s) = Some s" | "as_text _ = None"

fun as_boolean :: "js_arg \<Rightarrow> bool option" where
  "as_boolean (Arg_boolean b) = Some b" | "as_boolean _ = None"

fun as_function :: "js_arg \<Rightarrow> nat option" where
  "as_function (Arg_function f) = Some f" | "as_function _ = None"

fun as_array :: "js_arg \<Rightarrow> js_arg list option" where
  "as_array (Arg_array xs) = Some xs" | "as_array _ = None"

definition downcast :: "neon \<Rightarrow> string \<Rightarrow> (js_arg \<Rightarrow> 'a option) \<Rightarrow> js_arg \<Rightarrow> 'a js_outcome" where
  "downcast N ty sel x =
     (case sel x of Some v \<Rightarrow> Js_return v | None \<Rightarrow> Js_throw (Js_type_error (neon_downcast N ty)))"

text \<open>\<open>cx.argument::<T>(i)\<close>.\<close>

definition argument :: "neon \<Rightarrow> string \<Rightarrow> (js_arg \<Rightarrow> 'a option) \<Rightarrow> nat \<Rightarrow> js_arg list \<Rightarrow> 'a js_outcome" where
  "argument N ty sel i args =
     (if i < length args then downcast N ty sel (args ! i) else Js_throw (Js_type_error (neon_missing N)))"

abbreviation arg_number where "arg_number N \<equiv> argument N ''number'' as_number"
abbreviation arg_string where "arg_string N \<equiv> argument N ''string'' as_text"
abbreviation arg_boolean where "arg_boolean N \<equiv> argument N ''boolean'' as_boolean"
abbreviation arg_function where "arg_function N \<equiv> argument N ''function'' as_function"

text \<open>The elements of an array, downcast one by one up to the first that fails.\<close>

fun downcast_all :: "neon \<Rightarrow> string \<Rightarrow> (js_arg \<Rightarrow> 'a option) \<Rightarrow> js_arg list \<Rightarrow> 'a list js_outcome" where
  "downcast_all N ty sel [] = Js_return []"
| "downcast_all N ty sel (x # xs) =
     jbind (downcast N ty sel x) (\<lambda>v. jbind (downcast_all N ty sel xs) (\<lambda>vs. Js_return (v # vs)))"

definition arg_list :: "neon \<Rightarrow> string \<Rightarrow> (js_arg \<Rightarrow> 'a option) \<Rightarrow> nat \<Rightarrow> js_arg list \<Rightarrow> 'a list js_outcome" where
  "arg_list N ty sel i args = jbind (argument N ''array'' as_array i args) (downcast_all N ty sel)"

text \<open>\<open>cx.this().get::<JsBox<_>>(name)\<close>: \<open>this\<close> is the list of the boxes it has.\<close>

definition this_box :: "neon \<Rightarrow> string \<Rightarrow> string list \<Rightarrow> unit js_outcome" where
  "this_box N name this =
     (if name \<in> set this then Js_return () else Js_throw (Js_type_error (neon_box N name)))"

section \<open>The functions\<close>

text \<open>A function runs its body on the extracted arguments; a failed extraction leaves the state.\<close>

definition with_args ::
    "'a js_outcome \<Rightarrow> ('a \<Rightarrow> 'n \<Rightarrow> 'b js_outcome \<times> 'n) \<Rightarrow> 'n \<Rightarrow> 'b js_outcome \<times> 'n" where
  "with_args r body n =
     (case r of Js_return x \<Rightarrow> body x n | Js_throw e \<Rightarrow> (Js_throw e, n) | Js_panic p \<Rightarrow> (Js_panic p, n))"

definition send_args :: "neon \<Rightarrow> js_arg list \<Rightarrow> string list \<Rightarrow> (js_number \<times> string \<times> string) js_outcome" where
  "send_args N args this =
     jbind (arg_number N 0 args) (\<lambda>port.
     jbind (arg_string N 1 args) (\<lambda>host.
     jbind (arg_string N 2 args) (\<lambda>data.
     jbind (arg_function N 3 args) (\<lambda>complete_cb.
     jbind (this_box N ''_sender'' this) (\<lambda>_.
     jbind (this_box N ''_stats_incrementers'' this) (\<lambda>_. Js_return (port, host, data)))))))"

definition js_send ::
    "neon \<Rightarrow> 'addr net_params \<Rightarrow> js_arg list \<Rightarrow> string list \<Rightarrow> ('addr, 's, 'c, 'w) shardus_net \<Rightarrow>
     unit js_outcome \<times> ('addr, 's, 'c, 'w) shardus_net" where
  "js_send N P args this =
     with_args (send_args N args this) (\<lambda>(port, host, data). api_send P port host data)"

definition send_with_header_args ::
    "neon \<Rightarrow> js_arg list \<Rightarrow> string list \<Rightarrow>
     (js_number \<times> string \<times> js_number \<times> string \<times> string) js_outcome" where
  "send_with_header_args N args this =
     jbind (arg_number N 0 args) (\<lambda>port.
     jbind (arg_string N 1 args) (\<lambda>host.
     jbind (arg_number N 2 args) (\<lambda>header_version.
     jbind (arg_string N 3 args) (\<lambda>header_js_string.
     jbind (arg_string N 4 args) (\<lambda>data_js_string.
     jbind (arg_function N 5 args) (\<lambda>complete_cb.
     jbind (this_box N ''_sender'' this) (\<lambda>_.
     jbind (this_box N ''_stats_incrementers'' this)
       (\<lambda>_. Js_return (port, host, header_version, header_js_string, data_js_string)))))))))"

definition js_send_with_header ::
    "neon \<Rightarrow> 'addr net_params \<Rightarrow> js_arg list \<Rightarrow> string list \<Rightarrow> ('addr, 's, 'c, 'w) shardus_net \<Rightarrow>
     unit js_outcome \<times> ('addr, 's, 'c, 'w) shardus_net" where
  "js_send_with_header N P args this =
     with_args (send_with_header_args N args this)
       (\<lambda>(port, host, hv, hs, ds). api_send_with_header P port host hv hs ds)"

definition multi_send_args ::
    "neon \<Rightarrow> js_arg list \<Rightarrow> string list \<Rightarrow>
     (js_number list \<times> string list \<times> js_number \<times> string \<times> string \<times> bool) js_outcome" where
  "multi_send_args N args this =
     jbind (arg_list N ''number'' as_number 0 args) (\<lambda>ports.
     jbind (arg_list N ''string'' as_text 1 args) (\<lambda>hosts.
     jbind (arg_number N 2 args) (\<lambda>header_version.
     jbind (arg_string N 3 args) (\<lambda>header_js_string.
     jbind (arg_string N 4 args) (\<lambda>data_js_string.
     jbind (arg_function N 5 args) (\<lambda>complete_cb.
     jbind (arg_boolean N 6 args) (\<lambda>await_processing.
     jbind (this_box N ''_sender'' this) (\<lambda>_.
     jbind (this_box N ''_stats_incrementers'' this)
       (\<lambda>_. Js_return (ports, hosts, header_version, header_js_string, data_js_string, await_processing))))))))))"

definition js_multi_send_with_header ::
    "neon \<Rightarrow> 'addr net_params \<Rightarrow> js_arg list \<Rightarrow> string list \<Rightarrow> ('addr, 's, 'c, 'w) shardus_net \<Rightarrow>
     unit js_outcome \<times> ('addr, 's, 'c, 'w) shardus_net" where
  "js_multi_send_with_header N P args this =
     with_args (multi_send_args N args this)
       (\<lambda>(ports, hosts, hv, hs, ds, await). api_multi_send_with_header P ports hosts hv hs ds await)"

definition evict_args :: "neon \<Rightarrow> js_arg list \<Rightarrow> string list \<Rightarrow> (js_number \<times> string) js_outcome" where
  "evict_args N args this =
     jbind (arg_number N 0 args) (\<lambda>port.
     jbind (arg_string N 1 args) (\<lambda>host.
     jbind (this_box N ''_sender'' this) (\<lambda>_. Js_return (port, host))))"

definition js_evict_socket ::
    "neon \<Rightarrow> 'addr net_params \<Rightarrow> js_arg list \<Rightarrow> string list \<Rightarrow> ('addr, 's, 'c, 'w) shardus_net \<Rightarrow>
     unit js_outcome \<times> ('addr, 's, 'c, 'w) shardus_net" where
  "js_evict_socket N P args this =
     with_args (evict_args N args this) (\<lambda>(port, host). api_evict_socket P port host)"

definition js_get_stats ::
    "neon \<Rightarrow> 'addr net_params \<Rightarrow> 'f f64_ops \<Rightarrow> string list \<Rightarrow> ('addr, 's, 'c, 'w) shardus_net \<Rightarrow>
     'f stats_result_object js_outcome" where
  "js_get_stats N P F this n = jbind (this_box N ''_stats'' this) (\<lambda>_. api_get_stats P F n)"

text \<open>\<open>listen\<close> starts the listener; the node it starts is a step system of its own.\<close>

definition js_listen ::
    "neon \<Rightarrow> js_arg list \<Rightarrow> string list \<Rightarrow> ('addr, 's, 'c, 'w) shardus_net \<Rightarrow>
     ('addr, 's, 'c, 'w) node js_outcome" where
  "js_listen N args this net =
     jbind (arg_function N 0 args) (\<lambda>callback.
     jbind (this_box N ''_listener'' this) (\<lambda>_.
     jbind (this_box N ''_stats_incrementers'' this) (\<lambda>_. Js_return (node_new net))))"

section \<open>The constructor\<close>

text \<open>The properties set on the new object: four boxes and six functions.\<close>

definition created_boxes :: "string list" where
  "created_boxes = [''_listener'', ''_sender'', ''_stats'', ''_stats_incrementers'']"

definition created_functions :: "string list" where
  "created_functions =
     [''listen'', ''send'', ''send_with_header'', ''multi_send_with_header'', ''evict_socket'', ''stats'']"

text \<open>
  The signing key is extracted after the hash key was used to initialise the crypto instance:
  what that did stays, whatever becomes of the call.
\<close>

definition js_create ::
    "neon \<Rightarrow> 'addr net_params \<Rightarrow> (nat \<Rightarrow> 'c) \<Rightarrow> 'c \<Rightarrow> 'w \<Rightarrow> js_arg list \<Rightarrow> crypto_static \<Rightarrow>
     ('addr \<times> ('addr, 's, 'c, 'w) shardus_net) js_outcome \<times> crypto_static" where
  "js_create N P mk_lru mk_hashmap w args =
     with_args
       (jbind (arg_number N 0 args) (\<lambda>port.
        jbind (arg_string N 1 args) (\<lambda>host.
        jbind (arg_boolean N 2 args) (\<lambda>use_lru.
        jbind (arg_number N 3 args) (\<lambda>lru_size.
        jbind (arg_string N 4 args) (\<lambda>hash_key. Js_return (port, host, use_lru, lru_size, hash_key)))))))
       (\<lambda>(port, host, use_lru, lru_size, hash_key) st.
          case initialize_shardus_crypto_instance (x_sodium (p_externals P)) hash_key st of
            (Inl p, st) \<Rightarrow> (Js_panic p, st)
          | (Inr _, st) \<Rightarrow>
              (jbind (arg_string N 5 args)
                 (\<lambda>sk. create_after_init P mk_lru mk_hashmap w port host use_lru lru_size sk st), st))"

section \<open>The module\<close>

datatype log_level = Level_info | Level_off

definition set_logging_enabled :: "neon \<Rightarrow> js_arg list \<Rightarrow> log_level \<Rightarrow> unit js_outcome \<times> log_level" where
  "set_logging_enabled N args =
     with_args (arg_boolean N 0 args)
       (\<lambda>enabled level. (Js_return (), if enabled then Level_info else Level_off))"

definition js_get_sender_address ::
    "neon \<Rightarrow> bool \<Rightarrow> ('x, 'rid, 'sg, 'pk) eth_ops \<Rightarrow> js_arg list \<Rightarrow> sender_address_result js_outcome" where
  "js_get_sender_address N oc X args =
     jbind (arg_string N 0 args)
       (\<lambda>raw_tx. case get_sender_address oc X raw_tx of Inl p \<Rightarrow> Js_panic p | Inr r \<Rightarrow> Js_return r)"

definition module_exports :: "string list" where
  "module_exports = [''Sn'', ''setLoggingEnabled'', ''getSenderAddress'']"

section \<open>Lemmas\<close>

text \<open>An extraction returns or throws a type error; it never panics.\<close>

definition checked :: "'a js_outcome \<Rightarrow> bool" where
  "checked r \<longleftrightarrow> (\<exists>x. r = Js_return x) \<or> (\<exists>e. r = Js_throw (Js_type_error e))"

named_theorems checks \<open>extractions that only check\<close>

lemma checked_return [checks]: "checked (Js_return x)"
  by (simp add: checked_def)

lemma checked_jbind [checks]: "checked r \<Longrightarrow> (\<And>x. checked (f x)) \<Longrightarrow> checked (jbind r f)"
  by (cases r) (auto simp: checked_def)

lemma checked_downcast [checks]: "checked (downcast N ty sel x)"
  by (simp add: checked_def downcast_def split: option.split)

lemma checked_downcast_all [checks]: "checked (downcast_all N ty sel xs)"
proof (induction xs)
  case Nil
  show ?case by (simp add: checked_return)
next
  case (Cons x xs)
  then show ?case by (auto intro!: checked_jbind checked_downcast checked_return)
qed

lemma checked_argument [checks]: "checked (argument N ty sel i args)"
  using checked_downcast [of N ty sel "args ! i"] by (simp add: argument_def) (simp add: checked_def)

lemma checked_arg_list [checks]: "checked (arg_list N ty sel i args)"
  unfolding arg_list_def by (intro checks)

lemma checked_this_box [checks]: "checked (this_box N name this)"
  by (simp add: checked_def this_box_def)

lemma jbind_eq_return: "jbind r f = Js_return y \<longleftrightarrow> (\<exists>x. r = Js_return x \<and> f x = Js_return y)"
  by (cases r) simp_all

lemma downcast_eq_return: "downcast N ty sel x = Js_return v \<longleftrightarrow> sel x = Some v"
  by (simp add: downcast_def split: option.split)

lemma argument_eq_return:
  "argument N ty sel i args = Js_return v \<longleftrightarrow> i < length args \<and> sel (args ! i) = Some v"
  by (simp add: argument_def downcast_eq_return)

lemma this_box_eq_return: "this_box N name this = Js_return u \<longleftrightarrow> name \<in> set this"
  by (simp add: this_box_def)

lemma downcast_all_eq_return:
  "(\<exists>vs. downcast_all N ty sel xs = Js_return vs) \<longleftrightarrow> (\<forall>x \<in> set xs. sel x \<noteq> None)"
  by (induction xs) (auto simp: jbind_eq_return downcast_eq_return)

definition throws_type_error :: "'n \<Rightarrow> 'b js_outcome \<times> 'n \<Rightarrow> bool" where
  "throws_type_error n r \<longleftrightarrow> (\<exists>e. r = (Js_throw (Js_type_error e), n))"

lemma with_args_throws:
  assumes "checked r" "(\<exists>x. r = Js_return x) \<longleftrightarrow> fits" "\<not> fits"
  shows "throws_type_error n (with_args r body n)"
  using assms by (auto simp: checked_def with_args_def throws_type_error_def)

text \<open>The types of the first arguments.\<close>

fun has_types :: "(js_arg \<Rightarrow> bool) list \<Rightarrow> js_arg list \<Rightarrow> bool" where
  "has_types [] args \<longleftrightarrow> True"
| "has_types (p # ps) [] \<longleftrightarrow> False"
| "has_types (p # ps) (x # args) \<longleftrightarrow> p x \<and> has_types ps args"

definition is_a :: "(js_arg \<Rightarrow> 'a option) \<Rightarrow> js_arg \<Rightarrow> bool" where
  "is_a sel x \<longleftrightarrow> sel x \<noteq> None"

definition is_list_of :: "(js_arg \<Rightarrow> 'a option) \<Rightarrow> js_arg \<Rightarrow> bool" where
  "is_list_of sel x \<longleftrightarrow> (\<exists>xs. as_array x = Some xs \<and> (\<forall>y \<in> set xs. is_a sel y))"

lemma has_types_nth:
  "has_types ps args \<longleftrightarrow> length ps \<le> length args \<and> (\<forall>i < length ps. (ps ! i) (args ! i))"
  by (induction ps args rule: has_types.induct) (auto simp: nth_Cons less_Suc_eq_0_disj split: nat.split)

lemma argument_typed:
  "has_types ps args \<Longrightarrow> i < length ps \<Longrightarrow> ps ! i = is_a sel \<Longrightarrow> \<exists>v. argument N ty sel i args = Js_return v"
  by (auto simp: has_types_nth argument_eq_return is_a_def)

lemma all_less_numeral:
  "(\<forall>i < Suc n. Q i) \<longleftrightarrow> (\<forall>i < n. Q i) \<and> Q n"
  by (auto simp: less_Suc_eq)

definition fits_send :: "js_arg list \<Rightarrow> string list \<Rightarrow> bool" where
  "fits_send args this \<longleftrightarrow>
     has_types [is_a as_number, is_a as_text, is_a as_text, is_a as_function] args \<and>
     {''_sender'', ''_stats_incrementers''} \<subseteq> set this"

lemma send_args_return:
  "(\<exists>x. send_args N args this = Js_return x) \<longleftrightarrow>
     fits_send args this"
  by (auto simp: fits_send_def send_args_def jbind_eq_return argument_eq_return this_box_eq_return has_types_nth is_a_def
      all_less_numeral eval_nat_numeral)

definition fits_send_with_header :: "js_arg list \<Rightarrow> string list \<Rightarrow> bool" where
  "fits_send_with_header args this \<longleftrightarrow>
     has_types [is_a as_number, is_a as_text, is_a as_number, is_a as_text, is_a as_text, is_a as_function] args \<and>
     {''_sender'', ''_stats_incrementers''} \<subseteq> set this"

lemma send_with_header_args_return:
  "(\<exists>x. send_with_header_args N args this = Js_return x) \<longleftrightarrow>
     fits_send_with_header args this"
  by (auto simp: fits_send_with_header_def send_with_header_args_def jbind_eq_return argument_eq_return this_box_eq_return has_types_nth
      is_a_def all_less_numeral eval_nat_numeral)

definition fits_evict :: "js_arg list \<Rightarrow> string list \<Rightarrow> bool" where
  "fits_evict args this \<longleftrightarrow>
     has_types [is_a as_number, is_a as_text] args \<and> {''_sender''} \<subseteq> set this"

lemma evict_args_return:
  "(\<exists>x. evict_args N args this = Js_return x) \<longleftrightarrow>
     fits_evict args this"
  by (auto simp: fits_evict_def evict_args_def jbind_eq_return argument_eq_return this_box_eq_return has_types_nth
      is_a_def all_less_numeral eval_nat_numeral)

lemma arg_list_return:
  "(\<exists>vs. arg_list N ty sel i args = Js_return vs) \<longleftrightarrow> i < length args \<and> is_list_of sel (args ! i)"
  using downcast_all_eq_return [of N ty sel]
  by (simp add: arg_list_def jbind_eq_return argument_eq_return is_list_of_def is_a_def) blast

definition fits_multi_send :: "js_arg list \<Rightarrow> string list \<Rightarrow> bool" where
  "fits_multi_send args this \<longleftrightarrow>
     has_types [is_list_of as_number, is_list_of as_text, is_a as_number, is_a as_text, is_a as_text,
       is_a as_function, is_a as_boolean] args \<and>
     {''_sender'', ''_stats_incrementers''} \<subseteq> set this"

lemma multi_send_args_return:
  "(\<exists>x. multi_send_args N args this = Js_return x) \<longleftrightarrow>
     fits_multi_send args this"
proof -
  have "(\<exists>x. multi_send_args N args this = Js_return x) \<longleftrightarrow>
      (\<exists>ps. arg_list N ''number'' as_number 0 args = Js_return ps) \<and>
      (\<exists>hs. arg_list N ''string'' as_text 1 args = Js_return hs) \<and>
      (\<exists>v. arg_number N 2 args = Js_return v) \<and> (\<exists>v. arg_string N 3 args = Js_return v) \<and>
      (\<exists>v. arg_string N 4 args = Js_return v) \<and> (\<exists>v. arg_function N 5 args = Js_return v) \<and>
      (\<exists>v. arg_boolean N 6 args = Js_return v) \<and>
      ''_sender'' \<in> set this \<and> ''_stats_incrementers'' \<in> set this"
    by (auto simp: multi_send_args_def jbind_eq_return this_box_eq_return)
  then show ?thesis
    unfolding arg_list_return
    by (auto simp: fits_multi_send_def argument_eq_return has_types_nth is_a_def all_less_numeral eval_nat_numeral)
qed

lemmas args_return = send_args_return send_with_header_args_return multi_send_args_return evict_args_return

lemma with_args_return [simp]: "with_args (Js_return x) body n = body x n"
  by (simp add: with_args_def)

lemma checked_calls:
  "checked (send_args N args this)" "checked (send_with_header_args N args this)"
  "checked (multi_send_args N args this)" "checked (evict_args N args this)"
  unfolding send_args_def send_with_header_args_def multi_send_args_def evict_args_def
  by (intro checks)+

definition sample_neon :: neon where
  "sample_neon = \<lparr>neon_missing = ''not enough arguments'', neon_downcast = (\<lambda>ty. ''expected '' @ ty),
     neon_box = (\<lambda>name. ''no box '' @ name)\<rparr>"

lemma snd_with_args: "(\<And>x. snd (body x n) = n) \<Longrightarrow> snd (with_args r body n) = n"
  by (simp add: with_args_def split: js_outcome.split)

lemma js_create_initialized:
  "INIT st = Complete \<Longrightarrow> snd (js_create N P mk_lru mk_hashmap w args st) = st"
  unfolding js_create_def by (rule snd_with_args) (auto simp: initialize_Complete split: prod.split)

lemma js_create_without_signing_key:
  assumes "initialize_shardus_crypto_instance (x_sodium (p_externals P)) key st = (Inr (), st')"
  shows "js_create N P mk_lru mk_hashmap w
      [Arg_number port, Arg_string host, Arg_boolean lru, Arg_number lru_size, Arg_string key] st =
    (Js_throw (Js_type_error (neon_missing N)), st')"
  using assms by (simp add: js_create_def argument_def downcast_def)

section \<open>Properties\<close>

text \<open>
  C22. A call with a missing or mistyped argument, an array with one mistyped element, or on a
  \<open>this\<close> without the boxes, throws a type error and changes nothing: no send is counted as
  outstanding, no task waits, nothing reaches the sender.  In particular
  \<open>multi_send_with_header\<close> needs its seventh argument.
\<close>

theorem mistyped_calls_change_nothing:
  "(\<not> fits_send args this \<longrightarrow> throws_type_error n (js_send N P args this n)) \<and>
   (\<not> fits_send_with_header args this \<longrightarrow> throws_type_error n (js_send_with_header N P args this n)) \<and>
   (\<not> fits_multi_send args this \<longrightarrow> throws_type_error n (js_multi_send_with_header N P args this n)) \<and>
   (\<not> fits_evict args this \<longrightarrow> throws_type_error n (js_evict_socket N P args this n))"
  unfolding js_send_def js_send_with_header_def js_multi_send_with_header_def js_evict_socket_def
  by (intro conjI impI; rule with_args_throws [OF _ args_return(1)] with_args_throws [OF _ args_return(2)]
      with_args_throws [OF _ args_return(3)] with_args_throws [OF _ args_return(4)]; (rule checked_calls | assumption))

theorem mistyped_calls_change_nothing_witness:
  "throws_type_error sample_net (js_multi_send_with_header sample_neon sample_params
     [Arg_array [Arg_number (Finite 5)], Arg_array [Arg_string ''here''], Arg_number (Finite 1),
      Arg_string ''header'', Arg_string ''x'', Arg_function 0] created_boxes sample_net) \<and>
   throws_type_error sample_net (js_send sample_neon sample_params
     [Arg_number (Finite 5), Arg_string ''here'', Arg_number (Finite 2), Arg_function 0] created_boxes sample_net)"
  (is "throws_type_error _ (js_multi_send_with_header _ _ ?m _ _) \<and> throws_type_error _ (js_send _ _ ?s _ _)")
proof -
  have "\<not> fits_multi_send ?m created_boxes" "\<not> fits_send ?s created_boxes"
    by (simp_all add: fits_multi_send_def fits_send_def is_a_def)
  then show ?thesis
    using mistyped_calls_change_nothing [of ?m created_boxes sample_net sample_neon sample_params]
      mistyped_calls_change_nothing [of ?s created_boxes sample_net sample_neon sample_params] by blast
qed

text \<open>
  C23. The constructor initialises the crypto instance before it looks at its last argument.  A
  call without a signing key throws a type error, yet its hash key is the key of the process: every
  later constructor, whatever hash key it is given, works on an instance with the failed call's.
\<close>

theorem failed_constructor_pins_hash_key:
  assumes "x_sodium (p_externals P) = S" "so_init S" "so_hex_decode S key = Some k"
    and "args = [Arg_number port, Arg_string host, Arg_boolean lru, Arg_number lru_size, Arg_string key]"
  shows "\<exists>e st. js_create N P mk_lru mk_hashmap w args crypto_static_init =
        (Js_throw (Js_type_error e) :: ('addr \<times> ('addr, 's, 'c, 'w) shardus_net) js_outcome, st) \<and>
      get_shardus_crypto_instance st = Inr \<lparr>hash_key = k\<rparr> \<and>
      (\<forall>args2. snd (js_create N P mk_lru mk_hashmap w args2 st ::
         ('addr \<times> ('addr, 's, 'c, 'w) shardus_net) js_outcome \<times> crypto_static) = st)"
proof -
  define st where "st = \<lparr>INIT = Complete, SHARDUS_CRYPTO_INSTANCE = Some \<lparr>hash_key = k\<rparr>\<rparr>"
  have "initialize_shardus_crypto_instance S key crypto_static_init = (Inr (), st)"
    using assms(2, 3) by (simp add: initialize_shardus_crypto_instance_def crypto_static_init_def
        shardus_crypto_new_def expect_def st_def)
  moreover have "snd (js_create N P mk_lru mk_hashmap w args2 st ::
         ('addr \<times> ('addr, 's, 'c, 'w) shardus_net) js_outcome \<times> crypto_static) = st" for args2
    by (rule js_create_initialized) (simp add: st_def)
  moreover have "get_shardus_crypto_instance st = Inr \<lparr>hash_key = k\<rparr>"
    by (simp add: get_shardus_crypto_instance_def expect_def st_def)
  ultimately show ?thesis
    unfolding assms(4) using assms(1) by (auto simp: js_create_without_signing_key)
qed

theorem failed_constructor_pins_hash_key_witness:
  "\<exists>e st. js_create sample_neon sample_params (\<lambda>_. Map.empty) (Map.empty :: nat \<rightharpoonup> arc) ([] :: sample_world)
        [Arg_number (Finite 5), Arg_string ''here'', Arg_boolean False, Arg_number (Finite 1), Arg_string ''a'']
        crypto_static_init =
      (Js_throw (Js_type_error e) :: (nat \<times> (nat, nat, nat \<rightharpoonup> arc, sample_world) shardus_net) js_outcome, st) \<and>
    get_shardus_crypto_instance st = Inr \<lparr>hash_key = into_bytes ''a''\<rparr>"
proof -
  have "x_sodium (p_externals sample_params) = sample_sodium" "so_init sample_sodium"
    "so_hex_decode sample_sodium ''a'' = Some (into_bytes ''a'')"
    by (simp_all add: sample_params_def sample_externals_def sample_sodium_def)
  from failed_constructor_pins_hash_key [OF this refl, of sample_neon "\<lambda>_. Map.empty" "Map.empty :: nat \<rightharpoonup> arc"
      "[] :: sample_world" "Finite 5" "''here''" False "Finite 1", where ?'s = nat]
  show ?thesis by metis
qed

end
