(* ===== verification/Cache_Equivalence.thy ===== *)
theory Cache_Equivalence
  imports Net_Sender
begin

text \<open>
  The two caches are interchangeable as long as the LRU cache has room: a sender on an LRU cache
  whose capacity covers the addresses in use has exactly the runs of a sender on the hash map.
  \<open>as_hashmap\<close> reads a state of the one as a state of the other, and every operation commutes
  with it.
\<close>

section \<open>Reading an LRU cache as a hash map\<close>

definition lru_cached :: "('l \<Rightarrow> ('addr \<times> arc) list) \<Rightarrow> 'l \<Rightarrow> arc \<Rightarrow> bool" where
  "lru_cached entries l i \<longleftrightarrow> i \<in> snd ` set (entries l)"

definition as_hashmap ::
    "('l \<Rightarrow> ('addr \<times> arc) list) \<Rightarrow> ('addr, 's, 'l, 'w) sender \<Rightarrow> ('addr, 's, 'addr \<rightharpoonup> arc, 'w) sender" where
  "as_hashmap entries ss =
     \<lparr>ss_send_channel = ss_send_channel ss, ss_evict_channel = ss_evict_channel ss,
      ss_connections = map_of (entries (ss_connections ss)), ss_heap = ss_heap ss,
      ss_tasks = ss_tasks ss, ss_notified = ss_notified ss, ss_shutdown = ss_shutdown ss,
      ss_stalled = ss_stalled ss, ss_world = ss_world ss\<rparr>"

lemma as_hashmap_sel [simp]:
  "ss_send_channel (as_hashmap entries ss) = ss_send_channel ss"
  "ss_evict_channel (as_hashmap entries ss) = ss_evict_channel ss"
  "ss_connections (as_hashmap entries ss) = map_of (entries (ss_connections ss))"
  "ss_heap (as_hashmap entries ss) = ss_heap ss" "ss_tasks (as_hashmap entries ss) = ss_tasks ss"
  "ss_notified (as_hashmap entries ss) = ss_notified ss"
  "ss_shutdown (as_hashmap entries ss) = ss_shutdown ss" "ss_stalled (as_hashmap entries ss) = ss_stalled ss"
  "ss_world (as_hashmap entries ss) = ss_world ss"
  by (simp_all add: as_hashmap_def)

lemma run_task_as_hashmap:
  "run_task T k (as_hashmap entries ss) = map_option (as_hashmap entries) (run_task T k ss)"
  by (simp add: run_task_def as_hashmap_def split: option.split prod.split)

lemma stall_as_hashmap:
  "stall_connection i (as_hashmap entries ss) = map_option (as_hashmap entries) (stall_connection i ss)"
  by (simp add: stall_connection_def as_hashmap_def)

context lru_contract
begin

text \<open>The entries are for addresses of \<open>A\<close> only; the cache has room for all of these.\<close>

definition fits :: "'addr set \<Rightarrow> 'l \<Rightarrow> bool" where
  "fits A l \<longleftrightarrow> lru_inv l \<and> fst ` set (entries l) \<subseteq> A"

definition room :: "'addr set \<Rightarrow> bool" where
  "room A \<longleftrightarrow> finite A \<and> card A \<le> capacity"

lemma lru_cached_ran: "lru_inv l \<Longrightarrow> lru_cached entries l i \<longleftrightarrow> hashmap_cached (map_of (entries l)) i"
  by (simp add: lru_inv_def lru_cached_def hashmap_cached_def ran_distinct)

lemma get_or_insert_as_hashmap:
  assumes A: "room A" "fits A l" "a \<in> A" and get: "lru_get_or_insert L a l h = (i, l', h')"
  shows "fits A l'" and "hashmap_get_or_insert a (map_of (entries l)) h = (i, map_of (entries l'), h')"
proof -
  have inv: "lru_inv l" and sub: "fst ` set (entries l) \<subseteq> A" using A(2) by (auto simp: fits_def)
  note facts = lru_get_or_insert_entries [OF inv get]
  let ?es = "(a, i) # entry_delete a (entries l)"
  have "distinct (map fst ?es)" using inv by (simp add: lru_inv_def)
  then have "length ?es = card (fst ` set ?es)" by (metis distinct_card length_map set_map)
  moreover have keys: "fst ` set ?es \<subseteq> A" using sub A(3) by (auto simp: entry_delete_def)
  ultimately have "length ?es \<le> capacity"
    using A(1) card_mono [of A "fst ` set ?es"] by (simp add: room_def)
  then have es: "entries l' = ?es" using facts(1) by simp
  with facts(2) keys show "fits A l'" by (simp add: fits_def)
  show "hashmap_get_or_insert a (map_of (entries l)) h = (i, map_of (entries l'), h')"
    using facts(3) by (auto simp: hashmap_get_or_insert_def es fun_eq_iff split: option.splits prod.splits)
qed

lemma remove_as_hashmap:
  assumes "fits A l" "lru_remove L a l = (r, l')"
  shows "fits A l' \<and> hashmap_remove a (map_of (entries l)) = (r, map_of (entries l'))"
proof -
  have inv: "lru_inv l" and sub: "fst ` set (entries l) \<subseteq> A" using assms(1) by (auto simp: fits_def)
  have "r = map_of (entries l) a \<and> entries l' = entry_delete a (entries l)"
    using assms(2) pop_spec by (simp add: lru_remove_def)
  moreover from this have "lru_inv l'" "fst ` set (entries l') \<subseteq> A"
    using lru.remove [OF inv, of a r l'] assms(2) sub by (auto simp: entry_delete_def lru_cache_def)
  ultimately show ?thesis by (simp add: fits_def hashmap_remove_def)
qed

section \<open>The operations commute\<close>

definition in_use :: "'addr set \<Rightarrow> ('addr, 's, 'l, 'w) sender \<Rightarrow> bool" where
  "in_use A ss \<longleftrightarrow> fits A (ss_connections ss) \<and> (\<forall>(a, d, t) \<in> set (ss_send_channel ss). a \<in> A)"

lemma dispatch_as_hashmap:
  assumes "room A" "in_use A ss"
  shows "dispatch_next hashmap_cache (as_hashmap entries ss) =
      map_option (as_hashmap entries) (dispatch_next (lru_cache L) ss)"
    and "dispatch_next (lru_cache L) ss = Some ss' \<Longrightarrow> in_use A ss'"
proof -
  have "dispatch_next hashmap_cache (as_hashmap entries ss) =
      map_option (as_hashmap entries) (dispatch_next (lru_cache L) ss) \<and>
    (\<forall>ss'. dispatch_next (lru_cache L) ss = Some ss' \<longrightarrow> in_use A ss')"
  proof (cases "ss_send_channel ss")
    case Nil
    then show ?thesis by (simp add: dispatch_next_def)
  next
    case (Cons item rest)
    obtain a d t where item: "item = (a, d, t)" by (metis prod_cases3)
    obtain i l' h' where g: "lru_get_or_insert L a (ss_connections ss) (ss_heap ss) = (i, l', h')"
      by (metis prod_cases3)
    have A: "fits A (ss_connections ss)" "a \<in> A" "\<forall>(a, d, t) \<in> set rest. a \<in> A"
      using assms(2) Cons item by (auto simp: in_use_def)
    note facts = get_or_insert_as_hashmap [OF assms(1) A(1,2) g]
    have "cc_get_or_insert (lru_cache L) a (ss_connections ss) (ss_heap ss) = (i, l', h')"
      "cc_get_or_insert hashmap_cache a (map_of (entries (ss_connections ss))) (ss_heap ss) =
        (i, map_of (entries l'), h')"
      using g facts(2) by (simp_all add: lru_cache_def hashmap_cache_def)
    with Cons item facts(1) A(3) show ?thesis
      by (simp add: dispatch_next_def in_use_def as_hashmap_def)
  qed
  then show "dispatch_next hashmap_cache (as_hashmap entries ss) =
      map_option (as_hashmap entries) (dispatch_next (lru_cache L) ss)"
    and "dispatch_next (lru_cache L) ss = Some ss' \<Longrightarrow> in_use A ss'" by auto
qed

lemma evict_as_hashmap:
  assumes "in_use A ss"
  shows "evict_next hashmap_cache (as_hashmap entries ss) =
      map_option (as_hashmap entries) (evict_next (lru_cache L) ss)"
    and "evict_next (lru_cache L) ss = Some ss' \<Longrightarrow> in_use A ss'"
proof -
  have "evict_next hashmap_cache (as_hashmap entries ss) =
      map_option (as_hashmap entries) (evict_next (lru_cache L) ss) \<and>
    (\<forall>ss'. evict_next (lru_cache L) ss = Some ss' \<longrightarrow> in_use A ss')"
  proof (cases "ss_evict_channel ss")
    case (Cons a rest)
    obtain r l' where rem: "lru_remove L a (ss_connections ss) = (r, l')" by fastforce
    have "fits A (ss_connections ss)" using assms by (simp add: in_use_def)
    from remove_as_hashmap [OF this rem] Cons rem assms show ?thesis
      by (simp add: evict_next_def in_use_def as_hashmap_def lru_cache_def hashmap_cache_def)
  qed (simp add: evict_next_def)
  then show "evict_next hashmap_cache (as_hashmap entries ss) =
      map_option (as_hashmap entries) (evict_next (lru_cache L) ss)"
    and "evict_next (lru_cache L) ss = Some ss' \<Longrightarrow> in_use A ss'" by auto
qed

lemma drop_as_hashmap:
  assumes "in_use A ss"
  shows "drop_unreferenced hashmap_cached i (as_hashmap entries ss) =
    map_option (as_hashmap entries) (drop_unreferenced (lru_cached entries) i ss)"
proof -
  have "lru_inv (ss_connections ss)" using assms by (simp add: in_use_def fits_def)
  from lru_cached_ran [OF this, of i] show ?thesis
    by (simp add: drop_unreferenced_def as_hashmap_def split: option.split)
qed

text \<open>The addresses a step brings in.\<close>

definition event_in :: "'addr set \<Rightarrow> 'addr sender_event \<Rightarrow> bool" where
  "event_in A e \<longleftrightarrow> (case e of Submit (a, d, t) \<Rightarrow> a \<in> A | _ \<Rightarrow> True)"

lemma step_as_hashmap:
  assumes A: "room A" "in_use A ss" "event_in A e"
    and step: "sender_step (lru_cache L) (lru_cached entries) T ss e ss'"
  shows "in_use A ss' \<and> sender_step hashmap_cache hashmap_cached T (as_hashmap entries ss) e (as_hashmap entries ss')"
  using step
proof (cases rule: sender_step_cases)
  case (submit item)
  have "as_hashmap entries ss' = (as_hashmap entries ss)\<lparr>ss_send_channel :=
      ss_send_channel (as_hashmap entries ss) @ [item]\<rparr>"
    using submit(2) by (simp add: as_hashmap_def)
  moreover have "in_use A ss'" using A(2,3) submit by (auto simp: in_use_def event_in_def)
  ultimately show ?thesis using sender_step.submit submit(1) by metis
next
  case (evict_request a)
  have "as_hashmap entries ss' = sender_evict_socket a (as_hashmap entries ss)"
    using evict_request(2) by (simp add: as_hashmap_def sender_evict_socket_def)
  moreover have "in_use A ss'" using A(2) evict_request(2) by (simp add: in_use_def sender_evict_socket_def)
  ultimately show ?thesis using sender_step.evict_request evict_request(1) by metis
next
  case (stall i)
  from stall_keeps(1) [OF stall(2)] have "in_use A ss'" using A(2) by (simp add: in_use_def)
  with stall stall_as_hashmap [of i entries ss] show ?thesis by (auto intro: sender_step.stall)
next
  case dispatch
  with dispatch_as_hashmap [OF A(1,2)] show ?thesis by (auto intro: sender_step.dispatch)
next
  case (run k)
  then have "ss_send_channel ss' = ss_send_channel ss" "ss_connections ss' = ss_connections ss"
    by (auto simp: run_task_def split: if_splits option.splits prod.splits)
  then have "in_use A ss'" using A(2) by (simp add: in_use_def)
  with run run_task_as_hashmap [of T k entries ss] show ?thesis by (auto intro: sender_step.run)
next
  case evict
  with evict_as_hashmap [OF A(2)] show ?thesis by (auto intro: sender_step.evict)
next
  case (dropped i)
  then have "ss_send_channel ss' = ss_send_channel ss" "ss_connections ss' = ss_connections ss"
    by (auto simp: drop_unreferenced_def split: if_splits option.splits)
  then have "in_use A ss'" using A(2) by (simp add: in_use_def)
  with dropped drop_as_hashmap [OF A(2), of i] show ?thesis by (auto intro: sender_step.dropped)
qed

lemma step_of_hashmap:
  assumes A: "room A" "in_use A ss"
    and step: "sender_step hashmap_cache hashmap_cached T (as_hashmap entries ss) e m"
  shows "\<exists>ss'. m = as_hashmap entries ss' \<and> sender_step (lru_cache L) (lru_cached entries) T ss e ss'"
  using step
proof (cases rule: sender_step_cases)
  case (submit item)
  then have "m = as_hashmap entries (ss\<lparr>ss_send_channel := ss_send_channel ss @ [item]\<rparr>)"
    by (simp add: as_hashmap_def)
  moreover have "sender_step (lru_cache L) (lru_cached entries) T ss (Submit item)
      (ss\<lparr>ss_send_channel := ss_send_channel ss @ [item]\<rparr>)" by (rule sender_step.submit)
  ultimately show ?thesis unfolding submit(1) by (intro exI conjI)
next
  case (evict_request a)
  then have "m = as_hashmap entries (sender_evict_socket a ss)"
    by (simp add: as_hashmap_def sender_evict_socket_def)
  moreover have "sender_step (lru_cache L) (lru_cached entries) T ss (Evict_request a) (sender_evict_socket a ss)"
    by (rule sender_step.evict_request)
  ultimately show ?thesis unfolding evict_request(1) by (intro exI conjI)
next
  case (stall i)
  then obtain ss' where "stall_connection i ss = Some ss'" "m = as_hashmap entries ss'"
    using stall_as_hashmap [of i entries ss] by auto
  then show ?thesis unfolding stall(1) by (intro exI conjI) (assumption, erule sender_step.stall)
next
  case dispatch
  then obtain ss' where "dispatch_next (lru_cache L) ss = Some ss'" "m = as_hashmap entries ss'"
    using dispatch_as_hashmap(1) [OF A] by auto
  then show ?thesis unfolding dispatch(1) by (intro exI conjI) (assumption, erule sender_step.dispatch)
next
  case (run k)
  then obtain ss' where "run_task T k ss = Some ss'" "m = as_hashmap entries ss'"
    using run_task_as_hashmap [of T k entries ss] by auto
  then show ?thesis unfolding run(1) by (intro exI conjI) (assumption, erule sender_step.run)
next
  case evict
  then obtain ss' where "evict_next (lru_cache L) ss = Some ss'" "m = as_hashmap entries ss'"
    using evict_as_hashmap(1) [OF A(2)] by auto
  then show ?thesis unfolding evict(1) by (intro exI conjI) (assumption, erule sender_step.evict)
next
  case (dropped i)
  then obtain ss' where "drop_unreferenced (lru_cached entries) i ss = Some ss'" "m = as_hashmap entries ss'"
    using drop_as_hashmap [OF A(2), of i] by auto
  then show ?thesis unfolding dropped(1) by (intro exI conjI) (assumption, erule sender_step.dropped)
qed

definition items_in :: "'addr set \<Rightarrow> 'addr send_item list \<Rightarrow> bool" where
  "items_in A items \<longleftrightarrow> (\<forall>(a, d, t) \<in> set items. a \<in> A)"

lemma event_in_items:
  "items_in A (items @ (case e of Submit item \<Rightarrow> [item] | _ \<Rightarrow> [])) \<longleftrightarrow> items_in A items \<and> event_in A e"
  by (cases e) (auto simp: items_in_def event_in_def)

lemma run_as_hashmap:
  assumes "room A" "in_use A ss0"
  shows "sender_run (lru_cache L) (lru_cached entries) T ss0 items ss \<Longrightarrow> items_in A items \<Longrightarrow>
    in_use A ss \<and> sender_run hashmap_cache hashmap_cached T (as_hashmap entries ss0) items (as_hashmap entries ss)"
proof (induction rule: sender_run.induct)
  case nil
  then show ?case using assms(2) sender_run.nil by blast
next
  case (snoc items ss1 e ss2)
  then have "in_use A ss1" "event_in A e"
    "sender_run hashmap_cache hashmap_cached T (as_hashmap entries ss0) items (as_hashmap entries ss1)"
    by (auto simp: event_in_items)
  with step_as_hashmap [OF assms(1) _ _ snoc.hyps(2)] sender_run.snoc show ?case by blast
qed

lemma run_of_hashmap:
  assumes "room A" "in_use A ss0"
  shows "sender_run hashmap_cache hashmap_cached T m0 items m \<Longrightarrow> m0 = as_hashmap entries ss0 \<Longrightarrow>
    items_in A items \<Longrightarrow>
    \<exists>ss. m = as_hashmap entries ss \<and> sender_run (lru_cache L) (lru_cached entries) T ss0 items ss"
proof (induction rule: sender_run.induct)
  case nil
  then show ?case using sender_run.nil by blast
next
  case (snoc items m1 e m2)
  then obtain ss1 where ss1: "m1 = as_hashmap entries ss1"
    "sender_run (lru_cache L) (lru_cached entries) T ss0 items ss1" and items: "items_in A items"
    by (auto simp: event_in_items)
  have "in_use A ss1" using run_as_hashmap [OF assms ss1(2) items] by blast
  from step_of_hashmap [OF assms(1) this snoc.hyps(2) [unfolded ss1(1)]] ss1(2) sender_run.snoc
  show ?case by blast
qed

lemma in_use_new: "entries l = [] \<Longrightarrow> in_use A (sender_new l w)"
  by (simp add: in_use_def sender_new_def fits_def lru_inv_def)

end

lemma as_hashmap_new: "entries l = [] \<Longrightarrow> as_hashmap entries (sender_new l w) = sender_new Map.empty w"
  by (simp add: as_hashmap_def sender_new_def)

section \<open>Properties\<close>

text \<open>
  C31. With room for the addresses in use, the LRU cache is the hash map: on every crate that keeps
  its documentation, the senders' runs are the same - for the same items, whatever tasks run,
  evictions and drops happen and however the network behaves - up to the order of use that the
  LRU cache keeps; so the same connections are made, shared, evicted and freed.
\<close>

theorem lru_with_room_is_hashmap:
  assumes L: "lru_contract L entries capacity" and l: "entries l = []"
    and A: "finite A" "card A \<le> capacity" "\<forall>(a, d, t) \<in> set items. a \<in> A"
  shows "sender_run hashmap_cache hashmap_cached T (sender_new Map.empty w) items m \<longleftrightarrow>
    (\<exists>ss. sender_run (lru_cache L) (lru_cached entries) T (sender_new l w) items ss \<and> m = as_hashmap entries ss)"
proof -
  have room: "lru_contract.room capacity A" using A(1,2) by (simp add: lru_contract.room_def [OF L])
  have items: "lru_contract.items_in A items" using A(3) by (simp add: lru_contract.items_in_def [OF L])
  have use: "lru_contract.in_use entries capacity A (sender_new l w)"
    by (rule lru_contract.in_use_new [OF L l])
  show ?thesis
    using lru_contract.run_as_hashmap [OF L room use _ items, of T]
      lru_contract.run_of_hashmap [OF L room use _ _ items, of T]
    unfolding as_hashmap_new [of entries l w, OF l] by blast
qed

theorem lru_with_room_is_hashmap_witness:
  "\<exists>ss. sender_run (lru_cache (reference_lru 2)) (lru_cached (\<lambda>l. l)) sample_tcp (sender_new [] [])
       [(1, [65], 7)] ss \<and> ss_notified ss = [(7, Inr ())] \<and> as_hashmap (\<lambda>l. l) ss = sample_done"
proof -
  have L: "lru_contract (reference_lru 2) (\<lambda>l :: (nat \<times> arc) list. l) 2"
    using ref_lru.lru_contract_axioms [of 1] by (simp add: numeral_2_eq_2)
  have A: "finite {1 :: nat}" "card {1 :: nat} \<le> 2" "\<forall>(a, d, t) \<in> set [(1 :: nat, [65 :: u8], 7 :: nat)]. a \<in> {1}"
    by simp_all
  obtain ss where ss: "sender_run (lru_cache (reference_lru 2)) (lru_cached (\<lambda>l. l)) sample_tcp (sender_new [] [])
      [(1, [65], 7)] ss" "sample_done = as_hashmap (\<lambda>l. l) ss"
    using lru_with_room_is_hashmap [OF L refl A, of sample_tcp "[]" sample_done] sample_run
    unfolding sample_start_def by blast
  moreover have "ss_notified ss = [(7, Inr ())]"
    using arg_cong [OF ss(2), of ss_notified] by (simp add: sample_done_def)
  ultimately show ?thesis by auto
qed

end
