(* ===== verification/Frame_Outcomes.thy ===== *)
theory Frame_Outcomes
  imports Net_Api
begin

text \<open>
  What can come of a frame: exactly which frames make the task of a connection panic, and that
  every text a listener hands to JavaScript is a valid Rust string.
\<close>

section \<open>Strings\<close>

text \<open>A Rust \<open>String\<close> is closed under what \<open>format!\<close> does: concatenation and ASCII texts.\<close>

lemma utf8_valid_append: "utf8_valid a \<Longrightarrow> utf8_valid b \<Longrightarrow> utf8_valid (a @ b)"
proof -
  assume "utf8_valid a" "utf8_valid b"
  then obtain cs ds where "\<forall>c \<in> set cs. is_scalar c" "a = concat (map encode_scalar cs)"
    "\<forall>c \<in> set ds. is_scalar c" "b = concat (map encode_scalar ds)"
    unfolding utf8_valid_iff by blast
  then show ?thesis unfolding utf8_valid_iff by (intro exI [of _ "cs @ ds"]) auto
qed

lemma string_ok_append [intro]: "string_ok s \<Longrightarrow> string_ok t \<Longrightarrow> string_ok (s @ t)"
  by (simp add: string_ok_def utf8_valid_append)

definition ascii :: "string \<Rightarrow> bool" where
  "ascii s \<longleftrightarrow> (\<forall>c \<in> set s. byte_of c < 0x80)"

lemma ascii_string_ok: "ascii s \<Longrightarrow> string_ok s"
  by (auto simp: ascii_def string_ok_def intro!: utf8_valid_ascii)

lemma byte_of_char_of: "n < 128 \<Longrightarrow> byte_of (char_of (n :: nat)) < 0x80"
  by (simp add: byte_of_def word_less_nat_alt unsigned_of_nat take_bit_nat_eq_self)

lemma ascii_simps [simp]:
  "ascii []" "ascii (c # s) \<longleftrightarrow> byte_of c < 0x80 \<and> ascii s" "ascii (s @ t) \<longleftrightarrow> ascii s \<and> ascii t"
  by (auto simp: ascii_def)

lemma ascii_digits: "n < 10 \<Longrightarrow> byte_of (digit_char n) < 0x80"
  by (simp add: digit_char_def byte_of_char_of)

lemma ascii_fmt_dec: "ascii (fmt_dec n)"
  using fmt_dec_digits ascii_digits by (fastforce simp: ascii_def)

lemma ascii_hex_digit: "n < 16 \<Longrightarrow> byte_of (hex_digit n) < 0x80"
  by (auto simp: hex_digit_def intro: byte_of_char_of)

lemma ascii_fmt_02x: "ascii (fmt_02x b)"
  by (simp add: fmt_02x_def ascii_hex_digit)

lemma ascii_hex: "ascii (concat (map fmt_02x bs))"
  by (induction bs) (simp_all add: ascii_fmt_02x)

lemma string_ok_sign_json: "string_ok (sign_to_json_string s)"
  by (rule ascii_string_ok) (simp add: sign_to_json_string_def ascii_hex, simp add: byte_of_def)

lemma string_ok_header_json:
  assumes "\<forall>u. string_ok (uuid_fmt u)" "header_v1_ok h"
  shows "string_ok (header_to_json_string uuid_fmt (V1 h))"
proof -
  have lit: "string_ok s" if "ascii s" for s using that by (rule ascii_string_ok)
  have fields: "string_ok (sender_id h)" "string_ok (tracker_id h)" "string_ok (verification_data h)"
    using assms(2) by (simp_all add: header_v1_ok_def text_ok_def)
  show ?thesis
    unfolding header_to_json_string.simps header_v1_to_json_string_def
    by (intro string_ok_append fields assms(1) [rule_format] lit ascii_fmt_dec) (simp_all add: byte_of_def)
qed

section \<open>Panics\<close>

text \<open>A frame's body starts with the encoding of a message; a header field with that of a header.\<close>

definition encodes_message :: "Message \<Rightarrow> u8 list \<Rightarrow> bool" where
  "encodes_message m bs \<longleftrightarrow> message_ok m \<and> (\<exists>r. bs = message_serialize m @ r)"

definition encodes_header :: "HeaderV1 \<Rightarrow> u8 list \<Rightarrow> bool" where
  "encodes_header h bs \<longleftrightarrow> header_v1_ok h \<and> (\<exists>r. bs = header_v1_serialize h @ r)"

text \<open>A length that a signature made by the library can have.\<close>

definition signature_sized :: "sodium \<Rightarrow> u8 list \<Rightarrow> bool" where
  "signature_sized S sg \<longleftrightarrow>
     (\<exists>b sk d. so_sk_from_slice S b = Some sk \<and> length sg = length (so_sign S d sk))"

lemma message_deserialize_encodes:
  "(\<exists>c. message_deserialize (cursor_new bs) = Some (m, c)) \<longleftrightarrow> encodes_message m bs"
  unfolding cursor_new_at message_wire.dec_iff by (auto simp: encodes_message_def)

lemma header_deserialize_encodes:
  "(\<exists>c. header_deserialize_factory v (cursor_new bs) = Some (hdr, c)) \<longleftrightarrow>
     v = 1 \<and> (\<exists>h. hdr = V1 h \<and> encodes_header h bs)"
  unfolding cursor_new_at header_deserialize_factory_eq_Some header_wire.dec_iff
  by (auto simp: encodes_header_def)

lemma handle_verified_panics:
  "(\<exists>p. handle_verified E m = Frame_panic p) \<longleftrightarrow>
     m_header_version m \<noteq> 1 \<or> (\<nexists>h. encodes_header h (m_header m))"
proof (cases "header_deserialize_factory (m_header_version m) (cursor_new (m_header m))")
  case None
  with header_deserialize_encodes [of "m_header_version m" "m_header m"] show ?thesis
    by (auto simp: handle_verified_def)
next
  case (Some hc)
  then obtain hdr c where hc: "header_deserialize_factory (m_header_version m) (cursor_new (m_header m)) = Some (hdr, c)"
    by (cases hc) auto
  with header_deserialize_encodes [of "m_header_version m" "m_header m" hdr]
  have "m_header_version m = 1" "\<exists>h. encodes_header h (m_header m)" by auto
  moreover have "\<not> (\<exists>p. handle_verified E m = Frame_panic p)"
    using hc by (auto simp: handle_verified_def Let_def split: option.splits if_splits)
  ultimately show ?thesis by blast
qed

lemma message_verify_panics:
  assumes "hash_key_accepted S sc"
  shows "(\<exists>p. message_verify S sc m = Inl p) \<longleftrightarrow> so_pk_from_slice S (owner (m_sign m)) = None"
proof -
  obtain d where d: "crypto_hash S sc (message_serialize_unsigned m) Buffer_format = Inr (Buffer d)"
    using crypto_hash_accepted [OF assms] by blast
  then show ?thesis
    by (cases "so_pk_from_slice S (owner (m_sign m))")
      (simp_all add: message_verify_def get_pk_def expect_def crypto_verify_buffer)
qed

section \<open>Properties\<close>

text \<open>
  C26. Texts stay texts: whatever bytes a peer sends, the message, the header's JSON form and the
  signature's JSON form that a listener hands over are valid UTF-8, as a Rust \<open>String\<close> has to be,
  and metadata comes with version 1 only.
\<close>

theorem delivered_texts_valid:
  assumes "\<forall>u. string_ok (x_uuid_fmt E u)"
    and "(msg, a, md) \<in> set (snd (receive E st alive ra s []))"
  shows "a = ra \<and> string_ok msg \<and>
    (\<forall>m. md = Some m \<longrightarrow> rm_version m = 1 \<and> string_ok (rm_header_json_string m) \<and>
       string_ok (rm_sign_json_string m))"
proof -
  from run_frames_delivered [of "(msg, a, md)"] assms(2) obtain f where
    a: "a = ra" and f: "handle_frame E st f = Received msg md"
    unfolding receive_run_frames by force
  have "rm_version m = 1 \<and> string_ok (rm_header_json_string m) \<and> string_ok (rm_sign_json_string m)"
    if md: "md = Some m" for m
  proof -
    obtain bs where "handle_header_frame E st bs = Received msg (Some m)"
      using handle_frame_cases_metadata f md by blast
    then obtain mm :: Message and h c where m: "header_deserialize_factory (m_header_version mm) (cursor_new (m_header mm)) = Some (h, c)"
      "m = \<lparr>rm_version = m_header_version mm, rm_header_json_string = header_to_json_string (x_uuid_fmt E) h,
         rm_sign_json_string = sign_to_json_string (m_sign mm)\<rparr>"
      unfolding handle_header_frame_Received handle_verified_Received option.inject by blast
    then obtain hv where hv: "m_header_version mm = 1" "h = V1 hv" "header_v1_deserialize (cursor_at [] (m_header mm)) = Some (hv, c)"
      by (auto simp: header_deserialize_factory_eq_Some cursor_new_at)
    then have "header_v1_ok hv" by (auto simp: header_wire.dec_iff)
    from string_ok_header_json [OF assms(1) this] m(2) hv string_ok_sign_json show ?thesis by simp
  qed
  with a handle_frame_string_ok [OF f] show ?thesis by blast
qed


theorem delivered_texts_valid_witness:
  "string_ok ''hi'' \<and> string_ok (header_to_json_string to_hex (V1 hi_header)) \<and>
   string_ok (sign_to_json_string (m_sign hi_message))"
proof -
  let ?md = "\<lparr>rm_version = 1, rm_header_json_string = header_to_json_string to_hex (V1 hi_header),
      rm_sign_json_string = sign_to_json_string (m_sign hi_message)\<rparr>"
  have u: "\<forall>u. string_ok (x_uuid_fmt sample_externals u)"
    by (auto simp: sample_externals_def to_hex_def intro!: ascii_string_ok ascii_hex)
  have "(''hi'', 0 :: nat, Some ?md) \<in> set (snd (receive sample_externals sample_static (\<lambda>_. True) 0
      (wire_frame (1 # message_serialize hi_message) @ []) []))"
    by (simp only: receive_wire_frame [OF blob_ok_hi(1)] hi_frame) (simp add: receive_short)
  from delivered_texts_valid [OF u this] show ?thesis by simp
qed

text \<open>
  C27. Exactly which frames make a connection's task panic, when the process has a hash key that the
  library accepts: those that start with the header marker and whose body is no encoded message,
  or is one with a header within the limit that names an owner which is no public key, or one
  whose signature verifies but whose header is not of version 1 or no encoded header.  Of these
  only the last need a valid signature: any peer can end its own connection's task, none of the
  others.  This is stated of frames whose signature, if they hold a message, has a length that
  signatures of the library have; for any other the comment on \<open>verify\<close> announces a panic of its
  own, which its code does not contain.
\<close>

theorem frame_panics_iff:
  assumes "SHARDUS_CRYPTO_INSTANCE st = Some sc" "hash_key_accepted (x_sodium E) sc"
    and sized: "\<forall>bs m. f = 1 # bs \<longrightarrow> encodes_message m bs \<longrightarrow> signature_sized (x_sodium E) (sig (m_sign m))"
  shows "(\<exists>p. handle_frame E st f = Frame_panic p) \<longleftrightarrow>
    (\<exists>bs. f = 1 # bs \<and>
      ((\<nexists>m. encodes_message m bs) \<or>
       (\<exists>m. encodes_message m bs \<and> length (m_header m) \<le> 4096 \<and>
         (so_pk_from_slice (x_sodium E) (owner (m_sign m)) = None \<or>
          (message_verify (x_sodium E) sc m = Inr True \<and>
           (m_header_version m \<noteq> 1 \<or> (\<nexists>h. encodes_header h (m_header m))))))))"
proof -
  have header: "(\<exists>p. handle_header_frame E st bs = Frame_panic p) \<longleftrightarrow>
      (\<nexists>m. encodes_message m bs) \<or>
      (\<exists>m. encodes_message m bs \<and> length (m_header m) \<le> 4096 \<and>
        (so_pk_from_slice (x_sodium E) (owner (m_sign m)) = None \<or>
         (message_verify (x_sodium E) sc m = Inr True \<and>
          (m_header_version m \<noteq> 1 \<or> (\<nexists>h. encodes_header h (m_header m))))))" for bs
  proof (cases "message_deserialize (cursor_new bs)")
    case None
    with message_deserialize_encodes [of bs] show ?thesis by (auto simp: handle_header_frame_def)
  next
    case (Some mc)
    then obtain m c where mc: "message_deserialize (cursor_new bs) = Some (m, c)" by (cases mc) auto
    with message_deserialize_encodes [of bs] have m: "encodes_message m' bs \<longleftrightarrow> m' = m" for m'
      by (metis fst_conv option.inject)
    show ?thesis
    proof (cases "message_verify (x_sodium E) sc m")
      case (Inl p)
      with message_verify_panics [OF assms(2), of m] mc assms(1) show ?thesis
        by (simp add: m handle_header_frame_def get_shardus_crypto_instance_def expect_def
            HEADER_SIZE_LIMIT_IN_BYTES_def)
    next
      case (Inr b)
      with message_verify_panics [OF assms(2), of m] obtain pk where "so_pk_from_slice (x_sodium E) (owner (m_sign m)) = Some pk"
        by auto
      with Inr mc assms(1) handle_verified_panics [of E m] show ?thesis
        by (simp add: m handle_header_frame_def get_shardus_crypto_instance_def expect_def
            HEADER_SIZE_LIMIT_IN_BYTES_def)
    qed
  qed
  show ?thesis
  proof (cases "\<exists>bs. f = 1 # bs")
    case True
    then obtain bs where "f = 1 # bs" by blast
    with header [of bs] show ?thesis by simp
  next
    case False
    then have "\<not> (f \<noteq> [] \<and> f ! 0 = 1)" by (cases f) auto
    then have "handle_frame E st f \<noteq> Frame_panic p" for p
      unfolding handle_frame_def if_not_P [OF \<open>\<not> (f \<noteq> [] \<and> f ! 0 = 1)\<close>]
      by (simp split: option.split)
    with False show ?thesis by blast
  qed
qed

theorem frame_panics_iff_witness:
  "(\<exists>p. handle_frame sample_externals sample_static [1, 0, 0] = Frame_panic p) \<and>
   (\<nexists>p. handle_frame sample_externals sample_static (1 # message_serialize forged_message) = Frame_panic p)"
proof -
  let ?f = "1 # message_serialize forged_message"
  have st: "SHARDUS_CRYPTO_INSTANCE sample_static = Some sample_crypto" by (simp add: sample_static_def)
  have acc: "hash_key_accepted (x_sodium sample_externals) sample_crypto"
    using sample_hash_key_accepted by (simp add: sample_externals_def)
  have none: "\<nexists>m. encodes_message m [0, 0]"
    using message_deserialize_short [of "[0, 0]"] message_deserialize_encodes [of "[0, 0]"] by auto
  have one: "encodes_message m (message_serialize forged_message) \<longleftrightarrow> m = forged_message" for m
    using message_deserialize_encodes [of "message_serialize forged_message" m]
      message_wire.dec_new_exact [OF hi_message_ok(2)] by auto
  have sized: "signature_sized (x_sodium sample_externals) (sig (m_sign forged_message))"
    unfolding signature_sized_def
    by (intro exI [of _ "[0]"] exI [of _ "drop 1 (sig (m_sign forged_message))"])
      (simp add: sample_externals_def sample_sodium_def forged_message_def sign_new_def)
  have 1: "\<exists>p. handle_frame sample_externals sample_static [1, 0, 0] = Frame_panic p"
    by (subst frame_panics_iff [OF st acc]) (use none in auto)
  have "\<forall>bs m. ?f = 1 # bs \<longrightarrow> encodes_message m bs \<longrightarrow>
      signature_sized (x_sodium sample_externals) (sig (m_sign m))"
    using one sized by simp
  from frame_panics_iff [OF st acc this] forged_frame have
    "\<nexists>p. handle_frame sample_externals sample_static ?f = Frame_panic p" by simp
  with 1 show ?thesis by blast
qed

end
