(* ===== verification/Unit_Tests.thy ===== *)
theory Unit_Tests
  imports Header Message Eth_Utils
begin

text \<open>
  The unit tests that the files of the crates end with, as definitions: a test is true when the
  model runs it without a panic and every assertion holds.  Tests of the crates' own code hold by
  evaluation; tests that pin values of a library are predicates on the library, and the lemmas
  say what a library that passes them does for the rest of the program.
\<close>

section \<open>Passing\<close>

definition passes :: "bool may_panic \<Rightarrow> bool" where
  "passes r = (case r of Inl _ \<Rightarrow> False | Inr b \<Rightarrow> b)"

lemma passes_simps [simp]: "\<not> passes (Inl p)" "passes (Inr b) = b"
  by (simp_all add: passes_def)

lemma passes_rbind: "passes (rbind r f) \<longleftrightarrow> (\<exists>x. r = Inr x \<and> passes (f x))"
  by (cases r) simp_all

text \<open>Rust's \<open>Result::expect\<close>.\<close>

definition expect_result :: "string \<Rightarrow> 'e + 'a \<Rightarrow> 'a may_panic" where
  "expect_result msg r = (case r of Inl _ \<Rightarrow> Inl (Panic msg) | Inr v \<Rightarrow> Inr v)"

lemma expect_result_eq_Inr [rust_simps]: "expect_result msg r = Inr v \<longleftrightarrow> r = Inr v"
  by (cases r) (simp_all add: expect_result_def)

section \<open>The crypto crate\<close>

definition test_hash_key :: string where
  "test_hash_key =
     ''64f152869ca2d473e4ba64ab53f49ccdb2edae22da192c126850970e788af347''"

definition test_sk_hex :: string where
  "test_sk_hex =
     ''c3774b92cc8850fb4026b073081290b82cab3c0f66cac250b4d710ee9aaf83ed8088b37f6f458104'' @
      ''515ae18c2a05bde890199322f62ab5114d20c77bde5e6c9d''"

definition test_pk_hex :: string where
  "test_pk_hex = ''8088b37f6f458104515ae18c2a05bde890199322f62ab5114d20c77bde5e6c9d''"

definition test_nodejs_sig :: string where
  "test_nodejs_sig =
     ''cd1159381c39554a07309b0a0803a0cef4a85eb78685086f8ccbd06fe846bbd260bd8cd1ae9c4eff'' @
      ''6af672be72c2a18d561793a301986276af999f2fd49477011234567890abcdef''"

definition test_secret_key :: "sodium \<Rightarrow> u8 list may_panic" where
  "test_secret_key S =
     rbind (expect option_unwrap_msg (so_hex_decode S test_sk_hex))
       (\<lambda>b. expect ''Invalid secret key'' (so_sk_from_slice S b))"

definition test_public_key :: "sodium \<Rightarrow> u8 list may_panic" where
  "test_public_key S =
     rbind (expect option_unwrap_msg (so_hex_decode S test_pk_hex))
       (\<lambda>b. expect ''Invalid public key'' (so_pk_from_slice S b))"

definition test_hash :: "sodium \<Rightarrow> bool" where
  "test_hash S = passes
     (rbind (shardus_crypto_new S test_hash_key)
       (\<lambda>sc. rbind (crypto_hash S sc (into_bytes ''hello world'') Hex_format)
         (\<lambda>result. Inr (hex_or_buffer_fmt result =
           ''463bad7a09d224af5251be7d979cc8db3df37c422ea38d6c3986c54ee9c8f116''))))"

definition test_sign :: "sodium \<Rightarrow> bool" where
  "test_sign S = passes
     (rbind (shardus_crypto_new S test_hash_key)
       (\<lambda>sc. rbind (test_secret_key S)
         (\<lambda>sk. let some_hex_string = ''1234567890abcdef'' in
           rbind (expect option_unwrap_msg (so_hex_decode S some_hex_string))
             (\<lambda>buf. rbind (expect_result ''Couldn't sign buffer'' (crypto_sign S (Buffer buf) sk))
               (\<lambda>buffer_fed_sig. rbind (expect_result ''Couldn't sign hex string'' (crypto_sign S (Hex some_hex_string) sk))
                 (\<lambda>str_fed_sig. Inr (test_nodejs_sig = so_hex_encode S buffer_fed_sig \<and>
                    test_nodejs_sig = so_hex_encode S str_fed_sig \<and> buffer_fed_sig = str_fed_sig)))))))"

definition test_verify :: "sodium \<Rightarrow> bool" where
  "test_verify S = passes
     (rbind (shardus_crypto_new S test_hash_key)
       (\<lambda>sc. rbind (test_public_key S)
         (\<lambda>pk. rbind (expect ''Invalid hex format for signature'' (so_hex_decode S test_nodejs_sig))
           (\<lambda>decoded_buf_sig. crypto_verify S (Hex ''1234567890abcdef'') decoded_buf_sig pk))))"

definition test_sign_verify_encoderless_buffer :: "sodium \<Rightarrow> bool" where
  "test_sign_verify_encoderless_buffer S = passes
     (rbind (shardus_crypto_new S test_hash_key)
       (\<lambda>sc. rbind (test_public_key S)
         (\<lambda>pk. rbind (test_secret_key S)
           (\<lambda>sk. let some_message = into_bytes ''hello world'' in
             rbind (expect_result ''Couldn't sign buffer'' (crypto_sign S (Buffer some_message) sk))
               (\<lambda>sig. crypto_verify S (Buffer some_message) sig pk)))))"

text \<open>
  The key pair of the tests is one: the public key is that of the secret key.  A library that
  keeps its documentation and passes \<open>test_sign\<close> then passes the two tests that verify.
\<close>

lemma crypto_tests_follow:
  assumes signs: "\<And>sk. test_secret_key S = Inr sk \<Longrightarrow> sodium_signs S sk" and hex: "\<And>b. so_hex_decode S (so_hex_encode S b) = Some b"
    and pair: "\<And>sk. test_secret_key S = Inr sk \<Longrightarrow> test_public_key S = Inr (so_public_key S sk)"
    and sign: "test_sign S"
  shows "test_verify S" "test_sign_verify_encoderless_buffer S"
proof -
  obtain sc sk b sg where sc: "shardus_crypto_new S test_hash_key = Inr sc" and sk: "test_secret_key S = Inr sk"
    and b: "so_hex_decode S ''1234567890abcdef'' = Some b"
    and sg: "crypto_sign S (Buffer b) sk = Inr sg" "test_nodejs_sig = so_hex_encode S sg"
    using sign by (auto simp: test_sign_def passes_rbind rust_simps Let_def)
  have dec: "so_hex_decode S test_nodejs_sig = Some sg" unfolding sg(2) by (rule hex)
  have opens: "so_verify S (so_sign S m sk) (so_public_key S sk) = Some m" for m
    using signs [OF sk] by (simp add: sodium_signs_def)
  show "test_verify S"
    using sg(1) opens [of b]
    by (simp add: test_verify_def sc pair [OF sk] dec crypto_verify_def crypto_sign_def b)
  show "test_sign_verify_encoderless_buffer S"
    by (simp add: test_sign_verify_encoderless_buffer_def sc sk pair [OF sk] crypto_sign_def crypto_verify_def
        expect_result_def opens)
qed

section \<open>Compression\<close>

definition hello_world :: "u8 list" where
  "hello_world = into_bytes ''Hello, World!''"

definition round_trip_test :: "codecs \<Rightarrow> Compression \<Rightarrow> (u8 list \<Rightarrow> bool) \<Rightarrow> bool" where
  "round_trip_test K c compressed_ok = passes
     (rbind (compress K c hello_world)
       (\<lambda>compressed. rbind (expect unwrap_msg (decompress K c compressed))
         (\<lambda>decompressed. Inr (compressed_ok compressed \<and> hello_world = decompressed))))"

definition test_none_compression :: "codecs \<Rightarrow> bool" where
  "test_none_compression K = round_trip_test K NoCompression (\<lambda>c. hello_world = c)"

definition test_gzip_compression :: "codecs \<Rightarrow> bool" where
  "test_gzip_compression K = round_trip_test K Gzip (\<lambda>c. hello_world \<noteq> c)"

definition test_brotli_compression :: "codecs \<Rightarrow> bool" where
  "test_brotli_compression K = round_trip_test K Brotli (\<lambda>c. hello_world \<noteq> c)"

definition test_invalid_decompression :: "codecs \<Rightarrow> bool" where
  "test_invalid_decompression K =
     (let data = into_bytes ''Invalid compressed data''
      in decompress K Gzip data = None \<and> decompress K Brotli data = None)"

text \<open>With lawful libraries, and formats that mark their output, the round trips hold.\<close>

lemma compression_tests_hold:
  assumes "codecs_lawful K"
  shows "test_none_compression K"
    "gz_encode K hello_world \<noteq> Some hello_world \<Longrightarrow> test_gzip_compression K"
    "br_encode K 4096 5 22 hello_world \<noteq> Some hello_world \<Longrightarrow> test_brotli_compression K"
proof -
  obtain e where e: "gz_encode K hello_world = Some e" "gz_decode K e = Some hello_world"
    using assms unfolding codecs_lawful_def by blast
  obtain e' where e': "br_encode K 4096 5 22 hello_world = Some e'" "br_decode K 4096 e' = Some hello_world"
    using assms unfolding codecs_lawful_def by blast
  show "test_none_compression K" by (simp add: test_none_compression_def round_trip_test_def)
  show "gz_encode K hello_world \<noteq> Some hello_world \<Longrightarrow> test_gzip_compression K"
    using e by (auto simp: test_gzip_compression_def round_trip_test_def)
  show "br_encode K 4096 5 22 hello_world \<noteq> Some hello_world \<Longrightarrow> test_brotli_compression K"
    using e' by (auto simp: test_brotli_compression_def round_trip_test_def)
qed

section \<open>Headers\<close>

text \<open>The random uuid, and the functions of the uuid crate, are parameters.\<close>

definition test_header :: "u8 list \<Rightarrow> HeaderV1" where
  "test_header new_v4 =
     \<lparr>uuid = new_v4, message_length = 42, sender_id = ''sender_1'', tracker_id = ''tracker_1'',
      verification_data = ''verification_data_1'', compression = NoCompression\<rparr>"

definition test_serialize_and_deserialize :: "u8 list \<Rightarrow> bool" where
  "test_serialize_and_deserialize new_v4 =
     (let header = test_header new_v4;
          serialized = header_v1_serialize header
      in case header_v1_deserialize (cursor_new serialized) of
           None \<Rightarrow> False
         | Some (deserialized, _) \<Rightarrow>
             uuid header = uuid deserialized \<and> message_length header = message_length deserialized \<and>
             sender_id header = sender_id deserialized \<and> compression header = compression deserialized)"

definition test_uuid :: string where
  "test_uuid = ''550e8400-e29b-41d4-a716-446655440000''"

definition json_line :: "string \<Rightarrow> string" where
  "json_line s = [CHR 0x0A] @ replicate 12 (CHR 0x20) @ s"

definition test_json_input :: string where
  \<open>test_json_input = ''{'' @ json_line ''"uuid": "550e8400-e29b-41d4-a716-446655440000",'' @
     json_line ''"message_length": 42,'' @ json_line ''"sender_id": "127.0.0.1",'' @
     json_line ''"compression": "Gzip"'' @ [CHR 0x0A] @ replicate 8 (CHR 0x20) @ ''}''\<close>

definition test_from_json_string :: "(string \<Rightarrow> HeaderFields option) \<Rightarrow> (string \<Rightarrow> u8 list option) \<Rightarrow> bool" where
  "test_from_json_string serde_from_str parse_str =
     (case header_v1_from_json_string serde_from_str test_json_input of
        None \<Rightarrow> False
      | Some header \<Rightarrow>
          (case parse_str test_uuid of
             None \<Rightarrow> False
           | Some u \<Rightarrow> uuid header = u \<and> message_length header = 42 \<and> sender_id header = ''127.0.0.1'' \<and>
                       compression header = Gzip))"

definition header_test_to_json_string :: "(u8 list \<Rightarrow> string) \<Rightarrow> (string \<Rightarrow> u8 list option) \<Rightarrow> bool" where
  \<open>header_test_to_json_string uuid_fmt parse_str =
     (case parse_str test_uuid of
        None \<Rightarrow> False
      | Some u \<Rightarrow> header_v1_to_json_string uuid_fmt (test_header u) =
          ''{"uuid": "550e8400-e29b-41d4-a716-446655440000", "message_length": 42, "sender_id": "sender_1", '' @
          ''"tracker_id": "tracker_1", "verification_data": "verification_data_1"}'')\<close>

lemma header_test_roundtrip: "length new_v4 = 16 \<Longrightarrow> test_serialize_and_deserialize new_v4"
proof -
  assume "length new_v4 = 16"
  then have "header_v1_ok (test_header new_v4)"
    by (simp add: header_v1_ok_def test_header_def text_ok_def string_ok_def blob_ok_def byte_of_def)
  from header_wire.dec_new [OF this, of "[]"] show ?thesis
    by (simp add: test_serialize_and_deserialize_def)
qed

text \<open>Where serde and uuid read and write the texts of the tests as their documentation says.\<close>

lemma header_test_from_json:
  assumes "parse_str test_uuid = Some u"
    and "serde_from_str test_json_input =
      Some \<lparr>f_uuid = Some u, f_message_length = Some 42, f_sender_id = Some ''127.0.0.1'', f_tracker_id = None,
        f_verification_data = None, f_compression = Some ''Gzip''\<rparr>"
  shows "test_from_json_string serde_from_str parse_str"
  using assms
  by (simp add: test_from_json_string_def header_v1_from_json_string_def header_v1_of_fields_def or_default_def
      compression_from_name_def)

lemma header_test_to_json:
  "parse_str test_uuid = Some u \<Longrightarrow> uuid_fmt u = test_uuid \<Longrightarrow> header_test_to_json_string uuid_fmt parse_str"
  by (simp add: header_test_to_json_string_def header_v1_to_json_string_def test_header_def test_uuid_def fmt_dec.simps
      digit_char_def char_of_def bit_0)

section \<open>Messages\<close>

definition sign_test_to_json_string :: bool where
  \<open>sign_test_to_json_string \<longleftrightarrow>
     sign_to_json_string \<lparr>owner = [0x12, 0x34, 0x56, 0x78], sig = [0x9a, 0xbc, 0xde, 0xf0]\<rparr> =
     ''{"owner": "12345678", "sig": "9abcdef0"}''\<close>

lemma sign_test_holds: sign_test_to_json_string
  by (simp add: sign_test_to_json_string_def sign_to_json_string_def fmt_02x_def hex_digit_def char_of_def bit_0)

section \<open>Transactions\<close>

definition test_tx_eip2930 :: string where
  "test_tx_eip2930 =
     ''01f90129821f9205832dc6c0832dc6c0946b92bdc43874fc19ead67ac7e37f2e126667b30780b844'' @
      ''a9059cbb000000000000000000000000cd21d146980570e2dfb5f65a5881efbfdd882ab200000000'' @
      ''0000000000000000000000000000000000000000016345785d8a0000f87cf87a946b92bdc43874fc'' @
      ''19ead67ac7e37f2e126667b307f863a04d6102e88f63713248aa95286e545e26b440b90913646421'' @
      ''6b41036801218d26a0216d8091b2612eb7def258a018b1f2bdc6633976c86e5206357ff8385135f6'' @
      ''64a08066a4dac9c48b171b3aec8bfb10db23409617b8d8cc77acd57d766f7cc4f40080a0131cc2e6'' @
      ''28e7312f6f8ba901e83c75df0c780f99f588b3cd1d88d2d546140126a008e7e60fe3996a4601e437'' @
      ''8d8a10c99ec30887d0dabdd6d8944b8c5a0c04caab''"

definition test_tx_legacy :: string where
  "test_tx_legacy =
     ''f86d5c853f84fc751682520894bd0a42d14bd5cb0fb787476ad777241c210e979e872386f26fc100'' @
      ''0080823f48a0dea7f6599e38b40757e31b4747059a264795d587a202426600655a81d2d9a27ea005'' @
      ''1d012a55da07ae557edbef305eea1a034df90519002f4e24787f9a218aa280''"

definition decode_test_tx :: "('x, 'rid, 'sg, 'pk) eth_ops \<Rightarrow> string \<Rightarrow> 'x Transaction_scheme may_panic" where
  "decode_test_tx X raw_tx =
     rbind (expect option_unwrap_msg (e_hex_decode X raw_tx)) (\<lambda>bytes. expect option_unwrap_msg (e_rlp_decode X bytes))"

definition test_ecrecover_eip2930 :: "bool \<Rightarrow> ('x, 'rid, 'sg, 'pk) eth_ops \<Rightarrow> bool" where
  "test_ecrecover_eip2930 oc X = passes
     (rbind (decode_test_tx X test_tx_eip2930)
       (\<lambda>tx. let sighash = t_sighash (e_typed X tx); v = tx_v tx; r = tx_r tx; s = tx_s tx in
         rbind (u64_add oc v 27)
           (\<lambda>v27. rbind (unwrap_recovery (ecrecover oc X sighash v27 r s None))
             (\<lambda>pubkey. rbind (pub_to_addr X pubkey)
               (\<lambda>(addr, is_valid). Inr
                 (e_address_debug X addr = ''0x384913564a4b0b6f54adcac3c5fc627d69f9fe41'' \<and> is_valid))))))"

definition test_ecrecover_legacy :: "bool \<Rightarrow> ('x, 'rid, 'sg, 'pk) eth_ops \<Rightarrow> bool" where
  "test_ecrecover_legacy oc X = passes
     (rbind (decode_test_tx X test_tx_legacy)
       (\<lambda>tx. let sighash = t_sighash (e_typed X tx); v = tx_v tx; r = tx_r tx; s = tx_s tx in
         rbind (unwrap_recovery (ecrecover oc X sighash v r s (tx_chain_id tx)))
           (\<lambda>pubkey. rbind (pub_to_addr X pubkey)
             (\<lambda>(addr, is_valid). Inr
               (e_address_debug X addr = ''0x32b6f2c027d4c9d99ca07d047d17987390a5eb39'' \<and> is_valid)))))"

definition u256_as_u128 :: "u256 \<Rightarrow> 128 word may_panic" where
  "u256_as_u128 a =
     (if 2 ^ 128 \<le> unat a then Inl (Panic ''Integer overflow when casting to u128'') else Inr (ucast a))"

definition test_gas_base_fee_legacy :: "('x, 'rid, 'sg, 'pk) eth_ops \<Rightarrow> bool" where
  "test_gas_base_fee_legacy X = passes
     (rbind (get_transaction X test_tx_legacy)
       (\<lambda>tx. let typedtx = get_typed_transaction X tx in
         rbind (get_base_fee typedtx)
           (\<lambda>base_fee. let gas_limit = (case t_gas typedtx of None \<Rightarrow> 0 | Some g \<Rightarrow> g) in
             rbind (u256_as_u128 gas_limit)
               (\<lambda>gas. Inr (base_fee = 21000 \<and> gas = 21000)))))"

definition test_gas_base_fee_eip2930 :: "('x, 'rid, 'sg, 'pk) eth_ops \<Rightarrow> bool" where
  "test_gas_base_fee_eip2930 X = passes
     (rbind (get_transaction X test_tx_eip2930)
       (\<lambda>tx. let typedtx = get_typed_transaction X tx in
         rbind (get_base_fee typedtx)
           (\<lambda>base_fee. let gas_limit = (case t_gas typedtx of None \<Rightarrow> 0 | Some g \<Rightarrow> g) in
             rbind (u256_as_u128 base_fee)
               (\<lambda>fee. rbind (u256_as_u128 gas_limit)
                 (\<lambda>gas. Inr (fee < gas \<and> gas = 3000000))))))"

text \<open>
  What the tests establish about the parts carries over to the exported function: on the two
  transactions of the tests it returns the expected address and calls them valid.
\<close>

lemma zero_as_bigint:
  "(case x of None \<Rightarrow> 0 | Some g \<Rightarrow> g) = (case x of None \<Rightarrow> zero_bigint | Some g \<Rightarrow> g)"
  by (simp only: zero_bigint_def)

lemma get_transaction_decode:
  "decode_test_tx X raw = Inr tx \<Longrightarrow> get_transaction X raw = Inr tx"
  by (auto simp: decode_test_tx_def get_transaction_def rust_simps)

lemma u256_as_u128_less:
  assumes "u256_as_u128 a = Inr x" "u256_as_u128 b = Inr y" "x < y"
  shows "a \<le> b"
proof -
  have "unat x = unat a" "unat y = unat b"
    using assms(1,2) by (auto simp: u256_as_u128_def unsigned_ucast_eq take_bit_nat_eq_self split: if_splits)
  with assms(3) show ?thesis by (simp add: word_less_nat_alt word_le_nat_alt)
qed

lemma eip2930_test_carries_over:
  assumes "test_ecrecover_eip2930 oc X" "test_gas_base_fee_eip2930 X"
    and typed: "\<And>tx. get_transaction X test_tx_eip2930 = Inr tx \<Longrightarrow> tx_transaction_type tx \<noteq> None"
  shows "get_sender_address oc X test_tx_eip2930 =
    Inr \<lparr>sa_address = ''0x384913564a4b0b6f54adcac3c5fc627d69f9fe41'', sa_is_valid = True\<rparr>"
proof -
  obtain tx v27 pk a where tx: "get_transaction X test_tx_eip2930 = Inr tx" and v: "u64_add oc (tx_v tx) 27 = Inr v27"
    and pk: "unwrap_recovery (ecrecover oc X (t_sighash (e_typed X tx)) v27 (tx_r tx) (tx_s tx) None) = Inr pk"
    and a: "pub_to_addr X pk = Inr (a, True)" "e_address_debug X a = ''0x384913564a4b0b6f54adcac3c5fc627d69f9fe41''"
    using assms(1) by (auto simp: test_ecrecover_eip2930_def passes_rbind Let_def dest: get_transaction_decode)
  obtain ty where ty: "tx_transaction_type tx = Some ty" using typed [OF tx] by blast
  obtain fee x y where fee: "get_base_fee (e_typed X tx) = Inr fee" "u256_as_u128 fee = Inr x"
    "u256_as_u128 (case t_gas (e_typed X tx) of None \<Rightarrow> zero_bigint | Some g \<Rightarrow> g) = Inr y" "x < y"
    using assms(2) tx by (auto simp: test_gas_base_fee_eip2930_def passes_rbind Let_def get_typed_transaction_def
        zero_as_bigint)
  from u256_as_u128_less [OF fee(2-4)] show ?thesis
    by (simp add: get_sender_address_def tx ty v pk a fee(1) get_typed_transaction_def Let_def)
qed

lemma legacy_test_carries_over:
  assumes "test_ecrecover_legacy oc X" "test_gas_base_fee_legacy X"
    and legacy: "\<And>tx. get_transaction X test_tx_legacy = Inr tx \<Longrightarrow> tx_transaction_type tx = None"
  shows "get_sender_address oc X test_tx_legacy =
    Inr \<lparr>sa_address = ''0x32b6f2c027d4c9d99ca07d047d17987390a5eb39'', sa_is_valid = True\<rparr>"
proof -
  obtain tx pk a where tx: "get_transaction X test_tx_legacy = Inr tx"
    and pk: "unwrap_recovery (ecrecover oc X (t_sighash (e_typed X tx)) (tx_v tx) (tx_r tx) (tx_s tx) (tx_chain_id tx)) = Inr pk"
    and a: "pub_to_addr X pk = Inr (a, True)" "e_address_debug X a = ''0x32b6f2c027d4c9d99ca07d047d17987390a5eb39''"
    using assms(1) by (auto simp: test_ecrecover_legacy_def passes_rbind Let_def dest: get_transaction_decode)
  define g where "g = (case t_gas (e_typed X tx) of None \<Rightarrow> zero_bigint | Some g \<Rightarrow> g)"
  have fee: "get_base_fee (e_typed X tx) = Inr 21000" and "u256_as_u128 g = Inr 21000"
    using assms(2) tx by (auto simp: test_gas_base_fee_legacy_def passes_rbind Let_def get_typed_transaction_def
        zero_as_bigint g_def)
  then have "unat g = 21000"
    by (auto simp: u256_as_u128_def unsigned_ucast_eq take_bit_nat_eq_self word_unat_eq_iff split: if_splits)
  then have "21000 \<le> g" by (simp add: word_le_nat_alt)
  then show ?thesis
    by (simp add: get_sender_address_def tx legacy [OF tx] pk a fee get_typed_transaction_def Let_def g_def [symmetric])
qed

end
