(* ===== verification/Spec2Isabelle.thy ===== *)
theory Spec2Isabelle
  imports Conversation Neon_Calls Cache_Equivalence Multi_Send Frame_Outcomes Unit_Tests
begin

text \<open>
  A verification library for the Rust code of lib-net, the networking layer of Shardus nodes:
  a native module that Node.js loads, which sends framed and optionally signed messages over
  TCP, receives and checks them, keeps statistics, and recovers the sender of an Ethereum
  transaction.

  \<^bold>\<open>The program.\<close>  JavaScript calls the functions of \<open>shardus_net/src/lib.rs\<close>.  A send goes from
  there to \<open>ShardusNetSender\<close> (\<open>shardus_net_sender.rs\<close>): with a header, it is first built into
  a frame - header (\<open>header/\<close>, \<open>header_factory.rs\<close>), message and signature (\<open>message.rs\<close>, on
  \<open>crypto/src/lib.rs\<close> and the process-wide instance of \<open>shardus_crypto.rs\<close>), and a marker byte -
  and put into a channel.  A sender task takes it off, finds the connection of the address in a
  cache (a hash map or an LRU cache), and spawns a task that writes it under the connection's
  lock, connecting and reconnecting as needed, and answers a oneshot.  A waiting task passes
  the answer to JavaScript and counts the send off (\<open>stats.rs\<close>, \<open>ring_buffer.rs\<close>).  The listener
  (\<open>shardus_net_listener.rs\<close>) accepts connections, cuts each stream into frames, checks and
  decodes them, and hands the texts to a channel that a callback drains.
  \<open>shardeum_utils/src/lib.rs\<close> stands beside this: transaction recovery and gas.

  \<^bold>\<open>The theories.\<close>
  \<^item> \<open>Net_Prelude\<close>: words, panics as values (\<open>'a may_panic\<close>), byte orders, cursors, and the
    locale \<open>wire_codec\<close>, the contract of every encoder and decoder pair: what is written is read
    back, and nothing else is accepted.  It is interpreted for length-prefixed byte strings,
    words, texts, signatures, messages and headers, in the theories that define them.
  \<^item> \<open>Rust_Strings\<close>: UTF-8 strings as byte strings, proved to be the encodings of scalar
    values; the formatting the program uses.
  \<^item> \<open>Compression\<close>, \<open>Shardus_Crypto\<close>, \<open>Message\<close>, \<open>Header\<close>: one theory each for
    \<open>compression.rs\<close>; \<open>crypto/src/lib.rs\<close> with \<open>shardus_crypto.rs\<close>; \<open>message.rs\<close>;
    \<open>header_v1.rs\<close>, \<open>header_types.rs\<close> and \<open>header_factory.rs\<close>.  Decoders thread a cursor and
    return an option, as the code does with \<open>?\<close> on \<open>Option\<close>.
  \<^item> \<open>Listener\<close>: \<open>receive\<close> is the read loop, recursive on the bytes still to come (each round
    takes at least four), with one result per way the loop body can end; \<open>run_frames\<close> on
    \<open>split_frames\<close> is its specification.  Binding, accepting and sleeping are the step relation
    \<open>loop_step\<close>.
  \<^item> \<open>Connection\<close>, \<open>Connection_Cache\<close>, \<open>Net_Sender\<close>: the three layers of
    \<open>shardus_net_sender.rs\<close>.  A connection's send is a function on the world of TCP streams; the
    cache's trait is the locale \<open>connection_cache\<close>, interpreted for the hash map and, by a
    sublocale, for every LRU crate that satisfies \<open>lru_contract\<close>; the sender is a record of
    channels, cache, heap of connections, tasks and answers, and \<open>sender_step\<close> interleaves the
    sender task, the evictor, the send tasks and the freeing of connections in any order.  The
    code has no timeouts: the connect or write of a task may never return, with the connection's
    lock held.  A step of its own (\<open>stall_connection\<close>) says so, after which no task of that
    connection moves any more.
  \<^item> \<open>Ring_Buffer\<close>, \<open>Net_Stats\<close>: \<open>ring_buffer.rs\<close> with its abstraction (the last values put), the
    locale \<open>summable\<close> for the element types; \<open>stats.rs\<close> and the result objects of \<open>lib.rs\<close>.
  \<^item> \<open>Net_Api\<close>, \<open>Api_Invariants\<close>: the functions of \<open>lib.rs\<close> as state transformers with three
    outcomes (return, throw, panic), and the bookkeeping of oneshots, waiting tasks and the
    counter of outstanding sends over \<open>api_step\<close>.
  \<^item> \<open>Sender_Termination\<close>, \<open>Send_Lifecycle\<close>: the measures of what the tasks have left to do, first
    for the sender, then for an object of \<open>lib.rs\<close> with its waiting tasks; what is true where
    they come to rest.
  \<^item> \<open>Cache_Equivalence\<close>, \<open>Multi_Send\<close>, \<open>Frame_Outcomes\<close>: the LRU cache against the hash map, the
    multi-send against single sends, and what a single frame can do to the listener.
  \<^item> \<open>Connection_Task\<close>, \<open>Node_Receive\<close>: \<open>receive\<close> again, one round at a time on bytes that arrive
    piece by piece, shown to be the loop of \<open>Listener\<close>; and a node - accept loop, connection
    tasks, channel, blocking pool, JavaScript queue, and the object with its sends - as the step
    relation \<open>node_step\<close>.
  \<^item> \<open>Sender_To_Listener\<close>, \<open>Conversation\<close>: the two ends of a connection, first for single frames,
    then for runs: what an object's calls said and what another node's connection hears.
  \<^item> \<open>Eth_Utils\<close>: \<open>shardeum_utils/src/lib.rs\<close> and \<open>get_sender_address\<close> of \<open>lib.rs\<close>.
  \<^item> \<open>Neon_Calls\<close>: the functions as JavaScript calls them, with a list of arguments and a \<open>this\<close>,
    the constructor \<open>js_create\<close>, the log switch and the exports of the module.
  \<^item> \<open>Unit_Tests\<close>: the unit tests of the crates, as predicates.

  \<^bold>\<open>What is shown.\<close>  The codecs are exact.  What a sender builds, a listener with the same hash
  key delivers, with exactly the metadata of what was signed, if the header is within the
  listener's limit of 4096 bytes, which the sender does not know; and whatever a listener
  delivers with metadata was signed.  The read loop refines its specification; frames that are
  skipped cost only themselves.  A connection's stream carries whole frames of items for its
  address; connections never share a stream; no send is answered twice, and the tasks of a
  sender and of an object always come to rest, with every promised callback made but those of
  connections that have stalled.  On the receiving side no message is lost or doubled between a
  connection and JavaScript, messages that a sender built reach the callback, and what a node
  hears on a connection fed by another object's stream is what that object's calls said.  The
  caches share connections and the LRU cache keeps its bound.  A multi-send is a series of
  sends.  The ring buffer holds the last values; the counters are balanced; the counter of
  outstanding sends is the number of sends waiting plus those leaked, and the ways to leak are
  named.  The base fee, the recovery id and the recovered address are characterised.  Calls with
  the wrong arguments change nothing but what the constructor does before its last argument.
  Some theorems state behaviour that looks unintended: the in-band marker byte, JSON without
  escaping, leaked counts, contract creations that are not charged, a failed constructor that
  fixes the hash key, frames that make the receiving task panic.  The unit tests that depend on
  the crates' own code hold; those that pin values of a library are shown to carry over to the
  functions that use it.

  \<^bold>\<open>Parameters and hypotheses.\<close>  Libraries that are not part of the repository are records of
  functions: \<open>sodium\<close>, \<open>codecs\<close>, \<open>tcp\<close>, \<open>lru_ops\<close>, \<open>eth_ops\<close>, \<open>f64_ops\<close>, and in \<open>net_params\<close> name
  resolution, serde's JSON reader and texts of addresses and errors.  What the code relies on is
  stated as \<open>sodium_signs\<close>, \<open>hash_key_accepted\<close>, \<open>codecs_lawful\<close>, \<open>tcp_lawful\<close>, \<open>lru_contract\<close>;
  each has a concrete instance (the \<open>sample_\<close> definitions, \<open>reference_lru\<close>) for which it is proved.
  \<open>sodium_signs\<close> is asked of the secret key of the key pair in use only: a byte string of the
  right length that is no key pair's need not sign.  \<open>tcp_lawful\<close> says that a stream carries what
  writes that succeeded put on it, one behind the other, and that a stream on which a write
  failed does not carry later ones; nothing is said of when connects and writes succeed.

  \<^bold>\<open>Bounds.\<close>  Lengths are cast to 32 bits as in the code; a text or frame of 4 GiB or more is
  outside the delivery theorems and inside \<open>stored_length_validates\<close>.  Counters have 64 bits.
  Builds with and without overflow checks are a parameter where they differ.  No fuel is used:
  every loop of the code is a total function or a step relation, and for the tasks of the sender,
  an object and a node a measure bounds the steps they make without new input.  The counter of
  receives is followed as long as fewer than 2^64 messages were taken off the channel.

  \<^bold>\<open>Not modelled.\<close>  The tokio runtime's scheduling beyond the interleaving of steps: the order
  in which its blocking pool starts closures and the number of its threads are left open, so the
  step relation has more runs than the program and only what holds of all of them is stated; the
  bytes a pending write has already put on the wire, which count as carried only when it
  returns (the theorem on conversations adds them); the text of logs; the end of the channels when an object is collected; a JavaScript exception thrown by a
  callback; a crash of the process; memory exhaustion, in particular the allocation of a buffer
  of the length a peer announces; and the TypeScript wrapper.

  \<^bold>\<open>Plan.\<close>  Next: a model of the JSON reader's grammar, so that the header's JSON form can be
  read back; the order and number of what is heard, where no connection fails; the exact sets of inputs on which each entry point of
  \<open>lib.rs\<close> panics.
\<close>

section \<open>Properties that span components\<close>

text \<open>
  C1. Messages with headers are delivered end to end: frames that the sender builds, each below
  4 GiB, written one after the other on a connection, make a listener with the same hash key,
  whose channel is still read, deliver, in order, exactly the texts whose header takes at most the 4096 bytes that the
  listener allows - the sender has no such limit, and longer headers are skipped - each with
  exactly this metadata: the header that was sent, its length filled in, and the signature that
  the sender's key pair makes for header and text; and the connection ends well.
\<close>

theorem header_messages_delivered:
  assumes "same_crypto E st E' st' kp" "\<forall>n. alive n"
    and "list_all2 (\<lambda>(h, msg) f. build_frame E st kp 1 (V1 h) (into_bytes msg) = Inr f) sends frames"
    and "\<forall>x \<in> set sends. well_formed x" "\<forall>f \<in> set frames. length f < 2 ^ 32"
  shows "\<exists>mds. list_all2 (\<lambda>(h, msg) md. shown_metadata E' st' kp h msg md)
      (filter (\<lambda>x. within_limit (fst x)) sends) mds \<and>
    receive E' st' alive ra (concat (map wire_frame frames)) [] =
      (Conn_ok, map2 (\<lambda>(h, msg) md. (msg, ra, Some md)) (filter (\<lambda>x. within_limit (fst x)) sends) mds)"
  using receive_built_frames [OF assms, of ra "[]"] by simp

theorem header_messages_delivered_witness:
  "\<exists>f md1 md2. receive sample_externals sample_static (\<lambda>_. True) (0 :: nat) (wire_frame f @ wire_frame f) [] =
     (Conn_ok, [(''hi'', 0, Some md1), (''hi'', 0, Some md2)]) \<and>
   shown_metadata sample_externals sample_static sample_keys sample_header ''hi'' md1"
proof -
  let ?s = "[(sample_header, ''hi''), (sample_header, ''hi'')]"
  obtain f where f: "build_frame sample_externals sample_static sample_keys 1 (V1 sample_header)
      (into_bytes ''hi'') = Inr f" "length f < 2 ^ 32"
    using sample_built by blast
  then have "list_all2 (\<lambda>(h, msg) f. build_frame sample_externals sample_static sample_keys 1 (V1 h)
      (into_bytes msg) = Inr f) ?s [f, f]" by simp
  moreover have "\<forall>x \<in> set ?s. well_formed x" using sample_well_formed by simp
  moreover have "\<forall>g \<in> set [f, f]. length g < 2 ^ 32" using f(2) by simp
  ultimately obtain mds where "list_all2 (\<lambda>(h, msg) md. shown_metadata sample_externals sample_static sample_keys h msg md)
      (filter (\<lambda>x. within_limit (fst x)) ?s) mds"
    "receive sample_externals sample_static (\<lambda>_. True) (0 :: nat) (concat (map wire_frame [f, f])) [] =
      (Conn_ok, map2 (\<lambda>(h, msg) md. (msg, 0, Some md)) (filter (\<lambda>x. within_limit (fst x)) ?s) mds)"
    using header_messages_delivered [OF sample_same_crypto, of "\<lambda>_. True" ?s "[f, f]" 0] by blast
  then show ?thesis
    by (intro exI [of _ f] exI [of _ "mds ! 0"] exI [of _ "mds ! 1"])
      (auto simp: list_all2_Cons1 sample_within_limit)
qed

text \<open>
  C2. The call from JavaScript to JavaScript.  Where the hash key is one the library accepts,
  \<open>send_with_header\<close> returns exactly when the header parses and the address resolves, having put
  one frame for that address into the sender's channel, under a new oneshot that a task waits
  for; otherwise nothing is queued.  When a listener with the same hash key,
  whose channel is still read, reads that frame, and it is below 4 GiB, the listener delivers the text and its callback is called with it, with
  exactly the metadata of the header and the sender's signature, if the header takes at most the
  4096 bytes the listener allows; and it delivers nothing, although the call returned, if the
  header is longer.
\<close>

theorem send_with_header_end_to_end:
  assumes crypto: "same_crypto (p_externals P) (p_crypto P) E' st' (n_key_pair n)" and alive: "\<forall>k. alive k"
    and accepted: "\<forall>sc. SHARDUS_CRYPTO_INSTANCE (p_crypto P) = Some sc \<longrightarrow>
      hash_key_accepted (x_sodium (p_externals P)) sc"
    and ok: "\<forall>h. header_from_json_string (p_serde P) hs (as_u8 hv) = Some (V1 h) \<longrightarrow> well_formed (h, data)"
  shows "case (header_from_json_string (p_serde P) hs (as_u8 hv), first_address P host port) of
      (Some (V1 h), Some a) \<Rightarrow>
        \<exists>n' f. api_send_with_header P port host hv hs data n = (Js_return (), n') \<and>
          ss_send_channel (n_sender n') = ss_send_channel (n_sender n) @ [(a, f, n_next_token n)] \<and>
          n_waiters n' = n_waiters n @ [(n_next_token n, True)] \<and>
          (length f < 2 ^ 32 \<longrightarrow>
             (if within_limit h then \<exists>md. shown_metadata E' st' (n_key_pair n) h data md \<and>
                receive E' st' alive ra (wire_frame f) [] = (Conn_ok, [(data, ra, Some md)]) \<and>
                arg_message (listen_args P' (data, ra, Some md)) = Js_string data
              else receive E' st' alive ra (wire_frame f) [] = (Conn_ok, [])))
    | _ \<Rightarrow> \<not> returned (fst (api_send_with_header P port host hv hs data n)) \<and>
        ss_send_channel (n_sender (snd (api_send_with_header P port host hv hs data n))) =
          ss_send_channel (n_sender n)"
proof (cases "header_from_json_string (p_serde P) hs (as_u8 hv) = None \<or> first_address P host port = None")
  case True
  then have "frame_for P (n_key_pair n) hv hs data = None \<or> first_address P host port = None"
    by (auto simp: frame_for_def)
  then have no: "\<not> returned (fst (api_send_with_header P port host hv hs data n))"
    by (simp add: send_with_header_returns_iff)
  from failed_send_queues_nothing [OF no] no True show ?thesis
    by (auto split: option.split Header.split)
next
  case False
  then obtain hdr a where parse: "header_from_json_string (p_serde P) hs (as_u8 hv) = Some hdr"
    and a: "first_address P host port = Some a" by auto
  obtain h where h: "hdr = V1 h" "as_u8 hv = 1" using header_version_one [OF parse] by blast
  obtain sc where "SHARDUS_CRYPTO_INSTANCE (p_crypto P) = Some sc"
    using crypto by (auto simp: same_crypto_def)
  with build_frame_total accepted obtain f where
    f: "build_frame (p_externals P) (p_crypto P) (n_key_pair n) 1 (V1 h) (into_bytes data) = Inr f" by blast
  have "frame_for P (n_key_pair n) hv hs data = Some f" using parse f h by (simp add: frame_for_def)
  from send_with_header_returns [OF this a]
  have ret: "api_send_with_header P port host hv hs data n = (Js_return (), queue_all f [a] n)" .
  have wf: "well_formed (h, data)" using ok parse h(1) by blast
  have heard: "if within_limit h then \<exists>md. shown_metadata E' st' (n_key_pair n) h data md \<and>
        receive E' st' alive ra (wire_frame f) [] = (Conn_ok, [(data, ra, Some md)])
      else receive E' st' alive ra (wire_frame f) [] = (Conn_ok, [])" if len: "length f < 2 ^ 32"
    using built_frame_handled [OF crypto f wf len] receive_wire_frame [of f E' st' alive ra "[]" "[]"] alive
    by (auto simp: receive_short)
  have queued: "ss_send_channel (n_sender (queue_all f [a] n)) =
      ss_send_channel (n_sender n) @ [(a, f, n_next_token n)]"
    "n_waiters (queue_all f [a] n) = n_waiters n @ [(n_next_token n, True)]"
    by (simp_all add: queue_all_def)
  show ?thesis unfolding parse h(1) a prod.case option.case Header.case
    using ret queued heard
    by (intro exI [of _ "queue_all f [a] n"] exI [of _ f]) (auto simp: listen_args_def)
qed

theorem send_with_header_end_to_end_witness:
  "\<exists>n' f md. api_send_with_header sample_params (Finite 5) ''here'' (Finite 1) ''header'' ''hi'' sample_net =
     (Js_return (), n') \<and> ss_send_channel (n_sender n') = [(5, f, 0)] \<and>
     (length f < 2 ^ 32 \<longrightarrow> receive sample_externals sample_static (\<lambda>_. True) (0 :: nat) (wire_frame f) [] =
        (Conn_ok, [(''hi'', 0, Some md)]))"
proof -
  have 1: "same_crypto (p_externals sample_params) (p_crypto sample_params) sample_externals sample_static
      (n_key_pair sample_net)"
    using sample_same_crypto by (simp add: sample_params_def sample_net_def shardus_net_new_def)
  have 2: "\<forall>sc. SHARDUS_CRYPTO_INSTANCE (p_crypto sample_params) = Some sc \<longrightarrow>
      hash_key_accepted (x_sodium (p_externals sample_params)) sc"
    using sample_hash_key_accepted by (simp add: sample_params_def sample_static_def sample_externals_def)
  have a: "first_address sample_params ''here'' (Finite 5) = Some 5"
    by (simp add: first_address_def sample_params_def as_u16_def as_unsigned_def)
  have 3: "\<forall>h. header_from_json_string (p_serde sample_params) ''header'' (as_u8 (Finite 1)) = Some (V1 h) \<longrightarrow>
      well_formed (h, ''hi'')"
    by (auto simp: sample_header_parses well_formed_def sample_parsed_def header_v1_ok_def text_ok_def string_ok_def
        blob_ok_def byte_of_def)
  have lim: "within_limit sample_parsed"
    by (simp add: within_limit_def sample_parsed_def HEADER_SIZE_LIMIT_IN_BYTES_def length_header_v1_serialize)
  have 4: "\<forall>k. (\<lambda>_. True) (k :: nat)" by simp
  have new: "ss_send_channel (n_sender sample_net) = []" "n_next_token sample_net = 0"
    by (simp_all add: sample_net_def shardus_net_new_def sender_new_def)
  from send_with_header_end_to_end [OF 1 4 2 3, where host = "''here''" and port = "Finite 5" and ra = "0 :: nat"
      and P' = sample_params] new lim
  show ?thesis by (auto simp: sample_header_parses a)
qed

text \<open>
  C4. Frames that a sender built, each below 4 GiB, arrived on a connection of a node with the
  same hash key that was then closed, end in JavaScript: once the node's tasks have come to
  rest, the callback has been called with each of the texts whose header takes at most the 4096
  bytes that the listener allows, with exactly the metadata of the header that was sent and the
  signature of the sender's key pair, whatever other connections, sends and errors the node had.
  The counter of receives has not wrapped.
\<close>

theorem built_frames_reach_javascript:
  assumes crypto: "same_crypto E st (p_externals P) (p_crypto P) kp"
    and sends: "list_all2 (\<lambda>(h, msg) f. build_frame E st kp 1 (V1 h) (into_bytes msg) = Inr f) sends frames"
      "\<forall>x \<in> set sends. well_formed x" "\<forall>f \<in> set frames. length f < 2 ^ 32"
    and run: "node_run P C cached T (node_new (shardus_net_new kp' c w)) nd" "taken_count nd < 2 ^ 64"
    and rest: "node_at_rest P C cached T nd"
    and conn: "cn \<in> set (nd_conns nd)" "ct_eof cn" "ct_arrived cn = concat (map wire_frame frames)"
  shows "\<exists>mds. list_all2 (\<lambda>(h, msg) md. shown_metadata (p_externals P) (p_crypto P) kp h msg md)
      (filter (\<lambda>x. within_limit (fst x)) sends) mds \<and>
    mset (map2 (\<lambda>(h, msg) md. listen_args P (msg, ct_addr cn, Some md))
      (filter (\<lambda>x. within_limit (fst x)) sends) mds) \<subseteq># mset (nd_callbacks nd)"
proof -
  let ?read = "filter (\<lambda>x. within_limit (fst x)) sends"
  have inv: "node_inv P nd" by (rule node_run_new_inv [OF run])
  from receive_built_frames [OF crypto _ sends, of "\<lambda>_. True" "ct_addr cn" "[]"] obtain mds where
    mds: "list_all2 (\<lambda>(h, msg) md. shown_metadata (p_externals P) (p_crypto P) kp h msg md) ?read mds"
    and rec: "snd (receive_all (p_externals P) (p_crypto P) (ct_addr cn) (ct_arrived cn) []) =
      map2 (\<lambda>(h, msg) md. (msg, ct_addr cn, Some md)) ?read mds" by (auto simp: conn(3))
  from sent_subset_all [OF conn(1)] have "mset (ct_sent cn) \<subseteq># mset (nd_called nd)"
    by (simp add: rest_called(1) [OF inv rest])
  then have "mset (map (listen_args P) (ct_sent cn)) \<subseteq># mset (nd_callbacks nd)"
    by (simp add: rest_called(2) [OF inv rest] image_mset_subseteq_mono)
  moreover have "map (listen_args P) (ct_sent cn) =
      map2 (\<lambda>(h, msg) md. listen_args P (msg, ct_addr cn, Some md)) ?read mds"
    by (simp add: rest_conn_sent [OF inv rest conn(1,2)] rec split_def)
  ultimately show ?thesis using mds by auto
qed

theorem built_frames_reach_javascript_witness:
  "\<exists>nd md. node_run sample_params hashmap_cache hashmap_cached sample_tcp (node_new sample_net) nd \<and>
     shown_metadata sample_externals sample_static sample_keys sample_header ''hi'' md \<and>
     listen_args sample_params (''hi'', 3, Some md) \<in> set (nd_callbacks nd)"
proof -
  let ?step = "inside_step sample_params hashmap_cache hashmap_cached sample_tcp"
  obtain f where f: "build_frame sample_externals sample_static sample_keys 1 (V1 sample_header)
      (into_bytes ''hi'') = Inr f" "length f < 2 ^ 32"
    using sample_built by blast
  have p: "p_externals sample_params = sample_externals" "p_crypto sample_params = sample_static"
    by (simp_all add: sample_params_def)
  obtain nd0 c0 where run0: "node_run sample_params hashmap_cache hashmap_cached sample_tcp (node_new sample_net) nd0"
    and c0: "nd_conns nd0 = [c0]" "ct_addr c0 = 3" "ct_arrived c0 = wire_frame f" "ct_eof c0"
    and w0: "taken_count nd0 = 0" "node_work nd0 = length (wire_frame f) + 1"
    using closed_node_run [of sample_params hashmap_cache hashmap_cached sample_tcp sample_net "3 :: nat" "wire_frame f"]
    by (elim exE conjE)
  obtain n nd where n: "(?step ^^ n) nd0 nd" and rest: "node_at_rest sample_params hashmap_cache hashmap_cached sample_tcp nd"
    using inside_to_rest [of sample_params hashmap_cache hashmap_cached sample_tcp nd0] by (elim exE conjE)
  have small: "taken_count nd < 2 ^ 64"
    using inside_steps_count [OF n] w0 f(2) by (simp add: wire_frame_def)
  have run: "node_run sample_params hashmap_cache hashmap_cached sample_tcp (node_new sample_net) nd"
    by (rule node_run_trans [OF inside_steps_run [OF n] run0])
  obtain cn where cn: "nd_conns nd = [cn]" "ct_addr cn = 3" "ct_arrived cn = wire_frame f" "ct_eof cn"
    using inside_steps_conns [OF n] c0 by (auto simp: map_eq_Cons_conv)
  have built: "list_all2 (\<lambda>(h, msg) f. build_frame sample_externals sample_static sample_keys 1 (V1 h)
      (into_bytes msg) = Inr f) [(sample_header, ''hi'')] [f]"
    and ok: "\<forall>x \<in> set [(sample_header, ''hi'')]. well_formed x" "\<forall>g \<in> set [f]. length g < 2 ^ 32"
    using f sample_well_formed by simp_all
  have crypto: "same_crypto sample_externals sample_static (p_externals sample_params) (p_crypto sample_params) sample_keys"
    unfolding p by (rule sample_same_crypto)
  have conn: "cn \<in> set (nd_conns nd)" "ct_arrived cn = concat (map wire_frame [f])" using cn by simp_all
  from built_frames_reach_javascript [OF crypto built ok run [unfolded sample_net_def] small rest conn(1) cn(4) conn(2)]
  obtain mds where mds: "list_all2 (\<lambda>(h, msg) md. shown_metadata sample_externals sample_static sample_keys h msg md)
      (filter (\<lambda>x. within_limit (fst x)) [(sample_header, ''hi'')]) mds"
    "mset (map2 (\<lambda>(h, msg) md. listen_args sample_params (msg, ct_addr cn, Some md))
      (filter (\<lambda>x. within_limit (fst x)) [(sample_header, ''hi'')]) mds)
      \<subseteq># mset (nd_callbacks nd)" unfolding p by (elim exE conjE)
  from mds(1) obtain md where md: "mds = [md]" "shown_metadata sample_externals sample_static sample_keys sample_header ''hi'' md"
    by (auto simp: list_all2_Cons1 sample_within_limit)
  with mds(2) have "listen_args sample_params (''hi'', 3, Some md) \<in> set (nd_callbacks nd)"
    by (simp add: cn(2) sample_within_limit)
  with md(2) run show ?thesis by blast
qed

text \<open>
  What the other end of a connection sees: in every run of a new sender whose items are
  below 4 GiB, a listener that reads the bytes a healthy stream of a connection has carried
  handles items for that connection's address, each as one frame, and nothing else.
\<close>

theorem peer_sees_only_items:
  assumes T: "tcp_lawful V T" and C: "connection_cache C view invar"
    and c: "invar c" "view c = Map.empty" "covers view cached"
    and run: "sender_run C cached T (sender_new c w) items ss"
    and small: "\<forall>(a, d, t) \<in> set items. length d < 2 ^ 32"
    and conn: "h_conns (ss_heap ss) i = Some conn" "c_socket conn = Some s" "s \<notin> o_broken V (ss_world ss)"
  shows "\<exists>ds. (\<forall>d \<in> set ds. \<exists>t. (c_address conn, d, t) \<in> set items) \<and>
    receive E st alive ra (o_wire V (ss_world ss) s) [] = run_frames E st alive ra ds False []"
proof -
  have cached: "\<And>c i. connection_cache.holds view c i \<Longrightarrow> cached c i"
    using c(3) by (auto simp: covers_def connection_cache.holds_def [OF C])
  note inv = connection_cache.sender_inv_new [OF C c(1,2)]
  have "connection_cache.routed V items ss"
    using connection_cache.sender_run_routed [OF C, of V T cached, OF T cached run inv
        connection_cache.routed_new [OF C]] by blast
  then obtain ds where ds: "o_wire V (ss_world ss) s = concat (map wire_frame ds)"
    "\<forall>d \<in> set ds. \<exists>t. (c_address conn, d, t) \<in> set items"
    using conn unfolding connection_cache.routed_def [OF C] connection_cache.carries_def [OF C] by blast
  then have "\<forall>d \<in> set ds. blob_ok d" using small by (fastforce simp: blob_ok_def)
  from split_frames_wire [OF this, of "[]"] ds show ?thesis
    by (auto simp: receive_run_frames)
qed

theorem peer_sees_only_items_witness:
  "\<exists>ds. (\<forall>d \<in> set ds. \<exists>t. (1, d, t) \<in> {(1 :: nat, [65 :: u8], 7 :: nat)}) \<and>
     receive sample_externals sample_static (\<lambda>_. True) (0 :: nat)
       (o_wire sample_view (ss_world sample_done) 0) [] =
     run_frames sample_externals sample_static (\<lambda>_. True) 0 ds False []"
proof -
  have "\<forall>(a, d, t) \<in> set [(1 :: nat, [65 :: u8], 7 :: nat)]. length d < 2 ^ 32" by simp
  moreover have "h_conns (ss_heap sample_done) 0 = Some \<lparr>c_address = 1, c_socket = Some 0\<rparr>"
    "c_socket \<lparr>c_address = 1 :: nat, c_socket = Some 0\<rparr> = Some (0 :: nat)"
    "0 \<notin> o_broken sample_view (ss_world sample_done)"
    by (simp_all add: sample_done_def sample_view_def)
  ultimately show ?thesis
    using peer_sees_only_items [OF sample_tcp_lawful hm.connection_cache_axioms TrueI refl hashmap_covers
        sample_run [unfolded sample_start_def], of 0 "\<lparr>c_address = 1, c_socket = Some 0\<rparr>" 0
        sample_externals sample_static "\<lambda>_. True" "0 :: nat"] by simp
qed

end
